(* ===== verification/Prelude.thy ===== *)
theory Prelude
  imports Main "HOL-Library.Word" "HOL-Library.AList"
begin

section \<open>Shared types, byte encodings and generic lemmas\<close>

text \<open>
  The machine types of the Go sources, the functions of Go's package \<open>encoding/binary\<close>
  that the sources call (big- and little-endian reads and writes of 16-, 32- and 64-bit
  words), the bytes of a text, and facts on lists, maps and words that the components
  share. Nothing here models code of the repository; the theories that import this one do.
\<close>

unbundle bit_operations_syntax

named_theorems codec_simps \<open>evaluation of byte encoders and decoders\<close>
named_theorems inv_intros \<open>preservation of a component's invariant by its operations\<close>

type_synonym u8 = "8 word"
type_synonym u16 = "16 word"
type_synonym u32 = "32 word"
type_synonym u64 = "64 word"
type_synonym bytes = "8 word list"

text \<open>A text of Go is a sequence of bytes; an Isabelle \<open>char\<close> is one byte.\<close>

definition bytes_of :: "string \<Rightarrow> bytes" where
  "bytes_of s = map of_char s"

lemma length_bytes_of [simp]: "length (bytes_of s) = length s"
  by (simp add: bytes_of_def)

lemma bytes_of_append [simp]: "bytes_of (s @ t) = bytes_of s @ bytes_of t"
  by (simp add: bytes_of_def)

lemma bit_byte_beyond [simp]: "8 \<le> n \<Longrightarrow> \<not> bit (b :: 8 word) n"
  using bit_imp_le_length [of b n] by auto

subsection \<open>Package \<open>encoding/binary\<close>\<close>

text \<open>
  \<open>be16 x\<close> and its kin are the bytes that \<open>binary.BigEndian.PutUint16\<close> stores;
  \<open>get_be16\<close> and its kin are \<open>binary.BigEndian.Uint16\<close> on a slice that is long
  enough (callers check the length first, as the sources do).
\<close>

definition be16 :: "u16 \<Rightarrow> bytes" where
  "be16 x = [ucast (drop_bit 8 x), ucast x]"

definition be32 :: "u32 \<Rightarrow> bytes" where
  "be32 x = [ucast (drop_bit 24 x), ucast (drop_bit 16 x), ucast (drop_bit 8 x), ucast x]"

definition le16 :: "u16 \<Rightarrow> bytes" where
  "le16 x = rev (be16 x)"

definition le32 :: "u32 \<Rightarrow> bytes" where
  "le32 x = rev (be32 x)"

definition le64 :: "u64 \<Rightarrow> bytes" where
  "le64 x = le32 (ucast x) @ le32 (ucast (drop_bit 32 x))"

fun get_be16 :: "bytes \<Rightarrow> u16" where
  "get_be16 (a # b # _) = push_bit 8 (ucast a) OR ucast b"
| "get_be16 _ = 0"

fun get_be32 :: "bytes \<Rightarrow> u32" where
  "get_be32 (a # b # c # d # _) =
     push_bit 24 (ucast a) OR push_bit 16 (ucast b) OR push_bit 8 (ucast c) OR ucast d"
| "get_be32 _ = 0"

fun get_le16 :: "bytes \<Rightarrow> u16" where
  "get_le16 (a # b # _) = get_be16 [b, a]"
| "get_le16 _ = 0"

fun get_le32 :: "bytes \<Rightarrow> u32" where
  "get_le32 (a # b # c # d # _) = get_be32 [d, c, b, a]"
| "get_le32 _ = 0"

definition get_le64 :: "bytes \<Rightarrow> u64" where
  "get_le64 b = ucast (get_le32 b) OR push_bit 32 (ucast (get_le32 (drop 4 b)))"

lemma length_be16 [simp]: "length (be16 x) = 2"
  by (simp add: be16_def)

lemma length_be32 [simp]: "length (be32 x) = 4"
  by (simp add: be32_def)

lemma be32_nonempty [simp]: "be32 x \<noteq> []"
  by (simp add: be32_def)

lemma length_le16 [simp]: "length (le16 x) = 2"
  by (simp add: le16_def)

lemma length_le32 [simp]: "length (le32 x) = 4"
  by (simp add: le32_def)

lemma length_le64 [simp]: "length (le64 x) = 8"
  by (simp add: le64_def)

lemma get_be16_be16 [simp]: "get_be16 (be16 x @ r) = x"
  by (simp add: be16_def) (rule bit_word_eqI, auto simp: bit_simps)

lemma get_be32_be32 [simp]: "get_be32 (be32 x @ r) = x"
proof (rule bit_word_eqI)
  fix n assume "n < LENGTH(32)"
  then consider "n < 8" | "8 \<le> n" "n < 16" | "16 \<le> n" "n < 24" | "24 \<le> n" "n < 32"
    by (simp add: not_less [symmetric]) linarith
  then show "bit (get_be32 (be32 x @ r)) n = bit x n"
    by cases (auto simp: be32_def bit_simps)
qed

lemma get_le16_le16 [simp]: "get_le16 (le16 x @ r) = x"
  using get_be16_be16 [of x "[]"] by (simp add: le16_def be16_def)

lemma get_le32_le32 [simp]: "get_le32 (le32 x @ r) = x"
  using get_be32_be32 [of x "[]"] by (simp add: le32_def be32_def)

lemma get_le64_le64 [simp]: "get_le64 (le64 x @ r) = x"
  by (simp add: get_le64_def le64_def) (rule bit_word_eqI, auto simp: bit_simps)

lemma be16_get_be16: "length b = 2 \<Longrightarrow> be16 (get_be16 b) = b"
  by (cases b rule: get_be16.cases) (auto simp: be16_def bit_simps intro!: bit_word_eqI)

lemma be32_get_be32: "length b = 4 \<Longrightarrow> be32 (get_be32 b) = b"
  by (cases b rule: get_be32.cases) (auto simp: be32_def bit_simps intro!: bit_word_eqI)

subsection \<open>Slices\<close>

text \<open>\<open>copy(dst[off:], src)\<close> for \<open>off \<le> len(dst)\<close>: as many bytes as fit.\<close>

definition go_copy :: "'a list \<Rightarrow> nat \<Rightarrow> 'a list \<Rightarrow> 'a list" where
  "go_copy dst off src =
     (let n = min (length dst - off) (length src)
      in take off dst @ take n src @ drop (off + n) dst)"

lemma length_go_copy [simp]: "off \<le> length dst \<Longrightarrow> length (go_copy dst off src) = length dst"
  by (simp add: go_copy_def Let_def)

lemma go_copy_fit:
  "length a = off \<Longrightarrow> length b = length src \<Longrightarrow> go_copy (a @ b @ c) off src = a @ src @ c"
  by (simp add: go_copy_def Let_def)

text \<open>The first index at which \<open>needle\<close> occurs, as \<open>bytes.Index\<close> and \<open>strings.Index\<close>.\<close>

fun is_prefix :: "'a list \<Rightarrow> 'a list \<Rightarrow> bool" where
  "is_prefix [] ys = True"
| "is_prefix (x # xs) [] = False"
| "is_prefix (x # xs) (y # ys) = (x = y \<and> is_prefix xs ys)"

fun contains :: "'a list \<Rightarrow> 'a list \<Rightarrow> bool" where
  "contains [] needle = (needle = [])"
| "contains (y # ys) needle = (is_prefix needle (y # ys) \<or> contains ys needle)"

lemma is_prefix_append [simp]: "is_prefix xs (xs @ ys)"
  by (induction xs) auto

lemma is_prefix_iff: "is_prefix xs ys \<longleftrightarrow> (\<exists>zs. ys = xs @ zs)"
  by (induction xs ys rule: is_prefix.induct) auto

lemma contains_iff: "contains ys xs \<longleftrightarrow> (\<exists>as bs. ys = as @ xs @ bs)"
proof (induction ys)
  case (Cons y ys)
  have "(\<exists>as bs. y # ys = as @ xs @ bs) \<longleftrightarrow>
      (\<exists>bs. y # ys = xs @ bs) \<or> (\<exists>as bs. ys = as @ xs @ bs)"
    by (auto simp: Cons_eq_append_conv)
  then show ?case using Cons by (simp add: is_prefix_iff)
qed auto

text \<open>\<open>bytes.Index\<close> and \<open>strings.Index\<close>: the position of the first occurrence.\<close>

fun index_of :: "'a list \<Rightarrow> 'a list \<Rightarrow> nat option" where
  "index_of [] needle = (if needle = [] then Some 0 else None)"
| "index_of (x # xs) needle =
     (if is_prefix needle (x # xs) then Some 0 else map_option Suc (index_of xs needle))"

lemma index_of_found:
  assumes "is_prefix p (p @ r)" "\<forall>k < length n. \<not> is_prefix p (drop k (n @ p @ r))"
  shows "index_of (n @ p @ r) p = Some (length n)"
  using assms(2)
proof (induction n)
  case Nil
  show ?case
  proof (cases "p @ r")
    case (Cons a as)
    then show ?thesis using is_prefix_append [of p r] by simp
  qed simp
next
  case (Cons x n)
  have "\<not> is_prefix p (x # n @ p @ r)" using Cons.prems by (auto dest: spec [of _ 0])
  moreover have "\<forall>k < length n. \<not> is_prefix p (drop k (n @ p @ r))"
    using Cons.prems by (auto dest: spec [of _ "Suc _"])
  ultimately show ?case using Cons.IH by simp
qed

lemma index_of_None: "index_of n p = None \<longleftrightarrow> \<not> contains n p"
  by (induction n p rule: index_of.induct) (auto simp: is_prefix_iff)

subsection \<open>Association lists\<close>

lemma length_delete_less:
  "map_of m k = Some v \<Longrightarrow> length (AList.delete k m) < length m"
  unfolding AList.delete_eq by (rule length_filter_less [OF map_of_SomeD]) simp_all

subsection \<open>Packets\<close>

text \<open>The fields of \<open>rtp.Packet\<close> that the sources set or read.\<close>

record rtp_packet =
  rtpVersion :: nat
  rtpMarker :: bool
  rtpSeq :: u16
  rtpTS :: u32
  rtpPayload :: bytes

end
