(* ===== verification/GoText.thy ===== *)
theory GoText
  imports Prelude "HOL-Library.Char_ord"
begin

section \<open>Texts of Go\<close>

text \<open>
  What the sources use of Go's packages \<open>strings\<close>, \<open>strconv\<close> and \<open>encoding/hex\<close>. A Go string is a
  sequence of bytes, here a \<open>string\<close>; the separators the sources cut and split at are single
  ASCII characters. \<open>Between\<close> of \<open>pkg/core/helpers.go\<close> is here too; nothing else models code of the repository.
\<close>

subsection \<open>Decimal numbers\<close>

definition digit_char :: "nat \<Rightarrow> char" where
  "digit_char d = char_of (48 + d)"

definition digit_val :: "char \<Rightarrow> nat option" where
  "digit_val c = (let k = of_char c :: nat in if 48 \<le> k \<and> k \<le> 57 then Some (k - 48) else None)"

fun dec_nat :: "nat \<Rightarrow> string" where
  "dec_nat n = (if n < 10 then [digit_char n] else dec_nat (n div 10) @ [digit_char (n mod 10)])"

declare dec_nat.simps [simp del]

text \<open>\<open>strconv.Itoa\<close>, \<open>strconv.FormatInt\<close> in base 10, and the verb \<open>%d\<close>.\<close>

definition dec_int :: "int \<Rightarrow> string" where
  "dec_int i = (if i < 0 then CHR ''-'' # dec_nat (nat (- i)) else dec_nat (nat i))"

fun digits_val :: "nat \<Rightarrow> string \<Rightarrow> nat option" where
  "digits_val acc [] = Some acc"
| "digits_val acc (c # cs) =
     (case digit_val c of None \<Rightarrow> None | Some d \<Rightarrow> digits_val (10 * acc + d) cs)"

text \<open>\<open>strconv.ParseUint(s, 10, bits)\<close>: \<open>None\<close> is an error.\<close>

definition parse_uint :: "nat \<Rightarrow> string \<Rightarrow> nat option" where
  "parse_uint bits s =
     (if s = [] then None
      else case digits_val 0 s of None \<Rightarrow> None | Some n \<Rightarrow> if n < 2 ^ bits then Some n else None)"

text \<open>\<open>strconv.Atoi\<close> on a 64-bit machine.\<close>

definition atoi :: "string \<Rightarrow> int option" where
  "atoi s =
     (let (neg, t) = (case s of
            [] \<Rightarrow> (False, [])
          | c # cs \<Rightarrow> if c = CHR ''-'' then (True, cs) else if c = CHR ''+'' then (False, cs) else (False, s))
      in if t = [] then None
         else case digits_val 0 t of
           None \<Rightarrow> None
         | Some n \<Rightarrow>
             if neg then (if n \<le> 2 ^ 63 then Some (- int n) else None)
             else if n < 2 ^ 63 then Some (int n) else None)"

lemma digit_val_char [simp]: "d < 10 \<Longrightarrow> digit_val (digit_char d) = Some d"
  by (simp add: digit_val_def digit_char_def)

lemma dec_nat_not_Nil [simp]: "dec_nat n \<noteq> []"
  by (subst dec_nat.simps) simp

lemma digits_val_append:
  "digits_val acc (s @ t) = (case digits_val acc s of None \<Rightarrow> None | Some n \<Rightarrow> digits_val n t)"
  by (induction acc s rule: digits_val.induct) (simp_all split: option.splits)

lemma digits_val_dec_nat [simp]: "digits_val 0 (dec_nat n) = Some n"
proof (induction n rule: dec_nat.induct)
  case (1 n)
  show ?case
  proof (cases "n < 10")
    case True
    then show ?thesis by (subst dec_nat.simps) simp
  next
    case False
    with 1 have "digits_val 0 (dec_nat (n div 10)) = Some (n div 10)" by simp
    with False show ?thesis by (subst dec_nat.simps) (simp add: digits_val_append)
  qed
qed

lemma dec_nat_head: "hd (dec_nat n) \<in> digit_char ` {..<10}"
  by (induction n rule: dec_nat.induct) (subst dec_nat.simps, auto)

lemma digit_val_sign [simp]: "digit_val (CHR ''-'') = None" "digit_val (CHR ''+'') = None"
  by code_simp+

lemma digit_char_not_sign:
  "d < 10 \<Longrightarrow> digit_char d \<noteq> CHR ''-''" "d < 10 \<Longrightarrow> digit_char d \<noteq> CHR ''+''"
  by (metis digit_val_char digit_val_sign option.distinct(1))+

lemma parse_uint_dec_nat: "n < 2 ^ bits \<Longrightarrow> parse_uint bits (dec_nat n) = Some n"
  by (simp add: parse_uint_def)

lemma atoi_dec_nat: "n < 2 ^ 63 \<Longrightarrow> atoi (dec_nat n) = Some (int n)"
proof -
  assume n: "n < 2 ^ 63"
  obtain c cs where d: "dec_nat n = c # cs" by (cases "dec_nat n") auto
  then have "c \<in> digit_char ` {..<10}" using dec_nat_head [of n] by simp
  then have "c \<noteq> CHR ''-''" "c \<noteq> CHR ''+''" using digit_char_not_sign by auto
  with d n digits_val_dec_nat [of n] show ?thesis by (simp add: atoi_def)
qed

lemma dec_nat_inject: "dec_nat m = dec_nat n \<Longrightarrow> m = n"
  by (metis digits_val_dec_nat option.inject)

subsection \<open>Cutting, splitting and trimming\<close>

text \<open>\<open>strings.Cut\<close>: \<open>None\<close> when the separator does not occur.\<close>

fun cut :: "char \<Rightarrow> string \<Rightarrow> (string \<times> string) option" where
  "cut sep [] = None"
| "cut sep (c # cs) =
     (if c = sep then Some ([], cs)
      else case cut sep cs of None \<Rightarrow> None | Some (a, b) \<Rightarrow> Some (c # a, b))"

text \<open>\<open>strings.Split\<close>, and \<open>strings.SplitN\<close> with \<open>n = 2\<close>.\<close>

fun split_on :: "char \<Rightarrow> string \<Rightarrow> string list" where
  "split_on sep [] = [[]]"
| "split_on sep (c # cs) =
     (if c = sep then [] # split_on sep cs
      else case split_on sep cs of [] \<Rightarrow> [[c]] | p # ps \<Rightarrow> (c # p) # ps)"

definition split2 :: "char \<Rightarrow> string \<Rightarrow> string list" where
  "split2 sep s = (case cut sep s of None \<Rightarrow> [s] | Some (a, b) \<Rightarrow> [a, b])"

text \<open>
  \<open>strings.TrimSpace\<close>: \<open>space_seqs\<close> lists the UTF-8 encodings of the characters with Unicode's
  property White Space.
\<close>

definition space_seqs :: "string list" where
  "space_seqs = map (map (char_of :: nat \<Rightarrow> char))
     ([[9], [10], [11], [12], [13], [32], [0xC2, 0x85], [0xC2, 0xA0], [0xE1, 0x9A, 0x80]]
      @ map (\<lambda>k. [0xE2, 0x80, k]) [0x80..<0x8B]
      @ [[0xE2, 0x80, 0xA8], [0xE2, 0x80, 0xA9], [0xE2, 0x80, 0xAF], [0xE2, 0x81, 0x9F],
         [0xE3, 0x80, 0x80]])"

lemma find_nonempty: "find (\<lambda>p. p \<noteq> [] \<and> P p) ps = Some q \<Longrightarrow> q \<noteq> []"
  by (auto simp: find_Some_iff)

function trim_seqs :: "string list \<Rightarrow> string \<Rightarrow> string" where
  "trim_seqs ps s =
     (if s = [] then []
      else case find (\<lambda>p. p \<noteq> [] \<and> is_prefix p s) ps of
        None \<Rightarrow> s
      | Some p \<Rightarrow> trim_seqs ps (drop (length p) s))"
  by pat_completeness auto
termination
  by (relation "measure (\<lambda>(ps, s). length s)") (auto dest: find_nonempty)

declare trim_seqs.simps [simp del]

definition trim_space :: "string \<Rightarrow> string" where
  "trim_space s = rev (trim_seqs (map rev space_seqs) (rev (trim_seqs space_seqs s)))"

definition trim_left_char :: "char \<Rightarrow> string \<Rightarrow> string" where
  "trim_left_char c s = dropWhile (\<lambda>x. x = c) s"

definition trim_right_char :: "char \<Rightarrow> string \<Rightarrow> string" where
  "trim_right_char c s = rev (dropWhile (\<lambda>x. x = c) (rev s))"

text \<open>\<open>strings.ToUpper\<close> on ASCII letters; other bytes stay.\<close>

definition upper_char :: "char \<Rightarrow> char" where
  "upper_char c = (let k = of_char c :: nat in if 97 \<le> k \<and> k \<le> 122 then char_of (k - 32) else c)"

definition to_upper :: "string \<Rightarrow> string" where
  "to_upper s = map upper_char s"

lemma cut_Some: "cut sep s = Some (a, b) \<longleftrightarrow> s = a @ sep # b \<and> sep \<notin> set a"
proof (induction s arbitrary: a)
  case (Cons c s)
  show ?case
  proof (cases a)
    case Nil
    then show ?thesis by (simp split: option.splits)
  next
    case (Cons d a')
    have "(case cut sep s of None \<Rightarrow> None | Some (a, b) \<Rightarrow> Some (c # a, b)) = Some (d # a', b)
        \<longleftrightarrow> cut sep s = Some (a', b) \<and> c = d"
      by (cases "cut sep s") auto
    then show ?thesis using Cons.IH [of a'] Cons by auto
  qed
qed simp

lemma cut_None: "cut sep s = None \<longleftrightarrow> sep \<notin> set s"
  by (induction s) (auto split: option.splits)

lemma split_on_not_Nil [simp]: "split_on sep s \<noteq> []"
  by (induction s) (auto split: list.splits)

lemma split_on_no_sep: "\<forall>p \<in> set (split_on sep s). sep \<notin> set p"
proof (induction s)
  case (Cons c s)
  then show ?case by (cases "split_on sep s") auto
qed simp

lemma split_on_single: "sep \<notin> set s \<Longrightarrow> split_on sep s = [s]"
  by (induction s) auto

lemma split_on_append: "sep \<notin> set a \<Longrightarrow> split_on sep (a @ sep # b) = a # split_on sep b"
  by (induction a) auto

text \<open>A text that starts and ends with ASCII characters other than spaces stays as it is.\<close>

definition visible :: "char \<Rightarrow> bool" where
  "visible c = (let k = of_char c :: nat in 33 \<le> k \<and> k \<le> 126)"

definition plain :: "string \<Rightarrow> bool" where
  "plain s = (s = [] \<or> (visible (hd s) \<and> visible (last s)))"

lemma space_seqs_visible:
  "p \<in> set space_seqs \<Longrightarrow> p \<noteq> [] \<and> \<not> visible (hd p) \<and> \<not> visible (last p)"
  by (auto simp: space_seqs_def visible_def)

lemma find_is_prefix_None:
  assumes "\<And>p. p \<in> set ps \<Longrightarrow> p \<noteq> [] \<and> \<not> visible (hd p)" "visible (hd s)"
  shows "find (\<lambda>p. p \<noteq> [] \<and> is_prefix p s) ps = None"
  using assms by (force simp: find_None_iff is_prefix_iff)

lemma trim_seqs_visible:
  assumes "\<And>p. p \<in> set ps \<Longrightarrow> p \<noteq> [] \<and> \<not> visible (hd p)" "s = [] \<or> visible (hd s)"
  shows "trim_seqs ps s = s"
  using assms by (subst trim_seqs.simps) (auto simp: find_is_prefix_None)

lemma trim_space_plain: "plain s \<Longrightarrow> trim_space s = s"
proof -
  assume p: "plain s"
  then have "trim_seqs space_seqs s = s"
    by (intro trim_seqs_visible) (auto simp: plain_def dest: space_seqs_visible)
  moreover have "trim_seqs (map rev space_seqs) (rev s) = rev s"
    using p by (intro trim_seqs_visible) (auto simp: plain_def hd_rev dest: space_seqs_visible)
  ultimately show ?thesis by (simp add: trim_space_def)
qed

subsection \<open>Searching\<close>

text \<open>\<open>Between\<close> of \<open>pkg/core/helpers.go\<close>: what stands between two texts.\<close>

definition Between :: "string \<Rightarrow> string \<Rightarrow> string \<Rightarrow> string" where
  "Between s sub1 sub2 =
     (case index_of s sub1 of
        None \<Rightarrow> []
      | Some i \<Rightarrow>
          let s1 = drop (i + length sub1) s in
          (case index_of s1 sub2 of Some j \<Rightarrow> take j s1 | None \<Rightarrow> s1))"

subsection \<open>Hexadecimal\<close>

definition hex_digit :: "u8 \<Rightarrow> u8" where
  "hex_digit n = (if n < 10 then 48 + n else 87 + n)"

definition hex_encode :: "bytes \<Rightarrow> bytes" where
  "hex_encode b = concat (map (\<lambda>x. [hex_digit (drop_bit 4 x), hex_digit (x AND 15)]) b)"

definition hex_value :: "char \<Rightarrow> nat option" where
  "hex_value c =
     (let k = of_char c :: nat in
      if 48 \<le> k \<and> k \<le> 57 then Some (k - 48)
      else if 97 \<le> k \<and> k \<le> 102 then Some (k - 87)
      else if 65 \<le> k \<and> k \<le> 70 then Some (k - 55) else None)"

text \<open>\<open>hex.Decode\<close>: \<open>None\<close> is an error.\<close>

fun hex_decode :: "string \<Rightarrow> bytes option" where
  "hex_decode [] = Some []"
| "hex_decode [c] = None"
| "hex_decode (c # d # cs) =
     (case (hex_value c, hex_value d, hex_decode cs) of
        (Some a, Some b, Some r) \<Rightarrow> Some (of_nat (16 * a + b) # r)
      | _ \<Rightarrow> None)"

lemma length_hex_encode [simp]: "length (hex_encode b) = 2 * length b"
  by (induction b) (auto simp: hex_encode_def)

definition hex_text :: "bytes \<Rightarrow> string" where
  "hex_text b = map (\<lambda>x. char_of (unat x)) (hex_encode b)"

lemma unat_hex_digit:
  assumes "n < 16"
  shows "unat (hex_digit n) = (if unat n < 10 then 48 + unat n else 87 + unat n)"
proof -
  have k: "unat n < 16" using assms by (simp add: word_less_nat_alt)
  have c: "n < 10 \<longleftrightarrow> unat n < 10" by (simp add: word_less_nat_alt)
  have "unat (48 + n) = 48 + unat n" "unat (87 + n) = 87 + unat n"
    using k by (simp_all add: unat_word_ariths)
  then show ?thesis by (simp add: hex_digit_def c)
qed

lemma hex_value_digit: "n < 16 \<Longrightarrow> hex_value (char_of (unat (hex_digit n))) = Some (unat n)"
proof -
  assume n: "n < 16"
  then have "unat n < 16" by (simp add: word_less_nat_alt)
  then show ?thesis by (auto simp: unat_hex_digit [OF n] hex_value_def)
qed

lemma hex_nibbles:
  fixes x :: u8
  shows "drop_bit 4 x < 16" "x AND 15 < 16" "of_nat (16 * unat (drop_bit 4 x) + unat (x AND 15)) = x"
proof -
  have d: "drop_bit 4 x = x div 16" by (simp add: drop_bit_eq_div)
  have a: "x AND 15 = x mod 16"
    using take_bit_eq_mask [of 4 x] by (simp add: mask_eq_exp_minus_1 take_bit_eq_mod)
  have "unat x < 2 ^ 8" using unsigned_less [of x] by simp
  then show "drop_bit 4 x < 16"
    by (simp add: d word_less_nat_alt unat_div less_mult_imp_div_less)
  show "x AND 15 < 16" by (simp add: a word_less_nat_alt unat_mod)
  have "16 * unat (x div 16) + unat (x mod 16) = unat x"
    by (simp add: unat_div unat_mod)
  then have "of_nat (16 * unat (drop_bit 4 x) + unat (x AND 15)) = (of_nat (unat x) :: u8)"
    by (simp only: d a)
  then show "of_nat (16 * unat (drop_bit 4 x) + unat (x AND 15)) = x" by simp
qed

lemma hex_text_Cons:
  "hex_text (x # b) = char_of (unat (hex_digit (drop_bit 4 x))) # char_of (unat (hex_digit (x AND 15))) # hex_text b"
  by (simp add: hex_text_def hex_encode_def)

lemma hex_decode_hex_text [simp]: "hex_decode (hex_text b) = Some b"
proof (induction b)
  case Nil
  then show ?case by (simp add: hex_text_def hex_encode_def)
next
  case (Cons x b)
  then show ?case
    using hex_nibbles [of x] by (simp add: hex_text_Cons hex_value_digit del: of_nat_add of_nat_mult)
qed

end
