(* ===== verification/Cs2Channel.thy ===== *)
theory Cs2Channel
  imports Prelude
begin

section \<open>The data channel of the CS2 transport\<close>

text \<open>
  Models \<open>dataChannel\<close> of \<open>pkg/xiaomi/miss/cs2/conn.go\<close>: reassembly of length-prefixed
  frames from a byte stream (\<open>Push\<close>, \<open>push\<close>), the accounting of buffered bytes
  (\<open>reserve\<close>, \<open>Pop\<close>, \<open>Close\<close>), delivery into a bounded Go channel (\<open>deliver\<close>) and
  reordering of UDP packets by a 16-bit sequence number (\<open>PushSeq\<close>).

  Go's \<open>popBuf\<close> channel is the list \<open>popBuf\<close> with its capacity \<open>popCap\<close> (\<open>None\<close>: a nil
  channel) and the flag \<open>popClosed\<close>. The map \<open>pushBuf\<close> is an association list with
  distinct keys, \<open>None\<close> for Go's nil map. \<open>taken\<close> is a history variable: the frames that
  \<open>Pop\<close> has returned so far. A send that has to wait meets the events of an explicit
  environment: a list of \<open>wait_event\<close>, one per wait; when nothing else happens the timer
  of \<open>deliver\<close> fires. Go panics are the error \<open>Panic\<close>.
\<close>

datatype cs2_error =
    InvalidFrameSize u32
  | FrameBufferLimit
  | PopBufferFull
  | NetClosed
  | ConsumerStalled
  | CommandTooShort
  | MediaTooShort
  | InvalidPacketHeader
  | CantSendCommand u32
  | EndOfFile
  | ReadError string
  | Panic

record dataChannel =
  waitSeq :: u16
  pushBuf :: "(u16 \<times> bytes) list option"
  pushSize :: int
  waitData :: bytes
  waitSize :: nat
  popBuf :: "bytes list"
  popCap :: "nat option"
  popClosed :: bool
  minFrameSize :: int
  frameLimit :: int
  bufferLimit :: int
  bufferedSize :: int
  taken :: "bytes list"

definition maxFrameSize :: int where
  "maxFrameSize = push_bit 20 16"

definition maxBufferedSize :: int where
  "maxBufferedSize = push_bit 20 32"

definition newDataChannel :: "int \<Rightarrow> int \<Rightarrow> int \<Rightarrow> dataChannel" where
  "newDataChannel pushSz popSz minSz =
     \<lparr>waitSeq = 0,
      pushBuf = (if pushSz > 0 then Some [] else None),
      pushSize = (if pushSz > 0 then pushSz else 0),
      waitData = [], waitSize = 0,
      popBuf = [], popCap = (if popSz \<ge> 0 then Some (nat popSz) else None),
      popClosed = False,
      minFrameSize = minSz, frameLimit = maxFrameSize, bufferLimit = maxBufferedSize,
      bufferedSize = 0, taken = []\<rparr>"

subsection \<open>Accounting and delivery\<close>

definition reserve :: "dataChannel \<Rightarrow> nat \<Rightarrow> dataChannel option" where
  "reserve c n =
     (if int n > bufferLimit c - bufferedSize c then None
      else Some (c\<lparr>bufferedSize := bufferedSize c + int n\<rparr>))"

text \<open>
  \<open>Pop\<close> on a queue that holds a frame. On an empty queue it waits, or returns
  \<open>ok = false\<close> once the channel is closed: both are \<open>None\<close> and leave the state.
\<close>

definition chanPop :: "dataChannel \<Rightarrow> (bytes \<times> dataChannel) option" where
  "chanPop c =
     (case popBuf c of
        [] \<Rightarrow> None
      | data # q \<Rightarrow>
          Some (data, c\<lparr>popBuf := q, bufferedSize := bufferedSize c - int (length data),
                       taken := taken c @ [data]\<rparr>))"

definition chanClose :: "dataChannel \<Rightarrow> dataChannel + cs2_error" where
  "chanClose c =
     (let c1 = (if waitSize c > 0
                then c\<lparr>bufferedSize := bufferedSize c - int (waitSize c)\<rparr> else c);
          c2 = c1\<lparr>waitData := [], waitSize := 0, pushBuf := None\<rparr>
      in if popClosed c2 \<or> popCap c2 = None then Inr Panic
         else Inl (c2\<lparr>popClosed := True\<rparr>))"

datatype wait_event = ConsumerPop | DoneClosed | TimerFired

text \<open>
  The channel \<open>done\<close> of \<open>deliver\<close>: \<open>None\<close> is Go's nil, \<open>Some ws\<close> a live channel together
  with what happens in the waits to come.
\<close>

type_synonym done_chan = "wait_event list option"

definition sendReady :: "dataChannel \<Rightarrow> bool" where
  "sendReady c = (case popCap c of None \<Rightarrow> False | Some n \<Rightarrow> length (popBuf c) < n)"

definition enqueue :: "dataChannel \<Rightarrow> bytes \<Rightarrow> dataChannel" where
  "enqueue c frame = c\<lparr>popBuf := popBuf c @ [frame]\<rparr>"

definition next_wait :: "wait_event list \<Rightarrow> wait_event \<times> wait_event list" where
  "next_wait ws = (case ws of [] \<Rightarrow> (TimerFired, []) | w # ws' \<Rightarrow> (w, ws'))"

definition deliver ::
  "done_chan \<Rightarrow> dataChannel \<Rightarrow> bytes \<Rightarrow> done_chan \<times> dataChannel \<times> cs2_error option" where
  "deliver dn c frame =
     (if popClosed c then (dn, c, Some Panic)
      else if sendReady c then (dn, enqueue c frame, None)
      else case dn of
        None \<Rightarrow> (dn, c, Some PopBufferFull)
      | Some ws \<Rightarrow>
          (case next_wait ws of
             (ConsumerPop, ws') \<Rightarrow>
               (case chanPop (enqueue c frame) of
                  Some (_, c') \<Rightarrow> (Some ws', c', None)
                | None \<Rightarrow> (Some ws', c, Some Panic))
           | (DoneClosed, ws') \<Rightarrow> (Some ws', c, Some NetClosed)
           | (TimerFired, ws') \<Rightarrow> (Some ws', c, Some ConsumerStalled)))"

subsection \<open>Reassembly of frames\<close>

text \<open>
  One round of the loop of \<open>push\<close> in its two parts. \<open>pushHeader\<close> is the branch taken when
  no frame is being read: \<open>Inl\<close> is a return of \<open>push\<close>, \<open>Inr\<close> goes on to the second part
  with the bytes left. \<open>pushBody\<close> is the rest of the round; it yields the bytes left and
  the error \<open>push\<close> returns, if any.
\<close>

definition pushHeader ::
  "dataChannel \<Rightarrow> bytes \<Rightarrow> (dataChannel \<times> cs2_error option) + (dataChannel \<times> bytes)" where
  "pushHeader c b =
     (if waitSize c \<noteq> 0 then Inr (c, b)
      else if length (waitData c) > 4 then Inl (c, Some Panic)
      else
        let n = min (4 - length (waitData c)) (length b);
            c1 = c\<lparr>waitData := waitData c @ take n b\<rparr>;
            b1 = drop n b
        in if length (waitData c1) < 4 then Inl (c1, None)
           else
             let sz = get_be32 (waitData c1)
             in if sz < word_of_int (minFrameSize c1) \<or> sz > word_of_int (frameLimit c1)
                then Inl (c1, Some (InvalidFrameSize sz))
                else case reserve c1 (unat sz) of
                       None \<Rightarrow> Inl (c1, Some FrameBufferLimit)
                     | Some c2 \<Rightarrow> Inr (c2\<lparr>waitSize := unat sz, waitData := []\<rparr>, b1))"

definition pushBody ::
  "done_chan \<Rightarrow> dataChannel \<Rightarrow> bytes \<Rightarrow> done_chan \<times> dataChannel \<times> bytes \<times> cs2_error option"
where
  "pushBody dn c b =
     (if length (waitData c) > waitSize c then (dn, c, b, Some Panic)
      else
        let n = min (waitSize c - length (waitData c)) (length b);
            c1 = c\<lparr>waitData := waitData c @ take n b\<rparr>;
            b1 = drop n b
        in if length (waitData c1) < waitSize c1 then (dn, c1, b1, None)
           else case deliver dn c1 (waitData c1) of
             (dn', c2, Some e) \<Rightarrow>
               (dn', c2\<lparr>bufferedSize := bufferedSize c2 - int (waitSize c2),
                        waitData := [], waitSize := 0\<rparr>, b1, Some e)
           | (dn', c2, None) \<Rightarrow> (dn', c2\<lparr>waitData := [], waitSize := 0\<rparr>, b1, None))"

text \<open>A round either uses bytes up or leaves a state in which the next one does.\<close>

definition stuck_round :: "dataChannel \<Rightarrow> nat" where
  "stuck_round c =
     (if waitSize c = 0 then of_bool (length (waitData c) \<ge> 4)
      else of_bool (length (waitData c) \<ge> waitSize c))"

lemma deliver_frame:
  assumes "deliver dn c f = (dn', c', e)"
  shows "waitSeq c' = waitSeq c" "pushBuf c' = pushBuf c" "pushSize c' = pushSize c"
    "waitData c' = waitData c" "waitSize c' = waitSize c" "popCap c' = popCap c"
    "popClosed c' = popClosed c" "minFrameSize c' = minFrameSize c"
    "frameLimit c' = frameLimit c" "bufferLimit c' = bufferLimit c"
  using assms
  by (auto simp: deliver_def chanPop_def enqueue_def
      split: if_splits option.splits list.splits prod.splits wait_event.splits)

lemma reserve_frame:
  assumes "reserve c n = Some c'"
  shows "c' = c\<lparr>bufferedSize := bufferedSize c + int n\<rparr>" "bufferedSize c + int n \<le> bufferLimit c"
  using assms by (auto simp: reserve_def split: if_splits)

lemma pushHeader_waiting: "waitSize c \<noteq> 0 \<Longrightarrow> pushHeader c b = Inr (c, b)"
  by (simp add: pushHeader_def)

lemma pushHeader_length:
  assumes "pushHeader c b = Inr (c1, b1)"
  shows "length b1 \<le> length b"
    and "length b1 = length b \<Longrightarrow> b1 = b \<and>
      (waitSize c \<noteq> 0 \<and> c1 = c \<or> waitSize c = 0 \<and> (b \<noteq> [] \<longrightarrow> length (waitData c) = 4) \<and> waitData c1 = [])"
  using assms
  by (auto simp: pushHeader_def Let_def dest!: reserve_frame(1) split: if_splits option.splits)

lemma pushBody_length:
  assumes p: "pushBody dn c b = (dn', c1, b1, None)"
  shows "length b1 \<le> length b"
    and "length b1 = length b \<Longrightarrow> b \<noteq> [] \<Longrightarrow>
      waitSize c = length (waitData c) \<and> waitSize c1 = 0 \<and> waitData c1 = []"
proof -
  define n where "n = min (waitSize c - length (waitData c)) (length b)"
  have le: "length (waitData c) \<le> waitSize c"
    using p by (auto simp: pushBody_def split: if_splits)
  have b1: "b1 = drop n b"
    using p le by (auto simp: pushBody_def Let_def n_def split: if_splits prod.splits option.splits)
  show "length b1 \<le> length b" by (simp add: b1)
  assume "length b1 = length b" "b \<noteq> []"
  then have n0: "n = 0" by (cases b) (auto simp: b1)
  then have eq: "waitSize c = length (waitData c)"
    using le \<open>b \<noteq> []\<close> by (auto simp: n_def min_def split: if_splits)
  show "waitSize c = length (waitData c) \<and> waitSize c1 = 0 \<and> waitData c1 = []"
    using p eq by (auto simp: pushBody_def Let_def split: prod.splits option.splits)
qed

lemma push_round_decreases:
  assumes b: "b \<noteq> []" and h: "pushHeader c b = Inr (c1, b1)"
    and p: "pushBody dn c1 b1 = (dn2, c2, b2, None)"
  shows "length b2 < length b \<or> length b2 = length b \<and> stuck_round c2 < stuck_round c"
proof (cases "length b2 = length b")
  case False
  with pushHeader_length(1) [OF h] pushBody_length(1) [OF p] show ?thesis by simp
next
  case True
  with pushHeader_length(1) [OF h] pushBody_length(1) [OF p]
  have eq: "length b1 = length b" "length b2 = length b1" by auto
  with b have "b1 \<noteq> []" by auto
  note hd = pushHeader_length(2) [OF h eq(1)]
  note bd = pushBody_length(2) [OF p eq(2) \<open>b1 \<noteq> []\<close>]
  have "stuck_round c2 = 0" using bd by (simp add: stuck_round_def)
  moreover have "stuck_round c = 1" using hd bd b by (auto simp: stuck_round_def)
  ultimately show ?thesis using True by simp
qed

function push ::
  "done_chan \<Rightarrow> dataChannel \<Rightarrow> bytes \<Rightarrow> done_chan \<times> dataChannel \<times> cs2_error option" where
  "push dn c b =
     (if b = [] then (dn, c, None)
      else case pushHeader c b of
        Inl (c1, e) \<Rightarrow> (dn, c1, e)
      | Inr (c1, b1) \<Rightarrow>
          (case pushBody dn c1 b1 of
             (dn2, c2, b2, Some e) \<Rightarrow> (dn2, c2, Some e)
           | (dn2, c2, b2, None) \<Rightarrow> push dn2 c2 b2))"
  by pat_completeness auto
termination
  by (relation "measures [\<lambda>(dn, c, b). length b, \<lambda>(dn, c, b). stuck_round c]")
    (auto dest: push_round_decreases [OF _ _ sym])

declare push.simps [simp del]

lemma push_Nil [simp]: "push dn c [] = (dn, c, None)"
  by (simp add: push.simps)

definition Push :: "dataChannel \<Rightarrow> bytes \<Rightarrow> dataChannel \<times> cs2_error option" where
  "Push c b = (case push None c b of (_, c', e) \<Rightarrow> (c', e))"

subsection \<open>Splitting the input does not matter\<close>

text \<open>
  A part that completes the length prefix (or, in the body, the frame) behaves the same
  whatever follows it; a part that does not is stored, and the round starts anew on what
  follows.
\<close>

lemma pushHeader_enough:
  assumes "waitSize c \<noteq> 0 \<or> 4 \<le> length (waitData c) + length a"
  shows "pushHeader c (a @ b) = map_sum id (apsnd (\<lambda>r. r @ b)) (pushHeader c a)"
proof (cases "waitSize c = 0")
  case True
  with assms have le: "4 - length (waitData c) \<le> length a" by simp
  then have m: "min (4 - length (waitData c)) (length a) = 4 - length (waitData c)"
    "min (4 - length (waitData c)) (length (a @ b)) = 4 - length (waitData c)" by simp_all
  show ?thesis
    unfolding pushHeader_def Let_def m using True le
    by (simp split: option.split)
qed (simp add: pushHeader_def)

lemma pushHeader_short:
  assumes "waitSize c = 0" "length (waitData c) + length a < 4"
  shows "pushHeader c a = Inl (c\<lparr>waitData := waitData c @ a\<rparr>, None)"
    and "pushHeader c (a @ b) = pushHeader (c\<lparr>waitData := waitData c @ a\<rparr>) b"
proof -
  have m: "min (4 - length (waitData c)) (length a) = length a" using assms by simp
  show "pushHeader c a = Inl (c\<lparr>waitData := waitData c @ a\<rparr>, None)"
    unfolding pushHeader_def Let_def m using assms by simp
  have n: "min (4 - length (waitData c)) (length (a @ b))
      = length a + min (4 - length (waitData c @ a)) (length b)"
    using assms by simp
  show "pushHeader c (a @ b) = pushHeader (c\<lparr>waitData := waitData c @ a\<rparr>) b"
    unfolding pushHeader_def Let_def n using assms by (simp split: option.split)
qed

lemma pushBody_enough:
  assumes "waitSize c \<le> length (waitData c) + length a"
  shows "pushBody dn c (a @ b) =
    (case pushBody dn c a of (dn', c1, a1, e) \<Rightarrow> (dn', c1, a1 @ b, e))"
proof -
  have le: "waitSize c - length (waitData c) \<le> length a" using assms by simp
  then have m: "min (waitSize c - length (waitData c)) (length a) = waitSize c - length (waitData c)"
    "min (waitSize c - length (waitData c)) (length (a @ b)) = waitSize c - length (waitData c)"
    by simp_all
  show ?thesis
    unfolding pushBody_def Let_def m using le
    by (simp split: prod.split option.split)
qed

lemma pushBody_short:
  assumes "length (waitData c) + length a < waitSize c"
  shows "pushBody dn c a = (dn, c\<lparr>waitData := waitData c @ a\<rparr>, [], None)"
    and "pushBody dn c (a @ b) = pushBody dn (c\<lparr>waitData := waitData c @ a\<rparr>) b"
proof -
  have m: "min (waitSize c - length (waitData c)) (length a) = length a" using assms by simp
  show "pushBody dn c a = (dn, c\<lparr>waitData := waitData c @ a\<rparr>, [], None)"
    unfolding pushBody_def Let_def m using assms by simp
  have n: "min (waitSize c - length (waitData c)) (length (a @ b))
      = length a + min (waitSize c - length (waitData c @ a)) (length b)"
    using assms by simp
  show "pushBody dn c (a @ b) = pushBody dn (c\<lparr>waitData := waitData c @ a\<rparr>) b"
    unfolding pushBody_def Let_def n using assms by simp
qed

lemma push_body_waiting:
  assumes "waitSize c \<noteq> 0"
  shows "push dn c b =
    (if b = [] then (dn, c, None)
     else case pushBody dn c b of
       (dn2, c2, b2, Some e) \<Rightarrow> (dn2, c2, Some e)
     | (dn2, c2, b2, None) \<Rightarrow> push dn2 c2 b2)"
  by (subst push.simps) (simp add: pushHeader_waiting [OF assms])

lemma push_append:
  "push dn c (a @ b) =
     (case push dn c a of
        (dn', c', Some e) \<Rightarrow> (dn', c', Some e)
      | (dn', c', None) \<Rightarrow> push dn' c' b)"
proof (induction dn c a rule: push.induct)
  case (1 dn c a)
  consider "a = []"
    | "a \<noteq> []" "waitSize c = 0" "length (waitData c) + length a < 4"
    | "a \<noteq> []" "waitSize c \<noteq> 0 \<or> 4 \<le> length (waitData c) + length a"
    by linarith
  then show ?case
  proof cases
    case 1
    then show ?thesis by simp
  next
    case 2
    then show ?thesis
      by (cases "b = []") (simp_all add: push.simps pushHeader_short)
  next
    case 3
    note H = pushHeader_enough [OF 3(2), of b]
    show ?thesis
    proof (cases "pushHeader c a")
      case (Inl r)
      with 3 H show ?thesis
        by (cases r, cases "snd r") (auto simp: push.simps pushHeader_def Let_def
            split: if_splits option.splits)
    next
      case (Inr r)
      obtain c1 a1 where r: "r = (c1, a1)" by (cases r)
      note h = Inr [unfolded r]
      from H h have H': "pushHeader c (a @ b) = Inr (c1, a1 @ b)" by simp
      obtain dn2 c2 a2 e where p: "pushBody dn c1 a1 = (dn2, c2, a2, e)"
        by (cases "pushBody dn c1 a1")
      show ?thesis
      proof (cases "waitSize c1 \<le> length (waitData c1) + length a1")
        case True
        from pushBody_enough [OF True, of dn b] p
        have p': "pushBody dn c1 (a1 @ b) = (dn2, c2, a2 @ b, e)" by simp
        show ?thesis
          using 3(1) h H' p p' "1" [OF 3(1) h refl p [symmetric]]
          by (cases e) (simp_all add: push.simps [of dn c])
      next
        case False
        then have lt: "length (waitData c1) + length a1 < waitSize c1" by simp
        then have "waitSize c1 \<noteq> 0" by simp
        with 3(1) h H' pushBody_short [OF lt, of dn] show ?thesis
          by (cases "b = []") (simp_all add: push.simps [of dn c] push_body_waiting)
      qed
    qed
  qed
qed

subsection \<open>The accounting invariant\<close>

definition queued :: "dataChannel \<Rightarrow> nat" where
  "queued c = sum_list (map length (popBuf c))"

text \<open>The limits a channel is created with; \<open>Dial\<close> uses 4 and 32 as smallest frame.\<close>

definition chan_limits :: "dataChannel \<Rightarrow> bool" where
  "chan_limits c \<longleftrightarrow> 0 < minFrameSize c \<and> minFrameSize c \<le> frameLimit c \<and> frameLimit c < 2 ^ 32"

definition chan_inv :: "dataChannel \<Rightarrow> bool" where
  "chan_inv c \<longleftrightarrow>
     chan_limits c \<and>
     bufferedSize c = int (waitSize c) + int (queued c) \<and>
     bufferedSize c \<le> bufferLimit c \<and>
     (waitSize c = 0 \<longrightarrow> length (waitData c) \<le> 4) \<and>
     (waitSize c > 0 \<longrightarrow> length (waitData c) < waitSize c \<and>
        minFrameSize c \<le> int (waitSize c) \<and> int (waitSize c) \<le> frameLimit c) \<and>
     (\<forall>f \<in> set (popBuf c). minFrameSize c \<le> int (length f) \<and> int (length f) \<le> frameLimit c) \<and>
     length (popBuf c) \<le> (case popCap c of None \<Rightarrow> 0 | Some n \<Rightarrow> n)"

lemma uint_word_of_int_small: "0 \<le> m \<Longrightarrow> m < 2 ^ 32 \<Longrightarrow> uint (word_of_int m :: u32) = m"
  by (simp add: uint_word_of_int)

lemma chan_limits_word:
  assumes "chan_limits c"
  shows "(sz :: u32) < word_of_int (minFrameSize c) \<longleftrightarrow> int (unat sz) < minFrameSize c"
    and "word_of_int (frameLimit c) < (sz :: u32) \<longleftrightarrow> frameLimit c < int (unat sz)"
proof -
  have "uint (word_of_int (minFrameSize c) :: u32) = minFrameSize c"
    and "uint (word_of_int (frameLimit c) :: u32) = frameLimit c"
    using assms by (auto simp: chan_limits_def intro!: uint_word_of_int_small)
  then show "(sz :: u32) < word_of_int (minFrameSize c) \<longleftrightarrow> int (unat sz) < minFrameSize c"
    and "word_of_int (frameLimit c) < (sz :: u32) \<longleftrightarrow> frameLimit c < int (unat sz)"
    by (simp_all only: word_less_alt uint_nat)
qed

lemma chan_inv_new:
  assumes "0 < m" "m \<le> maxFrameSize"
  shows "chan_inv (newDataChannel p q m)"
  using assms
  by (simp add: chan_inv_def chan_limits_def newDataChannel_def queued_def maxFrameSize_def
      maxBufferedSize_def push_bit_eq_mult)

lemma chanPop_SomeD:
  assumes "chanPop c = Some (d, c')"
  shows "popBuf c = d # popBuf c'"
    "c' = c\<lparr>popBuf := popBuf c', bufferedSize := bufferedSize c - int (length d),
              taken := taken c @ [d]\<rparr>"
  using assms by (auto simp: chanPop_def split: list.splits)

lemma chanPop_inv [inv_intros]:
  assumes "chan_inv c" "chanPop c = Some (d, c')"
  shows "chan_inv c'"
proof -
  obtain q where q: "popBuf c = d # q"
    and c': "c' = c\<lparr>popBuf := q, bufferedSize := bufferedSize c - int (length d),
                     taken := taken c @ [d]\<rparr>"
    using chanPop_SomeD [OF assms(2)] by blast
  show ?thesis
    using assms(1) by (simp add: c' chan_inv_def chan_limits_def queued_def q split: option.splits)
qed

lemma deliver_cases:
  assumes "deliver dn c f = (dn', c', e)"
  shows "(\<exists>x. e = Some x \<and> c' = c) \<or>
    e = None \<and> sendReady c \<and> c' = enqueue c f \<or>
    e = None \<and> (\<exists>d. chanPop (enqueue c f) = Some (d, c'))"
proof (cases "popClosed c \<or> sendReady c \<or> dn = None")
  case True
  with assms show ?thesis by (auto simp: deliver_def split: if_splits)
next
  case False
  then obtain ws where "dn = Some ws" by blast
  with False assms show ?thesis
    by (auto simp: deliver_def split: prod.splits wait_event.splits option.splits)
qed

lemma enqueue_popped:
  assumes "chanPop (enqueue c f) = Some (d, c')"
  shows "popBuf c @ [f] = d # popBuf c'" "bufferedSize c' = bufferedSize c - int (length d)"
    "taken c' = taken c @ [d]"
  using assms by (auto simp: enqueue_def chanPop_def split: list.splits)

lemma deliver_account:
  assumes "deliver dn c f = (dn', c', e)"
  shows "e \<noteq> None \<Longrightarrow> c' = c"
    and "e = None \<Longrightarrow>
      bufferedSize c' - int (queued c') = bufferedSize c - int (queued c) - int (length f)"
    and "bufferedSize c' \<le> bufferedSize c"
    and "set (popBuf c') \<subseteq> insert f (set (popBuf c))"
    and "e = None \<Longrightarrow> taken c' @ popBuf c' = taken c @ popBuf c @ [f]"
    and "length (popBuf c) \<le> (case popCap c of None \<Rightarrow> 0 | Some n \<Rightarrow> n) \<Longrightarrow>
      length (popBuf c') \<le> (case popCap c of None \<Rightarrow> 0 | Some n \<Rightarrow> n)"
proof -
  note c = deliver_cases [OF assms]
  have H: "chanPop (enqueue c f) = Some (d, c') \<Longrightarrow>
      int (length d) + int (queued c') = int (queued c) + int (length f) \<and>
      set (popBuf c') \<subseteq> insert f (set (popBuf c)) \<and> length (popBuf c') = length (popBuf c)" for d
  proof -
    assume p: "chanPop (enqueue c f) = Some (d, c')"
    from enqueue_popped(1) [OF p]
    have "map length (popBuf c @ [f]) = map length (d # popBuf c')"
      and "set (popBuf c @ [f]) = set (d # popBuf c')"
      and "length (popBuf c @ [f]) = length (d # popBuf c')" by simp_all
    then show ?thesis by (auto simp: queued_def dest: arg_cong [of _ _ sum_list])
  qed
  show "e \<noteq> None \<Longrightarrow> c' = c" using c by auto
  show "e = None \<Longrightarrow>
      bufferedSize c' - int (queued c') = bufferedSize c - int (queued c) - int (length f)"
    using c H by (auto simp: enqueue_popped(2)) (simp_all add: enqueue_def queued_def)
  show "bufferedSize c' \<le> bufferedSize c"
    using c by (auto simp: enqueue_popped(2)) (simp_all add: enqueue_def)
  show "set (popBuf c') \<subseteq> insert f (set (popBuf c))"
    using c H by auto (auto simp: enqueue_def)
  show "e = None \<Longrightarrow> taken c' @ popBuf c' = taken c @ popBuf c @ [f]"
    using c by (auto simp: enqueue_popped(1,3)) (simp_all add: enqueue_def)
  show "length (popBuf c) \<le> (case popCap c of None \<Rightarrow> 0 | Some n \<Rightarrow> n) \<Longrightarrow>
      length (popBuf c') \<le> (case popCap c of None \<Rightarrow> 0 | Some n \<Rightarrow> n)"
    using c H by auto (auto simp: enqueue_def sendReady_def split: option.splits)
qed

lemma deliver_taken_eq:
  "deliver dn c f = (dn', c', e) \<Longrightarrow> e \<noteq> None \<Longrightarrow> taken c' = taken c \<and> popBuf c' = popBuf c"
  using deliver_account(1) by fastforce

subsection \<open>One round of \<open>push\<close>, and the invariant\<close>

text \<open>What the header part does when it goes on: it has reserved and remembered the size.\<close>

lemma pushHeader_complete:
  assumes "waitSize c = 0" "length (waitData c) \<le> 4" "4 \<le> length (waitData c) + length b"
  shows "pushHeader c b =
    (let n = 4 - length (waitData c); sz = get_be32 (waitData c @ take n b);
         c1 = c\<lparr>waitData := waitData c @ take n b\<rparr>
     in if sz < word_of_int (minFrameSize c) \<or> word_of_int (frameLimit c) < sz
        then Inl (c1, Some (InvalidFrameSize sz))
        else if bufferLimit c < bufferedSize c + int (unat sz) then Inl (c1, Some FrameBufferLimit)
        else Inr (c\<lparr>waitSize := unat sz, waitData := [],
                    bufferedSize := bufferedSize c + int (unat sz)\<rparr>, drop n b))"
proof -
  have m: "min (4 - length (waitData c)) (length b) = 4 - length (waitData c)"
    using assms by simp
  have r: "reserve (c\<lparr>waitData := w\<rparr>) k = (if bufferLimit c < bufferedSize c + int k then None
      else Some (c\<lparr>waitData := w, bufferedSize := bufferedSize c + int k\<rparr>))" for w k
    by (auto simp: reserve_def)
  show ?thesis
    unfolding pushHeader_def Let_def m using assms by (simp add: r)
qed

lemma pushHeader_InrD:
  assumes "pushHeader c b = Inr (c1, b1)" "waitSize c = 0"
  shows "length (waitData c) \<le> 4" "4 \<le> length (waitData c) + length b"
    and "\<not> get_be32 (waitData c @ take (4 - length (waitData c)) b) < word_of_int (minFrameSize c)"
    and "\<not> word_of_int (frameLimit c) < get_be32 (waitData c @ take (4 - length (waitData c)) b)"
    and "bufferedSize c + int (unat (get_be32 (waitData c @ take (4 - length (waitData c)) b)))
      \<le> bufferLimit c"
    and "c1 = c\<lparr>waitSize := unat (get_be32 (waitData c @ take (4 - length (waitData c)) b)),
      waitData := [], bufferedSize := bufferedSize c
        + int (unat (get_be32 (waitData c @ take (4 - length (waitData c)) b)))\<rparr>"
    and "b1 = drop (4 - length (waitData c)) b"
proof -
  show le: "length (waitData c) \<le> 4"
    using assms by (auto simp: pushHeader_def split: if_splits)
  show en: "4 \<le> length (waitData c) + length b"
    using assms pushHeader_short(1) [of c b] by fastforce
  note eq = assms(1) [unfolded pushHeader_complete [OF assms(2) le en] Let_def]
  show "\<not> get_be32 (waitData c @ take (4 - length (waitData c)) b) < word_of_int (minFrameSize c)"
    and "\<not> word_of_int (frameLimit c) < get_be32 (waitData c @ take (4 - length (waitData c)) b)"
    and "bufferedSize c + int (unat (get_be32 (waitData c @ take (4 - length (waitData c)) b)))
      \<le> bufferLimit c"
    and "c1 = c\<lparr>waitSize := unat (get_be32 (waitData c @ take (4 - length (waitData c)) b)),
      waitData := [], bufferedSize := bufferedSize c
        + int (unat (get_be32 (waitData c @ take (4 - length (waitData c)) b)))\<rparr>"
    and "b1 = drop (4 - length (waitData c)) b"
    using eq by (simp_all split: if_splits)
qed

lemma pushHeader_inv_Inr [inv_intros]:
  assumes inv: "chan_inv c" and h: "pushHeader c b = Inr (c1, b1)"
  shows "chan_inv c1 \<and> 0 < waitSize c1"
proof (cases "waitSize c = 0")
  case False
  with inv h show ?thesis by (simp add: pushHeader_waiting)
next
  case True
  define sz where "sz = get_be32 (waitData c @ take (4 - length (waitData c)) b)"
  note d = pushHeader_InrD [OF h True, folded sz_def]
  have l: "chan_limits c" using inv by (simp add: chan_inv_def)
  have r: "minFrameSize c \<le> int (unat sz)" "int (unat sz) \<le> frameLimit c"
    using d(3,4) l by (simp_all only: chan_limits_word [OF l] not_less)
  with l have "0 < unat sz" by (simp only: chan_limits_def) linarith
  then show ?thesis
    using inv True d(5) r by (simp add: d(6) chan_inv_def chan_limits_def queued_def)
qed

lemma pushHeader_inv_Inl [inv_intros]:
  assumes inv: "chan_inv c" and h: "pushHeader c b = Inl (c1, e)"
  shows "chan_inv c1"
proof -
  have ws: "waitSize c = 0" using h by (auto simp: pushHeader_def split: if_splits)
  then have le: "length (waitData c) \<le> 4" using inv by (simp add: chan_inv_def)
  have "c1 = c \<or> c1 = c\<lparr>waitData := waitData c @ take (min (4 - length (waitData c)) (length b)) b\<rparr>"
    using h by (auto simp: pushHeader_def Let_def split: if_splits option.splits)
  then show ?thesis using inv le ws by (auto simp: chan_inv_def chan_limits_def queued_def)
qed

text \<open>The body part either stores all of the input or ends a frame and hands it to \<open>deliver\<close>.\<close>

lemma pushBody_complete:
  assumes "length (waitData c) \<le> waitSize c" "waitSize c \<le> length (waitData c) + length b"
  shows "pushBody dn c b =
    (let n = waitSize c - length (waitData c); f = waitData c @ take n b in
     case deliver dn (c\<lparr>waitData := f\<rparr>) f of
       (dn', c2, Some e) \<Rightarrow>
         (dn', c2\<lparr>bufferedSize := bufferedSize c2 - int (waitSize c), waitData := [], waitSize := 0\<rparr>,
          drop n b, Some e)
     | (dn', c2, None) \<Rightarrow> (dn', c2\<lparr>waitData := [], waitSize := 0\<rparr>, drop n b, None))"
proof -
  have m: "min (waitSize c - length (waitData c)) (length b) = waitSize c - length (waitData c)"
    using assms by simp
  show ?thesis
    unfolding pushBody_def Let_def m using assms
    by (auto split: prod.splits option.splits dest: deliver_frame(5))
qed

lemma pushBody_inv [inv_intros]:
  assumes inv: "chan_inv c" and ws: "0 < waitSize c" and p: "pushBody dn c b = (dn', c1, b1, e)"
  shows "chan_inv c1"
proof (cases "waitSize c \<le> length (waitData c) + length b")
  case False
  then show ?thesis
    using inv ws p pushBody_short(1) [of c b dn]
    by (auto simp: chan_inv_def chan_limits_def queued_def)
next
  case True
  define n where "n = waitSize c - length (waitData c)"
  define f where "f = waitData c @ take n b"
  have lt: "length (waitData c) < waitSize c" using inv ws by (simp add: chan_inv_def)
  then have lf: "length f = waitSize c" using True by (simp add: f_def n_def)
  obtain c2 e' where d: "deliver dn (c\<lparr>waitData := f\<rparr>) f = (dn', c2, e')" and e: "e' = e"
    and c1: "c1 = (if e = None then c2\<lparr>waitData := [], waitSize := 0\<rparr>
      else c2\<lparr>bufferedSize := bufferedSize c2 - int (waitSize c), waitData := [], waitSize := 0\<rparr>)"
    using p pushBody_complete [OF less_imp_le [OF lt] True, of dn]
    by (auto simp: Let_def n_def [symmetric] f_def [symmetric] split: prod.splits option.splits)
  note fr = deliver_frame [OF d] and ac = deliver_account [OF d]
  show ?thesis
  proof (cases "e = None")
    case True
    have "bufferedSize c2 = int (queued c2)"
      using ac(2) inv lf e True by (simp add: chan_inv_def queued_def)
    then show ?thesis
      using inv fr ac(3,4,6) lf ws True
      by (fastforce simp: c1 chan_inv_def chan_limits_def queued_def)
  next
    case False
    then show ?thesis
      using inv ac(1) e by (auto simp: c1 chan_inv_def chan_limits_def queued_def)
  qed
qed

lemma push_inv [inv_intros]:
  "push dn c b = (dn', c', e) \<Longrightarrow> chan_inv c \<Longrightarrow> chan_inv c'"
proof (induction dn c b arbitrary: dn' c' e rule: push.induct)
  case (1 dn c b)
  show ?case
  proof (cases "b = []")
    case True
    with 1 show ?thesis by simp
  next
    case ne: False
    show ?thesis
    proof (cases "pushHeader c b")
      case (Inl r)
      with 1 ne show ?thesis
        by (cases r) (auto simp: push.simps [of dn c] intro: pushHeader_inv_Inl)
    next
      case (Inr r)
      obtain c1 b1 where r: "r = (c1, b1)" by (cases r)
      note h = Inr [unfolded r]
      obtain dn2 c2 b2 e2 where p: "pushBody dn c1 b1 = (dn2, c2, b2, e2)"
        by (cases "pushBody dn c1 b1")
      have i2: "chan_inv c2"
        using pushHeader_inv_Inr [OF "1.prems"(2) h] pushBody_inv [OF _ _ p] by blast
      show ?thesis
      proof (cases e2)
        case (Some x)
        with "1.prems" ne h p i2 show ?thesis by (simp add: push.simps [of dn c])
      next
        case None
        with "1.prems" ne h p have "push dn2 c2 b2 = (dn', c', e)"
          by (simp add: push.simps [of dn c])
        with "1.IH" [OF ne h refl p [symmetric, unfolded None] refl refl] i2 show ?thesis
          by blast
      qed
    qed
  qed
qed

subsection \<open>Producer and consumer interleaved\<close>

text \<open>
  The worker runs \<open>push\<close> while the reader of the channel calls \<open>Pop\<close>. A state is the
  channel and where the worker stands: at the head of the loop with the bytes still to
  push, or between the two parts of a round. \<open>Pop\<close> may come at any point.
\<close>

datatype worker_pos = AtLoop bytes | AtBody bytes

inductive chan_step :: "dataChannel \<times> worker_pos \<Rightarrow> dataChannel \<times> worker_pos \<Rightarrow> bool" where
  arrive: "chan_step (c, AtLoop []) (c, AtLoop b)"
| header: "b \<noteq> [] \<Longrightarrow> pushHeader c b = Inr (c1, b1) \<Longrightarrow> chan_step (c, AtLoop b) (c1, AtBody b1)"
| header_return: "b \<noteq> [] \<Longrightarrow> pushHeader c b = Inl (c1, e) \<Longrightarrow>
    chan_step (c, AtLoop b) (c1, AtLoop [])"
| body: "pushBody dn c b = (dn', c1, b1, None) \<Longrightarrow> chan_step (c, AtBody b) (c1, AtLoop b1)"
| body_return: "pushBody dn c b = (dn', c1, b1, Some e) \<Longrightarrow>
    chan_step (c, AtBody b) (c1, AtLoop [])"
| pop: "chanPop c = Some (d, c1) \<Longrightarrow> chan_step (c, w) (c1, w)"
| close: "chanClose c = Inl c1 \<Longrightarrow> chan_step (c, AtLoop b) (c1, AtLoop [])"

inductive chan_reach :: "dataChannel \<Rightarrow> dataChannel \<times> worker_pos \<Rightarrow> bool" for c0 where
  start: "chan_reach c0 (c0, AtLoop [])"
| step: "chan_reach c0 s \<Longrightarrow> chan_step s t \<Longrightarrow> chan_reach c0 t"

definition sys_inv :: "dataChannel \<times> worker_pos \<Rightarrow> bool" where
  "sys_inv s \<longleftrightarrow> chan_inv (fst s) \<and> (case snd s of AtLoop _ \<Rightarrow> True | AtBody _ \<Rightarrow> 0 < waitSize (fst s))"

lemma chanClose_inv [inv_intros]: "chanClose c = Inl c' \<Longrightarrow> chan_inv c \<Longrightarrow> chan_inv c'"
  by (auto simp: chanClose_def Let_def chan_inv_def chan_limits_def queued_def split: if_splits)

lemma chanPop_waitSize: "chanPop c = Some (d, c') \<Longrightarrow> waitSize c' = waitSize c"
  by (auto simp: chanPop_def split: list.splits)

lemma chan_step_inv: "chan_step s t \<Longrightarrow> sys_inv s \<Longrightarrow> sys_inv t"
proof (induction rule: chan_step.induct)
  case (header b c c1 b1)
  then show ?case using pushHeader_inv_Inr by (auto simp: sys_inv_def)
next
  case (pop c d c1 w)
  then show ?case
    by (auto simp: sys_inv_def chanPop_waitSize intro: chanPop_inv split: worker_pos.splits)
qed (auto simp: sys_inv_def intro: inv_intros)

lemma chan_reach_inv: "chan_reach c0 s \<Longrightarrow> chan_inv c0 \<Longrightarrow> sys_inv s"
  by (induction rule: chan_reach.induct) (auto simp: sys_inv_def [of "(_, AtLoop _)"] intro: chan_step_inv)

subsection \<open>Refinement of a frame parser\<close>

text \<open>
  The promise of the channel, without buffers and chunks: a stream of bytes is read as a
  sequence of frames, each a 4-byte big-endian length and that many bytes; what does not
  make a whole frame is left over.
\<close>

function parse_frames :: "bytes \<Rightarrow> bytes list \<times> bytes" where
  "parse_frames b =
     (if length b < 4 then ([], b)
      else let n = unat (get_be32 b); r = drop 4 b in
        if length r < n then ([], b)
        else let (fs, rest) = parse_frames (drop n r) in (take n r # fs, rest))"
  by pat_completeness auto
termination
  by (relation "measure length") auto

declare parse_frames.simps [simp del]

definition frame_bytes :: "bytes \<Rightarrow> bytes" where
  "frame_bytes f = be32 (of_nat (length f)) @ f"

text \<open>The bytes of the frame being read, as they came.\<close>

definition pending :: "dataChannel \<Rightarrow> bytes" where
  "pending c = (if waitSize c = 0 then waitData c else be32 (of_nat (waitSize c)) @ waitData c)"

text \<open>All frames the channel has completed, in order: those popped and those queued.\<close>

definition completed :: "dataChannel \<Rightarrow> bytes list" where
  "completed c = taken c @ popBuf c"

lemma parse_frames_short: "length b < 4 \<Longrightarrow> parse_frames b = ([], b)"
  by (simp add: parse_frames.simps)

lemma parse_frames_be32:
  "parse_frames (be32 sz @ r) =
    (if length r < unat sz then ([], be32 sz @ r)
     else apfst ((#) (take (unat sz) r)) (parse_frames (drop (unat sz) r)))"
  by (subst parse_frames.simps) (simp add: Let_def split_beta apfst_def map_prod_def)

lemma parse_frame_bytes:
  "length f < 2 ^ 32 \<Longrightarrow> parse_frames (frame_bytes f @ r) = apfst ((#) f) (parse_frames r)"
  by (simp add: frame_bytes_def parse_frames_be32 unsigned_of_nat take_bit_nat_eq_self)

lemma parse_frames_concat:
  "\<forall>f \<in> set fs. length f < 2 ^ 32 \<Longrightarrow> length r < 4 \<Longrightarrow>
   parse_frames (concat (map frame_bytes fs) @ r) = (fs, r)"
  by (induction fs) (simp_all add: parse_frame_bytes parse_frames_short)

text \<open>Each part of a round keeps the bytes pending and moves whole frames on.\<close>

lemma pushHeader_pending:
  assumes "pushHeader c b = Inr (c1, b1)" and inv: "chan_inv c"
  shows "pending c1 @ b1 = pending c @ b" "completed c1 = completed c"
proof -
  show "completed c1 = completed c"
    using assms(1)
    by (cases "waitSize c = 0")
      (auto simp: completed_def pushHeader_waiting dest: pushHeader_InrD(6))
  show "pending c1 @ b1 = pending c @ b"
  proof (cases "waitSize c = 0")
    case False
    with assms(1) show ?thesis by (simp add: pushHeader_waiting)
  next
    case True
    define w where "w = waitData c @ take (4 - length (waitData c)) b"
    note d = pushHeader_InrD [OF assms(1) True, folded w_def]
    have "length w = 4" using d(1,2) by (simp add: w_def)
    then have w: "be32 (get_be32 w) = w" by (rule be32_get_be32)
    have "pending c1 = w"
      using w pushHeader_inv_Inr [OF inv assms(1)] by (auto simp: d(6) pending_def)
    then show ?thesis using True by (simp add: d(7) w_def pending_def)
  qed
qed

lemma pushBody_pending:
  assumes inv: "chan_inv c" and ws: "0 < waitSize c"
    and p: "pushBody dn c b = (dn', c1, b1, None)"
  shows "completed c1 @ fst (parse_frames (pending c1 @ b1))
      = completed c @ fst (parse_frames (pending c @ b))"
    and "snd (parse_frames (pending c1 @ b1)) = snd (parse_frames (pending c @ b))"
proof -
  have lt: "length (waitData c) < waitSize c" and sz: "waitSize c < 2 ^ 32"
    using inv ws by (auto simp: chan_inv_def chan_limits_def)
  then have un: "unat (word_of_nat (waitSize c) :: u32) = waitSize c"
    by (simp add: unsigned_of_nat take_bit_nat_eq_self)
  have pc: "pending c @ b = be32 (of_nat (waitSize c)) @ (waitData c @ b)"
    using ws by (simp add: pending_def)
  show "completed c1 @ fst (parse_frames (pending c1 @ b1))
      = completed c @ fst (parse_frames (pending c @ b))"
    and "snd (parse_frames (pending c1 @ b1)) = snd (parse_frames (pending c @ b))"
  proof (atomize (full), cases "waitSize c \<le> length (waitData c) + length b")
    case False
    then have "length (waitData c) + length b < waitSize c" by simp
    note sh = pushBody_short(1) [OF this, of dn, unfolded p]
    then have "pending c1 @ b1 = pending c @ b" "completed c1 = completed c"
      by (auto simp: pending_def completed_def)
    then show "completed c1 @ fst (parse_frames (pending c1 @ b1))
        = completed c @ fst (parse_frames (pending c @ b))
      \<and> snd (parse_frames (pending c1 @ b1)) = snd (parse_frames (pending c @ b))" by simp
  next
    case True
    define n where "n = waitSize c - length (waitData c)"
    define f where "f = waitData c @ take n b"
    obtain c2 where d: "deliver dn (c\<lparr>waitData := f\<rparr>) f = (dn', c2, None)"
      and c1: "c1 = c2\<lparr>waitData := [], waitSize := 0\<rparr>" and b1: "b1 = drop n b"
      using p pushBody_complete [OF less_imp_le [OF lt] True, of dn]
      by (auto simp: Let_def n_def [symmetric] f_def [symmetric] split: prod.splits option.splits)
    have "completed c1 = completed c @ [f]" "pending c1 = []"
      using deliver_account(5) [OF d] by (auto simp: c1 completed_def pending_def)
    moreover have "take (waitSize c) (waitData c @ b) = f" "drop (waitSize c) (waitData c @ b) = b1"
      using lt by (simp_all add: f_def b1 n_def)
    then have "parse_frames (pending c @ b) = apfst ((#) f) (parse_frames b1)"
      using True by (simp add: pc parse_frames_be32 un)
    ultimately show "completed c1 @ fst (parse_frames (pending c1 @ b1))
        = completed c @ fst (parse_frames (pending c @ b))
      \<and> snd (parse_frames (pending c1 @ b1)) = snd (parse_frames (pending c @ b))" by simp
  qed
qed

lemma pending_incomplete:
  assumes "chan_inv c" "length (waitData c) \<noteq> 4 \<or> waitSize c \<noteq> 0"
  shows "parse_frames (pending c) = ([], pending c)"
proof (cases "waitSize c = 0")
  case True
  with assms have "length (waitData c) < 4" by (auto simp: chan_inv_def)
  then show ?thesis using True by (simp add: pending_def parse_frames_short)
next
  case False
  with assms have "length (waitData c) < waitSize c" "waitSize c < 2 ^ 32"
    by (auto simp: chan_inv_def chan_limits_def)
  then show ?thesis
    using False by (simp add: pending_def parse_frames_be32 unsigned_of_nat take_bit_nat_eq_self)
qed

lemma push_refines:
  assumes "push dn c b = (dn', c', None)" "chan_inv c" "length (waitData c) \<noteq> 4 \<or> waitSize c \<noteq> 0"
  shows "completed c' = completed c @ fst (parse_frames (pending c @ b)) \<and>
    pending c' = snd (parse_frames (pending c @ b))"
  using assms
proof (induction dn c b arbitrary: dn' c' rule: push.induct)
  case (1 dn c b)
  show ?case
  proof (cases "b = []")
    case True
    with 1 pending_incomplete [of c] show ?thesis by simp
  next
    case ne: False
    show ?thesis
    proof (cases "pushHeader c b")
      case (Inl r)
      with 1 ne have "pushHeader c b = Inl (c', None)" by (cases r) (simp add: push.simps)
      then have "waitSize c = 0" "length (waitData c) + length b < 4"
        "c' = c\<lparr>waitData := waitData c @ b\<rparr>"
        using pushHeader_enough [of c b "[]"] pushHeader_short(1) [of c b]
        by (auto simp: pushHeader_def Let_def split: if_splits option.splits)
      then show ?thesis by (simp add: completed_def pending_def parse_frames_short)
    next
      case (Inr r)
      obtain c1 b1 where r: "r = (c1, b1)" by (cases r)
      note h = Inr [unfolded r]
      obtain dn2 c2 b2 e2 where "pushBody dn c1 b1 = (dn2, c2, b2, e2)"
        by (cases "pushBody dn c1 b1")
      moreover from this 1(2) ne h have "e2 = None"
        by (cases e2) (simp_all add: push.simps [of dn c])
      ultimately have p: "pushBody dn c1 b1 = (dn2, c2, b2, None)" by simp
      have i1: "chan_inv c1" "0 < waitSize c1" using pushHeader_inv_Inr [OF 1(3) h] by auto
      note i2 = pushBody_inv [OF i1 p]
      have "push dn2 c2 b2 = (dn', c', None)" using 1(2) ne h p by (simp add: push.simps [of dn c])
      moreover have "length (waitData c2) \<noteq> 4 \<or> waitSize c2 \<noteq> 0"
        using p pushBody_short(1) [of c1 b1 dn] i1
        by (cases "length (waitData c1) + length b1 < waitSize c1")
          (auto simp: pushBody_def Let_def split: if_splits prod.splits option.splits)
      ultimately have "completed c' = completed c2 @ fst (parse_frames (pending c2 @ b2)) \<and>
          pending c' = snd (parse_frames (pending c2 @ b2))"
        using "1.IH" [OF ne h refl p [symmetric] refl refl] i2 by blast
      then show ?thesis
        using pushBody_pending [OF i1 p] pushHeader_pending [OF h 1(3)] by simp
    qed
  qed
qed

subsection \<open>Success: room in the buffer is enough\<close>

definition accepts :: "dataChannel \<Rightarrow> bytes \<Rightarrow> bool" where
  "accepts c f \<longleftrightarrow> minFrameSize c \<le> int (length f) \<and> int (length f) \<le> frameLimit c"

definition idle :: "dataChannel \<Rightarrow> bool" where
  "idle c \<longleftrightarrow> waitSize c = 0 \<and> waitData c = [] \<and> \<not> popClosed c"

lemma push_frame:
  assumes l: "chan_limits c" and i: "idle c" and a: "accepts c f" and r: "sendReady c"
    and room: "bufferedSize c + int (length f) \<le> bufferLimit c"
  shows "push dn c (frame_bytes f @ b) =
    push dn (c\<lparr>popBuf := popBuf c @ [f], bufferedSize := bufferedSize c + int (length f)\<rparr>) b"
proof -
  have f: "0 < length f" "length f < 2 ^ 32" using l a by (auto simp: chan_limits_def accepts_def)
  then have un: "unat (word_of_nat (length f) :: u32) = length f"
    by (simp add: unsigned_of_nat take_bit_nat_eq_self)
  define c1 where "c1 = c\<lparr>waitSize := length f, waitData := [],
    bufferedSize := bufferedSize c + int (length f)\<rparr>"
  have n: "\<not> (word_of_nat (length f) :: u32) < word_of_int (minFrameSize c)"
    "\<not> word_of_int (frameLimit c) < (word_of_nat (length f) :: u32)"
    using a by (simp_all only: chan_limits_word [OF l] un accepts_def) simp_all
  have h: "pushHeader c (frame_bytes f @ b) = Inr (c1, f @ b)"
    using i n room get_be32_be32 [of "word_of_nat (length f)" "[]"]
    by (subst pushHeader_complete) (simp_all add: idle_def frame_bytes_def Let_def c1_def un)
  have "sendReady (c1\<lparr>waitData := f\<rparr>)" "\<not> popClosed (c1\<lparr>waitData := f\<rparr>)"
    using r i by (simp_all add: sendReady_def idle_def c1_def split: option.splits)
  then have "deliver dn (c1\<lparr>waitData := f\<rparr>) f = (dn, enqueue (c1\<lparr>waitData := f\<rparr>) f, None)"
    by (simp add: deliver_def)
  then have p: "pushBody dn c1 (f @ b) =
      (dn, (enqueue (c1\<lparr>waitData := f\<rparr>) f)\<lparr>waitData := [], waitSize := 0\<rparr>, b, None)"
    by (subst pushBody_complete) (simp_all add: c1_def Let_def)
  have "(enqueue (c1\<lparr>waitData := f\<rparr>) f)\<lparr>waitData := [], waitSize := 0\<rparr>
      = c\<lparr>popBuf := popBuf c @ [f], bufferedSize := bufferedSize c + int (length f)\<rparr>"
    using i by (simp add: enqueue_def c1_def idle_def)
  with h p show ?thesis
    by (subst push.simps) (simp add: frame_bytes_def)
qed

lemma push_frames:
  assumes "chan_limits c" "idle c" "\<forall>f \<in> set fs. accepts c f"
    and "popCap c = Some k" "length (popBuf c) + length fs \<le> k"
    and "bufferedSize c + int (sum_list (map length fs)) \<le> bufferLimit c"
  shows "push dn c (concat (map frame_bytes fs)) =
    (dn, c\<lparr>popBuf := popBuf c @ fs,
           bufferedSize := bufferedSize c + int (sum_list (map length fs))\<rparr>, None)"
  using assms
proof (induction fs arbitrary: c)
  case Nil
  then show ?case by simp
next
  case (Cons f fs)
  define c1 where "c1 = c\<lparr>popBuf := popBuf c @ [f], bufferedSize := bufferedSize c + int (length f)\<rparr>"
  have "push dn c (frame_bytes f @ concat (map frame_bytes fs)) = push dn c1 (concat (map frame_bytes fs))"
    unfolding c1_def using Cons.prems by (intro push_frame) (simp_all add: sendReady_def)
  also have "\<dots> = (dn, c1\<lparr>popBuf := popBuf c1 @ fs,
      bufferedSize := bufferedSize c1 + int (sum_list (map length fs))\<rparr>, None)"
    using Cons.prems
    by (intro Cons.IH) (simp_all add: c1_def idle_def chan_limits_def accepts_def)
  finally show ?case by (simp add: c1_def)
qed

subsection \<open>The fields \<open>push\<close> leaves alone\<close>

text \<open>\<open>push\<close> neither reads nor writes the reordering state.\<close>

definition with_seq :: "u16 \<Rightarrow> (u16 \<times> bytes) list option \<Rightarrow> dataChannel \<Rightarrow> dataChannel" where
  "with_seq w p c = c\<lparr>waitSeq := w, pushBuf := p\<rparr>"

lemma with_seq_sel [simp]:
  "waitSeq (with_seq w p c) = w" "pushBuf (with_seq w p c) = p"
  "pushSize (with_seq w p c) = pushSize c" "waitData (with_seq w p c) = waitData c"
  "waitSize (with_seq w p c) = waitSize c" "popBuf (with_seq w p c) = popBuf c"
  "popCap (with_seq w p c) = popCap c" "popClosed (with_seq w p c) = popClosed c"
  "minFrameSize (with_seq w p c) = minFrameSize c" "frameLimit (with_seq w p c) = frameLimit c"
  "bufferLimit (with_seq w p c) = bufferLimit c" "bufferedSize (with_seq w p c) = bufferedSize c"
  "taken (with_seq w p c) = taken c" "with_seq w p (with_seq w' p' c) = with_seq w p c"
  by (simp_all add: with_seq_def)

lemma deliver_with_seq:
  "deliver dn (with_seq w p c) f =
    (case deliver dn c f of (dn', c', e) \<Rightarrow> (dn', with_seq w p c', e))"
  by (simp add: deliver_def with_seq_def sendReady_def enqueue_def chanPop_def
      split: option.split list.split prod.split wait_event.split)

lemma pushHeader_with_seq:
  "pushHeader (with_seq w p c) b =
    map_sum (apfst (with_seq w p)) (apfst (with_seq w p)) (pushHeader c b)"
proof -
  have u: "(with_seq w p c)\<lparr>waitData := d\<rparr> = with_seq w p (c\<lparr>waitData := d\<rparr>)" for d
    by (simp add: with_seq_def)
  have r: "reserve (with_seq w p c') n = map_option (with_seq w p) (reserve c' n)" for c' n
    by (simp add: reserve_def with_seq_def)
  have s: "(with_seq w p c')\<lparr>waitSize := n, waitData := []\<rparr>
      = with_seq w p (c'\<lparr>waitSize := n, waitData := []\<rparr>)" for c' n
    by (simp add: with_seq_def)
  define n where "n = min (4 - length (waitData c)) (length b)"
  show ?thesis
    unfolding pushHeader_def Let_def u r s with_seq_sel n_def [symmetric]
    by (simp split: option.split add: s del: length_take length_append)
qed

lemma pushBody_with_seq:
  "pushBody dn (with_seq w p c) b =
    (case pushBody dn c b of (dn', c', b', e) \<Rightarrow> (dn', with_seq w p c', b', e))"
proof -
  have u: "(with_seq w p c)\<lparr>waitData := d\<rparr> = with_seq w p (c\<lparr>waitData := d\<rparr>)" for d
    by (simp add: with_seq_def)
  have s: "(with_seq w p c')\<lparr>waitData := [], waitSize := 0\<rparr>
        = with_seq w p (c'\<lparr>waitData := [], waitSize := 0\<rparr>)"
    "(with_seq w p c')\<lparr>bufferedSize := k, waitData := [], waitSize := 0\<rparr>
        = with_seq w p (c'\<lparr>bufferedSize := k, waitData := [], waitSize := 0\<rparr>)" for c' k
    by (simp_all add: with_seq_def)
  define n where "n = min (waitSize c - length (waitData c)) (length b)"
  show ?thesis
    unfolding pushBody_def Let_def u with_seq_sel n_def [symmetric]
    by (simp add: deliver_with_seq s split: prod.split option.split del: length_take length_append)
qed

lemma push_with_seq:
  "push dn (with_seq w p c) b =
    (case push dn c b of (dn', c', e) \<Rightarrow> (dn', with_seq w p c', e))"
proof (induction dn c b rule: push.induct)
  case (1 dn c b)
  show ?case
  proof (cases "b = []")
    case ne: False
    show ?thesis
    proof (cases "pushHeader c b")
      case (Inl r)
      with ne show ?thesis
        by (cases r) (simp add: push.simps pushHeader_with_seq)
    next
      case (Inr r)
      obtain c1 b1 where r: "r = (c1, b1)" by (cases r)
      obtain dn2 c2 b2 e2 where p: "pushBody dn c1 b1 = (dn2, c2, b2, e2)"
        by (cases "pushBody dn c1 b1")
      note unfold = push.simps [of dn c] push.simps [of dn "with_seq w p c"]
        pushHeader_with_seq pushBody_with_seq
      show ?thesis
      proof (cases e2)
        case None
        show ?thesis
          using 1 [OF ne Inr [unfolded r] refl p [symmetric, unfolded None] refl refl refl] ne Inr r p None
          by (simp add: unfold)
      next
        case (Some x)
        with ne Inr r p show ?thesis by (simp add: unfold)
      qed
    qed
  qed simp
qed

lemma push_seq_fields:
  assumes "push dn c b = (dn', c', e)"
  shows "waitSeq c' = waitSeq c" "pushBuf c' = pushBuf c"
proof -
  have eq: "with_seq (waitSeq c) (pushBuf c) c = c" by (simp add: with_seq_def)
  have "(dn', c', e) = (dn', with_seq (waitSeq c) (pushBuf c) c', e)"
    using push_with_seq [of dn "waitSeq c" "pushBuf c" c b] by (simp only: eq assms prod.case)
  then have "c' = with_seq (waitSeq c) (pushBuf c) c'" by (simp only: prod.inject)
  then show "waitSeq c' = waitSeq c" "pushBuf c' = pushBuf c"
    by (metis with_seq_sel(1,2))+
qed

text \<open>The parameters of a channel never change.\<close>

definition chan_config :: "dataChannel \<Rightarrow> int \<times> nat option \<times> bool \<times> int \<times> int \<times> int" where
  "chan_config c =
     (pushSize c, popCap c, popClosed c, minFrameSize c, frameLimit c, bufferLimit c)"

lemma pushHeader_config:
  "pushHeader c b = Inr (c1, b1) \<Longrightarrow> chan_config c1 = chan_config c"
  "pushHeader c b = Inl (c1, e) \<Longrightarrow> chan_config c1 = chan_config c"
  by (auto simp: pushHeader_def Let_def chan_config_def split: if_splits option.splits
      dest!: reserve_frame(1))

lemma pushBody_config:
  "pushBody dn c b = (dn', c1, b1, e) \<Longrightarrow> chan_config c1 = chan_config c"
  by (auto simp: pushBody_def Let_def chan_config_def deliver_frame split: if_splits prod.splits option.splits)

lemma push_config: "push dn c b = (dn', c', e) \<Longrightarrow> chan_config c' = chan_config c"
proof (induction dn c b arbitrary: dn' c' e rule: push.induct)
  case (1 dn c b)
  show ?case
  proof (cases "b = []")
    case ne: False
    show ?thesis
    proof (cases "pushHeader c b")
      case (Inl r)
      with 1 ne show ?thesis by (cases r) (simp add: push.simps pushHeader_config)
    next
      case (Inr r)
      obtain c1 b1 where r: "r = (c1, b1)" by (cases r)
      obtain dn2 c2 b2 e2 where p: "pushBody dn c1 b1 = (dn2, c2, b2, e2)"
        by (cases "pushBody dn c1 b1")
      have c2: "chan_config c2 = chan_config c"
        using Inr r pushBody_config [OF p] by (simp add: pushHeader_config)
      show ?thesis
      proof (cases e2)
        case None
        with 1(2) ne Inr r p have "push dn2 c2 b2 = (dn', c', e)"
          by (simp add: push.simps [of dn c])
        with 1(1) [OF ne Inr [unfolded r] refl p [symmetric, unfolded None] refl refl refl] c2
        show ?thesis by simp
      next
        case (Some x)
        with 1(2) ne Inr r p c2 show ?thesis by (simp add: push.simps [of dn c])
      qed
    qed
  qed (use 1 in simp)
qed

text \<open>No Go panic: the slices of \<open>push\<close> are in range and the channel is open.\<close>

lemma deliver_no_panic: "deliver dn c f = (dn', c', e) \<Longrightarrow> \<not> popClosed c \<Longrightarrow> e \<noteq> Some Panic"
  by (auto simp: deliver_def chanPop_def enqueue_def
      split: if_splits option.splits prod.splits wait_event.splits list.splits)

lemma push_no_panic:
  "push dn c b = (dn', c', e) \<Longrightarrow> chan_inv c \<Longrightarrow> \<not> popClosed c \<Longrightarrow> e \<noteq> Some Panic"
proof (induction dn c b arbitrary: dn' c' e rule: push.induct)
  case (1 dn c b)
  show ?case
  proof (cases "b = []")
    case ne: False
    show ?thesis
    proof (cases "pushHeader c b")
      case (Inl r)
      then show ?thesis
        using 1(2,3) ne
        by (cases r) (auto simp: push.simps pushHeader_def Let_def chan_inv_def
            split: if_splits option.splits)
    next
      case (Inr r)
      obtain c1 b1 where r: "r = (c1, b1)" by (cases r)
      note h = Inr [unfolded r]
      obtain dn2 c2 b2 e2 where p: "pushBody dn c1 b1 = (dn2, c2, b2, e2)"
        by (cases "pushBody dn c1 b1")
      have i1: "chan_inv c1" "0 < waitSize c1" using pushHeader_inv_Inr [OF 1(3) h] by auto
      have op: "\<not> popClosed c1" "\<not> popClosed c2"
        using 1(4) pushHeader_config(1) [OF h] pushBody_config [OF p] by (simp_all add: chan_config_def)
      show ?thesis
      proof (cases e2)
        case None
        with 1(2) ne h p have "push dn2 c2 b2 = (dn', c', e)" by (simp add: push.simps [of dn c])
        then show ?thesis
          using 1(1) [OF ne h refl p [symmetric, unfolded None] refl refl refl] op
            pushBody_inv [OF i1 p] by blast
      next
        case (Some x)
        have "length (waitData c1) < waitSize c1" using i1 by (simp add: chan_inv_def)
        then have "x \<noteq> Panic"
          using p op Some deliver_no_panic
          by (auto simp: pushBody_def Let_def split: if_splits prod.splits option.splits) fastforce
        then show ?thesis using 1(2) ne h p Some by (auto simp: push.simps [of dn c])
      qed
    qed
  qed (use 1 in simp)
qed

text \<open>The limits of a channel never change.\<close>

definition chan_limits_of :: "dataChannel \<Rightarrow> nat option \<times> int \<times> int \<times> int" where
  "chan_limits_of c = (popCap c, minFrameSize c, frameLimit c, bufferLimit c)"

lemma chan_limits_of_config: "chan_config c1 = chan_config c \<Longrightarrow> chan_limits_of c1 = chan_limits_of c"
  by (simp add: chan_config_def chan_limits_of_def)

lemma chan_step_limits: "chan_step s t \<Longrightarrow> chan_limits_of (fst t) = chan_limits_of (fst s)"
proof (induction rule: chan_step.induct)
  case (pop c d c1 w)
  then show ?case by (auto simp: chanPop_def chan_limits_of_def split: list.splits)
next
  case (close c c1 b)
  then show ?case by (auto simp: chanClose_def chan_limits_of_def Let_def split: if_splits)
qed (auto dest: pushHeader_config pushBody_config intro: chan_limits_of_config)

lemma chan_reach_limits: "chan_reach c0 s \<Longrightarrow> chan_limits_of (fst s) = chan_limits_of c0"
  by (induction rule: chan_reach.induct) (auto dest: chan_step_limits)

end
