(* ===== verification/Cs2Reorder.thy ===== *)
theory Cs2Reorder
  imports Cs2Channel
begin

section \<open>Reordering of UDP packets\<close>

text \<open>
  Models \<open>PushSeq\<close> of \<open>pkg/xiaomi/miss/cs2/conn.go\<close> and shows what it promises: whatever
  the network does to the packets (loss, duplication, reordering within the 16-bit window),
  the byte stream the frame parser sees is the sender's stream, in order, without gaps.

  The locale \<open>stream_sink\<close> is the interface between the reordering and the reassembly: all
  that the reordering needs of \<open>Push\<close> is that feeding two parts one after the other is
  feeding them joined.
\<close>

locale stream_sink =
  fixes feed :: "'s \<Rightarrow> bytes \<Rightarrow> 's \<times> 'e option"
  assumes feed_Nil: "feed s [] = (s, None)"
    and feed_append: "feed s (a @ b) =
      (case feed s a of (s', Some e) \<Rightarrow> (s', Some e) | (s', None) \<Rightarrow> feed s' b)"
begin

text \<open>Feeding parts one by one, stopping at the first error.\<close>

fun feed_all :: "'s \<Rightarrow> bytes list \<Rightarrow> 's \<times> 'e option" where
  "feed_all s [] = (s, None)"
| "feed_all s (b # bs) =
     (case feed s b of (s', Some e) \<Rightarrow> (s', Some e) | (s', None) \<Rightarrow> feed_all s' bs)"

lemma feed_all_concat: "feed_all s bs = feed s (concat bs)"
  by (induction bs arbitrary: s) (simp_all add: feed_Nil feed_append split: prod.split option.split)

lemma feed_all_append:
  "feed_all s (as @ bs) =
    (case feed_all s as of (s', Some e) \<Rightarrow> (s', Some e) | (s', None) \<Rightarrow> feed_all s' bs)"
  by (simp add: feed_all_concat feed_append split: prod.split option.split)

text \<open>The split of a stream into parts is invisible.\<close>

lemma feed_all_same_stream: "concat as = concat bs \<Longrightarrow> feed_all s as = feed_all s bs"
  by (simp add: feed_all_concat)

end

lemma Push_Nil: "Push c [] = (c, None)"
  by (simp add: Push_def)

lemma push_None_done: "push None c b = (dn', c', e) \<Longrightarrow> dn' = None"
proof (induction "None :: done_chan" c b arbitrary: dn' c' e rule: push.induct)
  case (1 c b)
  have d: "deliver None c' f = (dn', c'', e') \<Longrightarrow> dn' = None" for c' f dn' c'' e'
    by (auto simp: deliver_def split: if_splits)
  have p: "pushBody None c' f = (dn', c'', r) \<Longrightarrow> dn' = None" for c' f dn' c'' r
    by (auto simp: pushBody_def Let_def d split: if_splits prod.splits option.splits)
  show ?case
  proof (cases "b = []")
    case ne: False
    show ?thesis
    proof (cases "pushHeader c b")
      case (Inl r)
      with 1 ne show ?thesis by (cases r) (simp add: push.simps)
    next
      case (Inr r)
      obtain c1 b1 where r: "r = (c1, b1)" by (cases r)
      obtain dn2 c2 b2 e2 where q: "pushBody None c1 b1 = (dn2, c2, b2, e2)"
        by (cases "pushBody None c1 b1")
      note dn2 = p [OF q]
      show ?thesis
      proof (cases e2)
        case None
        with 1(2) ne Inr r q have "push None c2 b2 = (dn', c', e)"
          by (simp add: push.simps [of None c] dn2)
        then show ?thesis
          using 1(1) [OF ne Inr [unfolded r] refl q [symmetric, unfolded None dn2] refl refl refl]
          by blast
      next
        case (Some x)
        with 1(2) ne Inr r q show ?thesis by (simp add: push.simps [of None c] dn2)
      qed
    qed
  qed (use 1 in simp)
qed

lemma Push_append:
  "Push c (a @ b) =
    (case Push c a of (c', Some e) \<Rightarrow> (c', Some e) | (c', None) \<Rightarrow> Push c' b)"
  by (auto simp: Push_def push_append split: prod.split option.split dest: push_None_done)

interpretation chan: stream_sink Push
  by unfold_locales (simp_all add: Push_Nil Push_append)

lemma Push_with_seq:
  "Push (with_seq w p c) b = (case Push c b of (c', e) \<Rightarrow> (with_seq w p c', e))"
  by (simp add: Push_def push_with_seq split: prod.split)

lemma Push_seq_fields:
  assumes "Push c b = (c', e)"
  shows "waitSeq c' = waitSeq c" "pushBuf c' = pushBuf c"
  using assms by (auto simp: Push_def push_seq_fields split: prod.splits)

lemma Push_config: "Push c b = (c', e) \<Longrightarrow> chan_config c' = chan_config c"
  by (auto simp: Push_def push_config split: prod.splits)

subsection \<open>\<open>PushSeq\<close>\<close>

text \<open>Reads of Go's map, which may be nil, and \<open>delete\<close>.\<close>

definition bufLookup :: "dataChannel \<Rightarrow> u16 \<Rightarrow> bytes option" where
  "bufLookup c k = (case pushBuf c of None \<Rightarrow> None | Some m \<Rightarrow> map_of m k)"

definition bufLen :: "dataChannel \<Rightarrow> nat" where
  "bufLen c = (case pushBuf c of None \<Rightarrow> 0 | Some m \<Rightarrow> length m)"

definition bufDelete :: "dataChannel \<Rightarrow> u16 \<Rightarrow> dataChannel" where
  "bufDelete c k = c\<lparr>pushBuf := map_option (AList.delete k) (pushBuf c)\<rparr>"

text \<open>
  The loop at the end of \<open>PushSeq\<close>: push the packet, and go on with the next one while it
  is in the buffer. The result is the number of packets processed.
\<close>

lemma drain_decreases:
  assumes "Push c data = (c1, None)" "bufLookup (c1\<lparr>waitSeq := w\<rparr>) k = Some d"
  shows "bufLen (bufDelete (c1\<lparr>waitSeq := w\<rparr>) k) < bufLen c"
  using assms Push_seq_fields(2) [OF assms(1)]
  by (auto simp: bufLookup_def bufLen_def bufDelete_def length_delete_less split: option.splits)

function drainSeq :: "nat \<Rightarrow> dataChannel \<Rightarrow> bytes \<Rightarrow> dataChannel \<times> int \<times> cs2_error option" where
  "drainSeq i c data =
     (case Push c data of
        (c1, Some e) \<Rightarrow> (c1, int i, Some e)
      | (c1, None) \<Rightarrow>
          let c2 = c1\<lparr>waitSeq := waitSeq c1 + 1\<rparr> in
          case bufLookup c2 (waitSeq c2) of
            Some d \<Rightarrow> drainSeq (Suc i) (bufDelete c2 (waitSeq c2)) d
          | None \<Rightarrow> (c2, int i, None))"
  by pat_completeness auto
termination
proof (relation "measure (\<lambda>(i, c, data). bufLen c)", goal_cases)
  case 2
  then show ?case
    by (simp only: in_measure prod.case) (rule drain_decreases [OF sym])
qed simp

declare drainSeq.simps [simp del]

definition PushSeq :: "dataChannel \<Rightarrow> u16 \<Rightarrow> bytes \<Rightarrow> dataChannel \<times> int \<times> cs2_error option" where
  "PushSeq c seq data =
     (let diff = sint (seq - waitSeq c) in
      if diff > 0 then
        (if pushSize c = 0 then (c, -1, None)
         else if bufLookup c seq = None then
           (if int (bufLen c) = pushSize c then (c, -1, None)
            else case pushBuf c of
              None \<Rightarrow> (c, 0, Some Panic)
            | Some m \<Rightarrow> (c\<lparr>pushBuf := Some ((seq, data) # m)\<rparr>, 0, None))
         else (c, 0, None))
      else if diff < 0 then (c, 0, None)
      else drainSeq 1 c data)"

lemma drainSeq_count: "drainSeq i c data = (c', j, e) \<Longrightarrow> int i \<le> j"
proof (induction i c data arbitrary: c' j e rule: drainSeq.induct)
  case (1 i c data)
  obtain c1 e1 where p: "Push c data = (c1, e1)" by (cases "Push c data")
  show ?case
  proof (cases "e1 = None \<and> bufLookup (c1\<lparr>waitSeq := waitSeq c1 + 1\<rparr>) (waitSeq c1 + 1) \<noteq> None")
    case True
    then obtain d where l: "bufLookup (c1\<lparr>waitSeq := waitSeq c1 + 1\<rparr>) (waitSeq c1 + 1) = Some d"
      by blast
    have "drainSeq (Suc i) (bufDelete (c1\<lparr>waitSeq := waitSeq c1 + 1\<rparr>) (waitSeq c1 + 1)) d = (c', j, e)"
      using 1(2) p True l by (subst (asm) drainSeq.simps) (simp add: Let_def)
    with 1(1) [OF p [symmetric]] True l have "int (Suc i) \<le> j" by simp
    then show ?thesis by simp
  next
    case False
    with 1(2) p show ?thesis
      by (subst (asm) drainSeq.simps) (auto simp: Let_def split: option.splits)
  qed
qed

subsection \<open>The specification: sequence numbers that do not wrap\<close>

text \<open>
  The abstract receiver counts packets with natural numbers: the next one expected, the
  packets held for later, and what an arrival hands on. \<open>n\<close> is handed on with the run of
  held packets that follows it.
\<close>

type_synonym reasm = "nat \<times> (nat \<times> bytes) list"

function take_run :: "nat \<Rightarrow> (nat \<times> bytes) list \<Rightarrow> bytes \<Rightarrow> reasm \<times> bytes list" where
  "take_run n held data =
     (case map_of held (Suc n) of
        Some d \<Rightarrow> apsnd ((#) data) (take_run (Suc n) (AList.delete (Suc n) held) d)
      | None \<Rightarrow> ((Suc n, held), [data]))"
  by pat_completeness auto
termination
  by (relation "measure (\<lambda>(n, held, data). length held)") (auto simp: length_delete_less)

declare take_run.simps [simp del]

definition spec_arrive :: "nat \<Rightarrow> reasm \<Rightarrow> nat \<Rightarrow> bytes \<Rightarrow> reasm \<times> bytes list \<times> bool" where
  "spec_arrive cap s k data =
     (case s of (n, held) \<Rightarrow>
        if n < k then
          (if map_of held k = None then
             (if length held = cap then (s, [], False) else ((n, (k, data) # held), [], True))
           else (s, [], True))
        else if k < n then (s, [], True)
        else (case take_run n held data of (s', out) \<Rightarrow> (s', out, True)))"

definition half_window :: nat where
  "half_window = 2 ^ 15"

text \<open>The wrapped state of the program represents the abstract one.\<close>

definition reasm_rel :: "nat \<Rightarrow> reasm \<Rightarrow> dataChannel \<Rightarrow> bool" where
  "reasm_rel cap s c \<longleftrightarrow>
     waitSeq c = of_nat (fst s) \<and>
     pushBuf c = Some (map (apfst of_nat) (snd s)) \<and>
     pushSize c = int cap \<and> 0 < cap \<and>
     (\<forall>k \<in> fst ` set (snd s). fst s < k \<and> k < fst s + half_window)"

lemma sint_seq_diff:
  assumes "\<bar>int k - int n\<bar> < int half_window"
  shows "sint (of_nat k - of_nat n :: u16) = int k - int n"
proof -
  have s: "sint (word_of_int x :: u16) = signed_take_bit 15 x" for x by (simp add: signed_of_int)
  have "(of_nat k - of_nat n :: u16) = word_of_int (int k - int n)" by simp
  also have "sint \<dots> = signed_take_bit 15 (int k - int n)" by (rule s)
  also have "\<dots> = int k - int n"
    using assms by (intro signed_take_bit_int_eq_self) (auto simp: half_window_def)
  finally show ?thesis .
qed

lemma seq_inj:
  assumes "\<bar>int k - int n\<bar> < int half_window" "(of_nat k :: u16) = of_nat n"
  shows "k = n"
  using sint_seq_diff [OF assms(1)] assms(2) by simp

lemma map_of_seq:
  assumes "\<forall>j \<in> fst ` set held. \<bar>int j - int k\<bar> < int half_window"
  shows "map_of (map (apfst of_nat) held) (of_nat k :: u16) = map_of held k"
  using assms
proof (induction held)
  case (Cons h held)
  obtain j d where h: "h = (j, d)" by (cases h)
  have "(of_nat k :: u16) = of_nat j \<longleftrightarrow> k = j"
    using Cons.prems seq_inj [of j k] by (auto simp: h)
  then show ?case using Cons by (auto simp: h)
qed simp

lemma delete_seq:
  assumes "\<forall>j \<in> fst ` set held. \<bar>int j - int k\<bar> < int half_window"
  shows "AList.delete (of_nat k :: u16) (map (apfst of_nat) held)
    = map (apfst of_nat) (AList.delete k held)"
  using assms
proof (induction held)
  case (Cons h held)
  obtain j d where h: "h = (j, d)" by (cases h)
  have "(of_nat j :: u16) = of_nat k \<longleftrightarrow> j = k"
    using Cons.prems seq_inj [of j k] by (auto simp: h)
  then show ?case using Cons by (auto simp: h)
qed simp

lemma feed_all_with_seq:
  "chan.feed_all (with_seq w p c) bs = (case chan.feed_all c bs of (c', e) \<Rightarrow> (with_seq w p c', e))"
  by (induction bs arbitrary: c) (simp_all add: Push_with_seq split: prod.split option.split)

text \<open>The loop refines \<open>take_run\<close>: same packets handed on, same state at the end.\<close>

lemma drainSeq_refines:
  assumes "reasm_rel cap (n, held) c" "take_run n held data = ((n', held'), out)"
    and "chan.feed_all c out = (c', e)"
  shows "\<exists>w p j. drainSeq i c data = (with_seq w p c', j, e) \<and>
    (e = None \<longrightarrow> reasm_rel cap (n', held') (with_seq w p c') \<and> j = int i + int (length out) - 1)"
  using assms
proof (induction n held data arbitrary: i c n' held' out c' e rule: take_run.induct)
  case (1 n held data)
  note rel = "1.prems"(1) [unfolded reasm_rel_def, simplified]
  obtain c1 e1 where push: "Push c data = (c1, e1)" by (cases "Push c data")
  note fields = Push_seq_fields [OF push]
  have hd: "\<exists>bs. out = data # bs"
    using "1.prems"(2)
    by (subst (asm) take_run.simps) (auto simp: apsnd_def map_prod_def split: option.splits prod.splits)
  show ?case
  proof (cases e1)
    case (Some x)
    then have "c' = c1" "e = Some x" using hd push "1.prems"(3) by auto
    moreover have "\<exists>w p. c1 = with_seq w p c1"
      by (intro exI [of _ "waitSeq c1"] exI [of _ "pushBuf c1"]) (simp add: with_seq_def)
    ultimately show ?thesis using push Some by (subst drainSeq.simps) auto
  next
    case None
    let ?w = "of_nat (Suc n) :: u16"
    have w: "waitSeq c1 + 1 = ?w" using fields rel by simp
    have c2: "c1\<lparr>waitSeq := ?w\<rparr> = with_seq ?w (pushBuf c) c1" using fields by (simp add: with_seq_def)
    have win: "\<forall>j \<in> fst ` set held. \<bar>int j - int (Suc n)\<bar> < int half_window" using rel by force
    have look: "bufLookup (with_seq ?w (pushBuf c) c1) ?w = map_of held (Suc n)"
      using rel map_of_seq [OF win] by (simp add: bufLookup_def)
    show ?thesis
    proof (cases "map_of held (Suc n)")
      case none: None
      then have out: "out = [data]" "n' = Suc n" "held' = held"
        using "1.prems"(2) by (simp_all add: take_run.simps)
      then have c': "c' = c1" "e = None" using push None "1.prems"(3) by auto
      have "\<forall>k \<in> fst ` set held. Suc n < k \<and> k < Suc n + half_window"
        using rel none by (auto simp: map_of_eq_None_iff) (metis Suc_lessI fst_conv image_eqI)
      moreover have "pushSize c1 = pushSize c"
        using Push_config [OF push] by (simp add: chan_config_def)
      ultimately show ?thesis
        using push None w c2 look none rel c' out
        by (subst drainSeq.simps) (auto simp: Let_def reasm_rel_def simp del: of_nat_Suc)
    next
      case (Some d)
      let ?c3 = "with_seq ?w (Some (map (apfst of_nat) (AList.delete (Suc n) held))) c1"
      obtain s'' out' where run: "take_run (Suc n) (AList.delete (Suc n) held) d = (s'', out')"
        by (cases "take_run (Suc n) (AList.delete (Suc n) held) d")
      then have s'': "s'' = (n', held')" and out: "out = data # out'"
        using "1.prems"(2) Some by (simp_all add: take_run.simps [of n])
      have del: "bufDelete (with_seq ?w (pushBuf c) c1) ?w = ?c3"
        using rel delete_seq [OF win] by (simp add: bufDelete_def with_seq_def)
      have rel3: "reasm_rel cap (Suc n, AList.delete (Suc n) held) ?c3"
        using rel Push_config [OF push]
        by (auto simp: reasm_rel_def chan_config_def AList.delete_eq Suc_lessI simp del: of_nat_Suc)
      have "chan.feed_all c1 out' = (c', e)" using "1.prems"(3) push None out by simp
      then have f3: "chan.feed_all ?c3 out' =
          (with_seq ?w (Some (map (apfst of_nat) (AList.delete (Suc n) held))) c', e)"
        by (simp add: feed_all_with_seq del: of_nat_Suc)
      have step: "drainSeq i c data = drainSeq (Suc i) ?c3 d"
        using push None w c2 look Some del
        by (subst drainSeq.simps) (simp add: Let_def del: of_nat_Suc)
      obtain w p j where "drainSeq (Suc i) ?c3 d = (with_seq w p c', j, e)"
        and "e = None \<longrightarrow> reasm_rel cap (n', held') (with_seq w p c')
          \<and> j = int (Suc i) + int (length out') - 1"
        using "1.IH" [OF Some rel3 run [unfolded s''] f3, of "Suc i"]
        by (auto simp del: of_nat_Suc)
      then show ?thesis
        by (intro exI [of _ w] exI [of _ p] exI [of _ j]) (simp add: step out del: of_nat_Suc)
    qed
  qed
qed

text \<open>
  \<open>PushSeq\<close> refines the abstract arrival of packet \<open>k\<close>, if \<open>k\<close> is less than half the
  sequence space away from the packet expected. \<open>-1\<close> is returned exactly for a packet that
  was refused.
\<close>

definition in_window :: "nat \<Rightarrow> nat \<Rightarrow> bool" where
  "in_window n k \<longleftrightarrow> \<bar>int k - int n\<bar> < int half_window"

lemma PushSeq_refines:
  assumes rel: "reasm_rel cap s c" and win: "in_window (fst s) k"
    and spec: "spec_arrive cap s k data = (s', out, ok)"
    and feed: "chan.feed_all c out = (c', e)"
  shows "\<exists>w p j. PushSeq c (of_nat k) data = (with_seq w p c', j, e) \<and>
    (j \<ge> 0 \<longleftrightarrow> ok) \<and> (e = None \<longrightarrow> reasm_rel cap s' (with_seq w p c'))"
proof -
  obtain n held where s: "s = (n, held)" by (cases s)
  note r = rel [unfolded reasm_rel_def s, simplified]
  have diff: "sint (of_nat k - waitSeq c :: u16) = int k - int n"
    using sint_seq_diff win r by (simp add: in_window_def s)
  have same: "with_seq (waitSeq c) (pushBuf c) c = c" by (simp add: with_seq_def)
  consider (later) "n < k" | (earlier) "k < n" | (now) "k = n" by linarith
  then show ?thesis
  proof cases
    case later
    then have out: "out = []" using spec by (auto simp: spec_arrive_def s split: if_splits)
    with feed have c': "c' = c" "e = None" by auto
    have near: "\<forall>j \<in> fst ` set held. \<bar>int j - int k\<bar> < int half_window"
      using r win later by (fastforce simp: in_window_def s)
    have look: "bufLookup c (of_nat k) = map_of held k"
      using r map_of_seq [OF near] by (simp add: bufLookup_def)
    have len: "bufLen c = length held" using r by (simp add: bufLen_def)
    show ?thesis
    proof (cases "map_of held k = None \<and> length held \<noteq> cap")
      case True
      then have s': "s' = (n, (k, data) # held)" "ok" using spec later by (auto simp: spec_arrive_def s)
      have "PushSeq c (of_nat k) data
          = (with_seq (waitSeq c) (Some (map (apfst of_nat) ((k, data) # held))) c, 0, None)"
        using True diff later look len r by (simp add: PushSeq_def Let_def with_seq_def)
      moreover have "reasm_rel cap s' (with_seq (waitSeq c)
          (Some (map (apfst of_nat) ((k, data) # held))) c)"
        using r later win by (auto simp: reasm_rel_def s' s in_window_def)
      ultimately show ?thesis using s' by (auto simp: c' simp del: of_nat_Suc)
    next
      case False
      then have s': "s' = s" and "PushSeq c (of_nat k) data = (c, if ok then 0 else -1, None)"
        using spec later diff look len r by (auto simp: spec_arrive_def s PushSeq_def Let_def split: if_splits)
      with rel same show ?thesis
        by (intro exI [of _ "waitSeq c"] exI [of _ "pushBuf c"] exI [of _ "if ok then 0 else - 1"])
          (simp add: c' same)
    qed
  next
    case earlier
    then have "out = []" "s' = s" "ok" using spec by (auto simp: spec_arrive_def s)
    moreover from this feed have "c' = c" "e = None" by auto
    moreover have "PushSeq c (of_nat k) data = (c, 0, None)"
      using diff earlier by (simp add: PushSeq_def Let_def)
    ultimately show ?thesis
      using rel
      by (intro exI [of _ "waitSeq c"] exI [of _ "pushBuf c"] exI [of _ 0]) (simp add: same)
  next
    case now
    then have run: "take_run n held data = (s', out)" "ok"
      using spec by (auto simp: spec_arrive_def s split: prod.splits)
    obtain n' held' where s': "s' = (n', held')" by (cases s')
    obtain w p j where d: "drainSeq 1 c data = (with_seq w p c', j, e)"
      and ok: "e = None \<longrightarrow> reasm_rel cap (n', held') (with_seq w p c')"
      using drainSeq_refines [OF rel [unfolded s] run(1) [unfolded s'] feed, of 1] by blast
    have "PushSeq c (of_nat k) data = (with_seq w p c', j, e)"
      using diff now d by (simp add: PushSeq_def Let_def)
    moreover have "j \<ge> 0" using drainSeq_count [OF d] by simp
    ultimately show ?thesis using ok run(2) s' by auto
  qed
qed

subsection \<open>Runs of arrivals\<close>

text \<open>
  The sender's stream is a function \<open>f\<close> from packet numbers to payloads; the network
  delivers the packets \<open>ks\<close>, in any order, any number of times.
\<close>

fun arriveAll :: "(nat \<Rightarrow> bytes) \<Rightarrow> dataChannel \<Rightarrow> nat list \<Rightarrow>
    dataChannel \<times> int list \<times> cs2_error option" where
  "arriveAll f c [] = (c, [], None)"
| "arriveAll f c (k # ks) =
     (case PushSeq c (of_nat k) (f k) of
        (c', j, Some e) \<Rightarrow> (c', [j], Some e)
      | (c', j, None) \<Rightarrow> (case arriveAll f c' ks of (c'', js, e) \<Rightarrow> (c'', j # js, e)))"

fun spec_run :: "nat \<Rightarrow> (nat \<Rightarrow> bytes) \<Rightarrow> reasm \<Rightarrow> nat list \<Rightarrow> reasm \<times> bytes list \<times> bool list" where
  "spec_run cap f s [] = (s, [], [])"
| "spec_run cap f s (k # ks) =
     (case spec_arrive cap s k (f k) of (s', out, ok) \<Rightarrow>
        (case spec_run cap f s' ks of (s'', out', oks) \<Rightarrow> (s'', out @ out', ok # oks)))"

text \<open>Every arrival is near the packet expected at that moment.\<close>

fun windowed :: "nat \<Rightarrow> (nat \<Rightarrow> bytes) \<Rightarrow> reasm \<Rightarrow> nat list \<Rightarrow> bool" where
  "windowed cap f s [] = True"
| "windowed cap f s (k # ks) =
     (in_window (fst s) k \<and> windowed cap f (fst (spec_arrive cap s k (f k))) ks)"

definition from_stream :: "(nat \<Rightarrow> bytes) \<Rightarrow> reasm \<Rightarrow> bool" where
  "from_stream f s \<longleftrightarrow> (\<forall>(k, d) \<in> set (snd s). d = f k)"

definition covered :: "reasm \<Rightarrow> nat \<Rightarrow> bool" where
  "covered s k \<longleftrightarrow> k < fst s \<or> map_of (snd s) k \<noteq> None"

lemma from_stream_delete: "from_stream f (n, held) \<Longrightarrow> from_stream f (m, AList.delete k held)"
  by (auto simp: from_stream_def AList.delete_eq)

lemma take_run_stream:
  assumes "take_run n held data = ((n', held'), out)" "from_stream f (n, held)" "data = f n"
  shows "n < n' \<and> out = map f [n..<n'] \<and> from_stream f (n', held')"
  using assms
proof (induction n held data arbitrary: n' held' out rule: take_run.induct)
  case (1 n held data)
  show ?case
  proof (cases "map_of held (Suc n)")
    case None
    with 1 show ?thesis by (auto simp: take_run.simps from_stream_def)
  next
    case (Some d)
    obtain out' where run: "take_run (Suc n) (AList.delete (Suc n) held) d = ((n', held'), out')"
      and out: "out = data # out'"
      using 1(2) Some by (subst (asm) take_run.simps) (auto simp: apsnd_def map_prod_def split: prod.splits)
    have "d = f (Suc n)" using Some 1(3) by (auto simp: from_stream_def dest: map_of_SomeD)
    with 1(1) [OF Some run from_stream_delete [OF 1(3)]] 1(4) out
    show ?thesis by (auto simp: upt_conv_Cons)
  qed
qed

lemma take_run_covered:
  "take_run n held data = (s', out) \<Longrightarrow> covered (n, held) k \<or> k = n \<Longrightarrow> covered s' k"
proof (induction n held data arbitrary: s' out rule: take_run.induct)
  case (1 n held data)
  show ?case
  proof (cases "map_of held (Suc n)")
    case None
    with 1 show ?thesis by (auto simp: take_run.simps covered_def)
  next
    case (Some d)
    obtain out' where run: "take_run (Suc n) (AList.delete (Suc n) held) d = (s', out')"
      using 1(2) Some by (subst (asm) take_run.simps) (auto simp: apsnd_def map_prod_def split: prod.splits)
    have "covered (Suc n, AList.delete (Suc n) held) k \<or> k = Suc n"
      using 1(3) by (auto simp: covered_def delete_conv)
    with 1(1) [OF Some run] show ?thesis by blast
  qed
qed

lemma spec_arrive_stream:
  assumes "spec_arrive cap s k (f k) = (s', out, ok)" "from_stream f s"
  shows "fst s \<le> fst s' \<and> out = map f [fst s..<fst s'] \<and> from_stream f s'"
proof (cases "k = fst s")
  case True
  with assms show ?thesis
    using take_run_stream [of "fst s" "snd s" "f k" "fst s'" "snd s'" out f]
    by (cases s) (auto simp: spec_arrive_def split: prod.splits)
next
  case False
  with assms show ?thesis by (cases s) (auto simp: spec_arrive_def from_stream_def split: if_splits)
qed

lemma spec_arrive_covered:
  assumes "spec_arrive cap s k d = (s', out, ok)"
  shows "covered s j \<Longrightarrow> covered s' j" and "ok \<Longrightarrow> covered s' k"
  using assms take_run_covered [of "fst s" "snd s" d s' out]
  by (cases s; auto simp: spec_arrive_def covered_def split: if_splits prod.splits)+

lemma spec_run_stream:
  "spec_run cap f s ks = (s', out, oks) \<Longrightarrow> from_stream f s \<Longrightarrow>
   fst s \<le> fst s' \<and> out = map f [fst s..<fst s'] \<and> from_stream f s'"
proof (induction ks arbitrary: s out oks)
  case (Cons k ks)
  obtain s1 o1 ok where a: "spec_arrive cap s k (f k) = (s1, o1, ok)"
    by (cases "spec_arrive cap s k (f k)")
  obtain o2 oks2 where r: "spec_run cap f s1 ks = (s', o2, oks2)" and out: "out = o1 @ o2"
    using Cons.prems(1) a by (auto split: prod.splits)
  from spec_arrive_stream [OF a Cons.prems(2)] Cons.IH [OF r] out show ?case
    by (auto simp: upt_add_eq_append [symmetric] map_append [symmetric] simp del: map_append)
      (metis le_add_diff_inverse upt_add_eq_append)
qed simp

lemma spec_run_covered:
  assumes "spec_run cap f s ks = (s', out, oks)"
  shows "length oks = length ks \<and> (\<forall>j. covered s j \<longrightarrow> covered s' j) \<and>
    (\<forall>i < length ks. oks ! i \<longrightarrow> covered s' (ks ! i))"
  using assms
proof (induction ks arbitrary: s out oks)
  case (Cons k ks)
  obtain s1 o1 ok where a: "spec_arrive cap s k (f k) = (s1, o1, ok)"
    by (cases "spec_arrive cap s k (f k)")
  obtain o2 oks2 where r: "spec_run cap f s1 ks = (s', o2, oks2)" and oks: "oks = ok # oks2"
    using Cons.prems a by (auto split: prod.splits)
  from Cons.IH [OF r] spec_arrive_covered [OF a] show ?case
    by (auto simp: oks nth_Cons split: nat.splits)
qed simp

subsection \<open>What the channel promises over UDP\<close>

lemma arriveAll_refines:
  assumes "reasm_rel cap s c" "windowed cap f s ks" "arriveAll f c ks = (c', js, None)"
    and "spec_run cap f s ks = (s', out, oks)"
  shows "reasm_rel cap s' c' \<and> map (\<lambda>j. j \<ge> 0) js = oks \<and>
    (\<exists>c'' w p. chan.feed_all c out = (c'', None) \<and> c' = with_seq w p c'')"
  using assms
proof (induction ks arbitrary: s c c' js out oks)
  case Nil
  then show ?case
    by (auto intro!: exI [of _ "waitSeq c"] exI [of _ "pushBuf c"] simp: with_seq_def)
next
  case (Cons k ks)
  obtain s1 o1 ok where a: "spec_arrive cap s k (f k) = (s1, o1, ok)"
    by (cases "spec_arrive cap s k (f k)")
  obtain o2 oks2 where r: "spec_run cap f s1 ks = (s', o2, oks2)"
    and out: "out = o1 @ o2" "oks = ok # oks2"
    using Cons.prems(4) a by (auto split: prod.splits)
  obtain c1 e where feed: "chan.feed_all c o1 = (c1, e)" by (cases "chan.feed_all c o1")
  obtain w p j where ps: "PushSeq c (of_nat k) (f k) = (with_seq w p c1, j, e)" "j \<ge> 0 \<longleftrightarrow> ok"
    and rel1: "e = None \<longrightarrow> reasm_rel cap s1 (with_seq w p c1)"
    using PushSeq_refines [OF Cons.prems(1) _ a feed] Cons.prems(2) by auto
  have e: "e = None" using Cons.prems(3) ps by (auto split: option.splits)
  obtain js2 where run: "arriveAll f (with_seq w p c1) ks = (c', js2, None)" and js: "js = j # js2"
    using Cons.prems(3) ps e by (auto split: prod.splits)
  have "windowed cap f s1 ks" using Cons.prems(2) a by simp
  from Cons.IH [OF rel1 [rule_format, OF e] this run r]
  obtain c'' w' p' where ih: "reasm_rel cap s' c'" "map (\<lambda>j. j \<ge> 0) js2 = oks2"
    "chan.feed_all (with_seq w p c1) o2 = (c'', None)" "c' = with_seq w' p' c''"
    by blast
  obtain d e' where "chan.feed_all c1 o2 = (d, e')" by (cases "chan.feed_all c1 o2")
  with ih(3) have d: "chan.feed_all c1 o2 = (d, None)" "c'' = with_seq w p d"
    by (simp_all add: feed_all_with_seq)
  then have "chan.feed_all c out = (d, None)" using feed e by (simp add: out chan.feed_all_append)
  then show ?case using ih d ps(2) by (auto simp: js out)
qed

lemma udp_stream:
  assumes "reasm_rel cap (n, []) c" "windowed cap f (n, []) ks" "arriveAll f c ks = (c', js, None)"
  shows "\<exists>n' c''. n \<le> n' \<and> waitSeq c' = of_nat n' \<and>
    Push c (concat (map f [n..<n'])) = (c'', None) \<and>
    c' = with_seq (waitSeq c') (pushBuf c') c'' \<and>
    (\<forall>i < length ks. 0 \<le> js ! i \<longrightarrow> ks ! i < n' \<or> bufLookup c' (of_nat (ks ! i)) = Some (f (ks ! i)))"
proof -
  obtain s' out oks where r: "spec_run cap f (n, []) ks = (s', out, oks)"
    by (cases "spec_run cap f (n, []) ks")
  obtain n' held where s': "s' = (n', held)" by (cases s')
  obtain c'' w p where a: "reasm_rel cap s' c'" "map (\<lambda>j. j \<ge> 0) js = oks"
    "chan.feed_all c out = (c'', None)" "c' = with_seq w p c''"
    using arriveAll_refines [OF assms r] by blast
  have st: "n \<le> n'" "out = map f [n..<n']" "from_stream f s'"
    using spec_run_stream [OF r] by (auto simp: s' from_stream_def)
  note cov = spec_run_covered [OF r]
  have len: "length js = length ks" using a(2) cov by (metis length_map)
  have rel: "pushBuf c' = Some (map (apfst of_nat) held)" "waitSeq c' = of_nat n'"
    "\<forall>k \<in> fst ` set held. n' < k \<and> k < n' + half_window"
    using a(1) by (simp_all add: reasm_rel_def s')
  have "ks ! i < n' \<or> bufLookup c' (of_nat (ks ! i)) = Some (f (ks ! i))"
    if i: "i < length ks" "0 \<le> js ! i" for i
  proof (cases "ks ! i < n'")
    case False
    have "oks ! i" using a(2) i len by auto
    then have "covered s' (ks ! i)" using cov i by blast
    then obtain d where m: "map_of held (ks ! i) = Some d" using False by (auto simp: covered_def s')
    then have mem: "(ks ! i, d) \<in> set held" by (rule map_of_SomeD)
    then have "n' < ks ! i \<and> ks ! i < n' + half_window" using rel(3) by force
    then have "\<forall>j \<in> fst ` set held. \<bar>int j - int (ks ! i)\<bar> < int half_window"
      using rel(3) by force
    moreover have "d = f (ks ! i)" using mem st(3) by (auto simp: from_stream_def s')
    ultimately show ?thesis using m by (simp add: bufLookup_def rel(1) map_of_seq)
  qed simp
  moreover have "Push c (concat (map f [n..<n'])) = (c'', None)"
    using a(3) by (simp add: st(2) chan.feed_all_concat)
  moreover have "c' = with_seq (waitSeq c') (pushBuf c') c''" by (simp add: a(4))
  ultimately show ?thesis using st(1) rel(2) by blast
qed

subsection \<open>Safety of \<open>PushSeq\<close>\<close>

lemma Push_inv [inv_intros]: "Push c b = (c', e) \<Longrightarrow> chan_inv c \<Longrightarrow> chan_inv c'"
  by (auto simp: Push_def intro: push_inv split: prod.splits)

lemma Push_no_panic: "Push c b = (c', e) \<Longrightarrow> chan_inv c \<Longrightarrow> \<not> popClosed c \<Longrightarrow> e \<noteq> Some Panic"
  by (auto simp: Push_def dest: push_no_panic split: prod.splits)

lemma chan_inv_seq [simp]:
  "chan_inv (c\<lparr>waitSeq := w\<rparr>) = chan_inv c" "chan_inv (c\<lparr>pushBuf := p\<rparr>) = chan_inv c"
  by (simp_all add: chan_inv_def chan_limits_def queued_def)

lemma chan_config_seq [simp]:
  "chan_config (c\<lparr>waitSeq := w\<rparr>) = chan_config c" "chan_config (c\<lparr>pushBuf := p\<rparr>) = chan_config c"
  by (simp_all add: chan_config_def)

text \<open>A channel that may take packets: open, within its limits, its map allocated if used.\<close>

definition chan_live :: "dataChannel \<Rightarrow> bool" where
  "chan_live c \<longleftrightarrow> chan_inv c \<and> \<not> popClosed c \<and> popCap c \<noteq> None \<and>
     (pushSize c \<noteq> 0 \<longrightarrow> pushBuf c \<noteq> None)"

lemma drainSeq_live:
  "drainSeq i c d = (c', j, e) \<Longrightarrow> chan_live c \<Longrightarrow> chan_live c' \<and> e \<noteq> Some Panic"
proof (induction i c d arbitrary: c' j e rule: drainSeq.induct)
  case (1 i c data)
  obtain c1 e1 where p: "Push c data = (c1, e1)" by (cases "Push c data")
  have l1: "chan_live c1" "e1 \<noteq> Some Panic"
    using 1(3) Push_inv [OF p] Push_no_panic [OF p] Push_config [OF p] Push_seq_fields [OF p]
    by (auto simp: chan_live_def chan_config_def)
  let ?c2 = "c1\<lparr>waitSeq := waitSeq c1 + 1\<rparr>"
  show ?case
  proof (cases "e1 = None \<and> bufLookup ?c2 (waitSeq ?c2) \<noteq> None")
    case True
    then obtain d where l: "bufLookup ?c2 (waitSeq ?c2) = Some d" by blast
    have "drainSeq (Suc i) (bufDelete ?c2 (waitSeq ?c2)) d = (c', j, e)"
      using 1(2) p True l by (subst (asm) drainSeq.simps) (simp add: Let_def)
    moreover have "chan_live (bufDelete ?c2 (waitSeq ?c2))"
      using l1 by (simp add: chan_live_def bufDelete_def)
    ultimately show ?thesis using 1(1) [OF p [symmetric]] True l by simp
  next
    case False
    have "chan_live ?c2" using l1 by (simp add: chan_live_def)
    with False 1(2) p l1 show ?thesis
      by (subst (asm) drainSeq.simps) (auto simp: Let_def split: option.splits)
  qed
qed

lemma PushSeq_live:
  "PushSeq c k d = (c', j, e) \<Longrightarrow> chan_live c \<Longrightarrow> chan_live c' \<and> e \<noteq> Some Panic"
  by (auto simp: PushSeq_def Let_def chan_live_def [of "_\<lparr>pushBuf := _\<rparr>"]
      split: if_splits option.splits dest: drainSeq_live) (auto simp: chan_live_def)

lemma chan_live_new:
  "0 < m \<Longrightarrow> m \<le> maxFrameSize \<Longrightarrow> 0 \<le> q \<Longrightarrow> chan_live (newDataChannel p q m)"
  by (simp add: chan_live_def chan_inv_new) (simp add: newDataChannel_def)

end
