(* ===== verification/Cs2Conn.thy ===== *)
theory Cs2Conn
  imports Cs2Reorder
begin

section \<open>The CS2 connection\<close>

text \<open>
  Models \<open>Conn\<close> of \<open>pkg/xiaomi/miss/cs2/conn.go\<close>: the handshake, the \<open>worker\<close> that reads
  packets and feeds the data channels, \<open>ReadCommand\<close>, \<open>WriteCommand\<close>, \<open>ReadPacket\<close>,
  \<open>WritePacket\<close>, and the packet formats over UDP and TCP.

  Everything a \<open>Conn\<close> writes to its socket is appended to the history \<open>sent\<close>. The socket's
  reads, the clock and the other goroutines are the environment: lists of read results,
  wait events and write results. A blocking call that cannot go on yet is \<open>None\<close>.
\<close>

record cs2Conn =
  isTCP :: bool
  connErr :: "cs2_error option"
  seqCh0 :: u16
  seqCh3 :: u16
  channels :: "dataChannel option list"
  cmdAckSet :: bool
  ackCalls :: nat
  closed :: bool
  sent :: "bytes list"

definition magic :: u8 where "magic = 0xF1"
definition magicDrw :: u8 where "magicDrw = 0xD1"
definition magicTCP :: u8 where "magicTCP = 0x68"
definition msgLanSearch :: u8 where "msgLanSearch = 0x30"
definition msgPunchPkt :: u8 where "msgPunchPkt = 0x41"
definition msgP2PRdyUDP :: u8 where "msgP2PRdyUDP = 0x42"
definition msgP2PRdyTCP :: u8 where "msgP2PRdyTCP = 0x43"
definition msgDrw :: u8 where "msgDrw = 0xD0"
definition msgDrwAck :: u8 where "msgDrwAck = 0xD1"
definition msgPing :: u8 where "msgPing = 0xE0"
definition msgPong :: u8 where "msgPong = 0xE1"
definition msgClose :: u8 where "msgClose = 0xF0"
definition msgCloseAck :: u8 where "msgCloseAck = 0xF1"

lemmas cs2_consts = magic_def magicDrw_def magicTCP_def msgLanSearch_def msgPunchPkt_def
  msgP2PRdyUDP_def msgP2PRdyTCP_def msgDrw_def msgDrwAck_def msgPing_def msgPong_def
  msgClose_def msgCloseAck_def

definition maxPacketSize :: nat where "maxPacketSize = 1200"
definition hdrSize :: nat where "hdrSize = 32"

definition newConn :: "bool \<Rightarrow> cs2Conn" where
  "newConn tcp =
     \<lparr>isTCP = tcp, connErr = None, seqCh0 = 0, seqCh3 = 0,
      channels = [Some (newDataChannel 0 10 4), None,
                  Some (newDataChannel 250 100 (int hdrSize)), None],
      cmdAckSet = False, ackCalls = 0, closed = False, sent = []\<rparr>"

definition netWrite :: "cs2Conn \<Rightarrow> bytes \<Rightarrow> cs2Conn" where
  "netWrite c b = c\<lparr>sent := sent c @ [b]\<rparr>"

definition connClose :: "cs2Conn \<Rightarrow> cs2Conn" where
  "connClose c = (if closed c then c else c\<lparr>closed := True\<rparr>)"

definition setChannel :: "cs2Conn \<Rightarrow> nat \<Rightarrow> dataChannel \<Rightarrow> cs2Conn" where
  "setChannel c i ch = c\<lparr>channels := (channels c)[i := Some ch]\<rparr>"

subsection \<open>The worker\<close>

definition ackPacket :: "u8 \<Rightarrow> u8 \<Rightarrow> u8 \<Rightarrow> bytes" where
  "ackPacket ch hi lo = [magic, msgDrwAck, 0, 6, magicDrw, ch, 0, 1, hi, lo]"

text \<open>\<open>keepaliveTS\<close> is \<open>None\<close> for Go's zero time; times are nanoseconds.\<close>

definition second :: int where "second = 1000000000"

definition keepalive :: "int \<Rightarrow> cs2Conn \<Rightarrow> int option \<Rightarrow> cs2Conn \<times> int option" where
  "keepalive now c ts =
     (if (case ts of None \<Rightarrow> True | Some t \<Rightarrow> t < now)
      then (netWrite c [magic, msgPing, 0, 0], Some (now + second))
      else (c, ts))"

record worker_st =
  conn :: cs2Conn
  keepaliveTS :: "int option"
  waits :: "wait_event list"

text \<open>
  The \<open>msgDrw\<close> case of the worker's switch on the packet \<open>p\<close>; the second component is the
  error that ends the worker.
\<close>

definition workerDrw :: "int \<Rightarrow> worker_st \<Rightarrow> bytes \<Rightarrow> worker_st \<times> cs2_error option" where
  "workerDrw now s p =
     (if length p < 8 \<or> p ! 4 \<noteq> magicDrw then (s, None)
      else
        let ch = p ! 5; i = unat ch; c = conn s in
        if i \<ge> length (channels c) then (s, None)
        else case channels c ! i of
          None \<Rightarrow> (s, None)
        | Some channel \<Rightarrow>
            if isTCP c then
              (case keepalive now c (keepaliveTS s) of
                 (c1, ts) \<Rightarrow>
                   if ch = 2 then
                     (case push (Some (waits s)) channel (drop 8 p) of
                        (dn, channel', e) \<Rightarrow>
                          (s\<lparr>conn := setChannel c1 i channel', keepaliveTS := ts,
                             waits := (case dn of None \<Rightarrow> [] | Some ws \<Rightarrow> ws)\<rparr>, e))
                   else
                     (case Push channel (drop 8 p) of
                        (channel', e) \<Rightarrow>
                          (s\<lparr>conn := setChannel c1 i channel', keepaliveTS := ts\<rparr>, e)))
            else
              let seqHI = p ! 6; seqLO = p ! 7;
                  seq = push_bit 8 (ucast seqHI) OR ucast seqLO in
              (case PushSeq channel seq (drop 8 p) of
                 (channel', pushed, e) \<Rightarrow>
                   let c1 = setChannel c i channel';
                       c2 = (if pushed \<ge> 0 then netWrite c1 (ackPacket ch seqHI seqLO) else c1)
                   in (s\<lparr>conn := c2\<rparr>, e)))"

definition validHeader :: "bytes \<Rightarrow> bool" where
  "validHeader p \<longleftrightarrow>
     \<not> (length p < 4 \<or> p ! 0 \<noteq> magic \<or> int (unat (get_be16 (drop 2 p))) \<noteq> int (length p) - 4)"

text \<open>One round of the loop of \<open>worker\<close> on a packet that was read.\<close>

definition workerPacket :: "int \<Rightarrow> worker_st \<Rightarrow> bytes \<Rightarrow> worker_st \<times> cs2_error option" where
  "workerPacket now s p =
     (if \<not> validHeader p then (s, None)
      else if p ! 1 = msgDrw then workerDrw now s p
      else if p ! 1 = msgPing then (s\<lparr>conn := netWrite (conn s) [magic, msgPong, 0, 0]\<rparr>, None)
      else if p ! 1 \<in> {msgPong, msgP2PRdyUDP, msgP2PRdyTCP, msgClose, msgCloseAck} then (s, None)
      else if p ! 1 = msgDrwAck then
        (if cmdAckSet (conn s)
         then (s\<lparr>conn := (conn s)\<lparr>ackCalls := Suc (ackCalls (conn s))\<rparr>\<rparr>, None)
         else (s, None))
      else (s, None))"

text \<open>The deferred function: close the connection and the channels 0 and 2.\<close>

definition closeChannel :: "cs2Conn \<Rightarrow> nat \<Rightarrow> cs2Conn + cs2_error" where
  "closeChannel c i =
     (case channels c ! i of
        None \<Rightarrow> Inr Panic
      | Some ch \<Rightarrow> (case chanClose ch of Inl ch' \<Rightarrow> Inl (setChannel c i ch') | Inr e \<Rightarrow> Inr e))"

definition workerExit :: "cs2Conn \<Rightarrow> cs2Conn + cs2_error" where
  "workerExit c =
     (case closeChannel (connClose c) 0 of
        Inr e \<Rightarrow> Inr e
      | Inl c' \<Rightarrow> closeChannel c' 2)"

datatype read_event = ReadFail string | ReadOk int bytes

text \<open>
  The worker on the reads to come: \<open>Inl\<close> is its state, still reading, \<open>Inr\<close> what its exit
  gives.
\<close>

fun worker :: "worker_st \<Rightarrow> read_event list \<Rightarrow> worker_st + (cs2Conn + cs2_error)" where
  "worker s [] = Inl s"
| "worker s (ReadFail e # evs) = Inr (workerExit ((conn s)\<lparr>connErr := Some (ReadError e)\<rparr>))"
| "worker s (ReadOk now p # evs) =
     (case workerPacket now s p of
        (s', None) \<Rightarrow> worker s' evs
      | (s', Some e) \<Rightarrow> Inr (workerExit ((conn s')\<lparr>connErr := Some e\<rparr>)))"

subsection \<open>Reading and writing\<close>

definition connError :: "cs2Conn \<Rightarrow> cs2_error" where
  "connError c = (case connErr c of Some e \<Rightarrow> e | None \<Rightarrow> EndOfFile)"

text \<open>\<open>Pop\<close>: \<open>None\<close> while it waits, \<open>Some (None, _)\<close> for \<open>ok = false\<close>.\<close>

definition popResult :: "dataChannel \<Rightarrow> (bytes option \<times> dataChannel) option" where
  "popResult ch =
     (case chanPop ch of
        Some (d, ch') \<Rightarrow> Some (Some d, ch')
      | None \<Rightarrow> if popClosed ch then Some (None, ch) else None)"

definition ReadCommand :: "cs2Conn \<Rightarrow> (cs2Conn \<times> (cs2_error + u32 \<times> bytes)) option" where
  "ReadCommand c =
     (case channels c ! 0 of
        None \<Rightarrow> Some (c, Inl Panic)
      | Some ch \<Rightarrow>
          (case popResult ch of
             None \<Rightarrow> None
           | Some (None, ch') \<Rightarrow> Some (setChannel c 0 ch', Inl (connError c))
           | Some (Some buf, ch') \<Rightarrow>
               Some (setChannel c 0 ch',
                     if length buf < 4 then Inl CommandTooShort
                     else Inr (get_le32 buf, drop 4 buf))))"

definition ReadPacket :: "cs2Conn \<Rightarrow> (cs2Conn \<times> (cs2_error + bytes \<times> bytes)) option" where
  "ReadPacket c =
     (case channels c ! 2 of
        None \<Rightarrow> Some (c, Inl Panic)
      | Some ch \<Rightarrow>
          (case popResult ch of
             None \<Rightarrow> None
           | Some (None, ch') \<Rightarrow> Some (setChannel c 2 ch', Inl (connError c))
           | Some (Some buf, ch') \<Rightarrow>
               Some (setChannel c 2 ch',
                     if length buf < hdrSize then Inl MediaTooShort
                     else Inr (take hdrSize buf, drop hdrSize buf))))"

definition marshalCmd :: "u8 \<Rightarrow> u16 \<Rightarrow> u32 \<Rightarrow> bytes \<Rightarrow> bytes" where
  "marshalCmd channel seq cmd payload =
     (let sz = length payload;
          req = replicate (4 + 4 + 4 + 4 + sz) 0;
          req = req[0 := magic, 1 := msgDrw];
          req = go_copy req 2 (be16 (of_nat (4 + 4 + 4 + sz)));
          req = req[4 := magicDrw, 5 := channel];
          req = go_copy req 6 (be16 seq);
          req = go_copy req 8 (be32 (of_nat (4 + sz)));
          req = go_copy req 12 (be32 cmd)
      in go_copy req 16 payload)"

text \<open>
  One turn of the loop that sends a command over UDP: what \<open>Write\<close> returned, and whether
  the acknowledgement came before the ticker fired. With nothing given the write succeeds
  and no acknowledgement comes.
\<close>

type_synonym send_turn = "cs2_error option \<times> bool"

function sendLoop :: "int \<Rightarrow> u32 \<Rightarrow> cs2Conn \<Rightarrow> bytes \<Rightarrow> send_turn list \<Rightarrow> cs2Conn \<times> cs2_error option" where
  "sendLoop repeat cmd c req turns =
     (let (err, acked) = (case turns of [] \<Rightarrow> (None, False) | t # _ \<Rightarrow> t);
          c1 = netWrite c req
      in case err of
           Some e \<Rightarrow> (c1, Some e)
         | None \<Rightarrow>
             let r = (if acked then 0 else repeat) - 1 in
             if r < 0 then (c1, None)
             else if r = 0 then (c1, Some (CantSendCommand cmd))
             else sendLoop r cmd c1 req (tl turns))"
  by pat_completeness auto
termination
  by (relation "measure (\<lambda>(r, _). nat r)") (auto split: if_splits)

declare sendLoop.simps [simp del]

definition WriteCommand ::
  "cs2Conn \<Rightarrow> u32 \<Rightarrow> bytes \<Rightarrow> send_turn list \<Rightarrow> cs2Conn \<times> cs2_error option" where
  "WriteCommand c cmd data turns =
     (let req = marshalCmd 0 (seqCh0 c) cmd data;
          c1 = c\<lparr>seqCh0 := seqCh0 c + 1\<rparr>
      in if isTCP c1
         then (netWrite c1 req, case turns of [] \<Rightarrow> None | (e, _) # _ \<Rightarrow> e)
         else sendLoop 5 cmd (c1\<lparr>cmdAckSet := True\<rparr>) req turns)"

definition mediaPacket :: "u16 \<Rightarrow> bytes \<Rightarrow> bytes \<Rightarrow> bytes" where
  "mediaPacket seq hdr payload =
     (let n = of_nat hdrSize + of_nat (length payload) :: u32;
          req = replicate (unat (n + 12)) 0;
          req = req[0 := magic, 1 := msgDrw];
          req = go_copy req 2 (be16 (ucast (n + 8)));
          req = req[4 := magicDrw, 5 := 3];
          req = go_copy req 6 (be16 seq);
          req = go_copy req 8 (be32 n);
          req = go_copy req 12 hdr
      in go_copy req (12 + hdrSize) payload)"

definition WritePacket ::
  "cs2Conn \<Rightarrow> bytes \<Rightarrow> bytes \<Rightarrow> cs2_error option \<Rightarrow> cs2Conn \<times> cs2_error option" where
  "WritePacket c hdr payload werr =
     (netWrite (c\<lparr>seqCh3 := seqCh3 c + 1\<rparr>) (mediaPacket (seqCh3 c) hdr payload), werr)"

subsection \<open>TCP framing of packets\<close>

definition tcpWrite :: "bytes \<Rightarrow> bytes" where
  "tcpWrite req =
     (let n = length req;
          buf = replicate (8 + n) 0;
          buf = go_copy buf 0 (be16 (of_nat n));
          buf = buf[2 := magicTCP]
      in go_copy buf 8 req)"

text \<open>
  \<open>Read\<close> into a buffer of \<open>room\<close> bytes from the stream received: the packet and the stream
  left, an invalid header, or \<open>None\<close> while \<open>io.ReadFull\<close> waits for more.
\<close>

definition tcpRead :: "nat \<Rightarrow> bytes \<Rightarrow> (cs2_error + bytes \<times> bytes) option" where
  "tcpRead room stream =
     (if length stream < 8 then None
      else
        let tmp = take 8 stream; n = unat (get_be16 tmp) in
        if tmp ! 2 \<noteq> magicTCP \<or> n < 4 \<or> n > room then Some (Inl InvalidPacketHeader)
        else if length (drop 8 stream) < n then None
        else Some (Inr (take n (drop 8 stream), drop n (drop 8 stream))))"

subsection \<open>UDP and the handshake\<close>

record datagram =
  fromIP :: string
  fromPort :: int
  payload :: bytes

datatype udp_event = UdpFail string | Datagram datagram

text \<open>\<open>udpConn.Read\<close>: the first datagram from the camera's address, cut to the buffer.\<close>

fun udpRead :: "nat \<Rightarrow> string \<Rightarrow> int \<Rightarrow> udp_event list \<Rightarrow>
    ((cs2_error + bytes) \<times> udp_event list) option" where
  "udpRead room ip port [] = None"
| "udpRead room ip port (UdpFail e # evs) = Some (Inl (ReadError e), evs)"
| "udpRead room ip port (Datagram d # evs) =
     (let b = take room (payload d) in
      if fromIP d = ip \<and> fromPort d = port \<and> length b \<ge> 4 then Some (Inr b, evs)
      else udpRead room ip port evs)"

text \<open>\<open>WriteUntil\<close>: waits for an answer that \<open>ok\<close> accepts; its port becomes the camera's.\<close>

fun writeUntil :: "string \<Rightarrow> (bytes \<Rightarrow> bool) \<Rightarrow> udp_event list \<Rightarrow>
    ((cs2_error + bytes \<times> int) \<times> udp_event list) option" where
  "writeUntil ip ok [] = None"
| "writeUntil ip ok (UdpFail e # evs) = Some (Inl (ReadError e), evs)"
| "writeUntil ip ok (Datagram d # evs) =
     (let res = take 1200 (payload d) in
      if fromIP d \<noteq> ip \<or> length res < 16 \<or> res ! 0 \<noteq> magic then writeUntil ip ok evs
      else if ok res then Some (Inr (res, fromPort d), evs)
      else writeUntil ip ok evs)"

datatype hs_result = HsFailed cs2_error | HsUDP string int | HsTCP string int

definition readyUDP :: "string \<Rightarrow> u8" where
  "readyUDP transport = (if transport = '''' \<or> transport = ''udp'' then msgP2PRdyUDP else 0)"

definition readyTCP :: "string \<Rightarrow> u8" where
  "readyTCP transport = (if transport = '''' \<or> transport = ''tcp'' then msgP2PRdyTCP else 0)"

definition handshake :: "string \<Rightarrow> string \<Rightarrow> udp_event list \<Rightarrow> hs_result option" where
  "handshake ip transport evs =
     (case writeUntil ip (\<lambda>res. res ! 1 = msgPunchPkt) evs of
        None \<Rightarrow> None
      | Some (Inl e, _) \<Rightarrow> Some (HsFailed e)
      | Some (Inr (res, port), evs1) \<Rightarrow>
          let msgUDP = readyUDP transport; msgTCP = readyTCP transport in
          (case writeUntil ip (\<lambda>res. res ! 1 = msgUDP \<or> res ! 1 = msgTCP) evs1 of
             None \<Rightarrow> None
           | Some (Inl e, _) \<Rightarrow> Some (HsFailed e)
           | Some (Inr (res, port), _) \<Rightarrow>
               Some (if res ! 1 = msgTCP then HsTCP ip port else HsUDP ip port)))"

subsection \<open>Packet formats\<close>

lemma marshalCmd_bytes:
  "marshalCmd ch seq cmd p =
    [magic, msgDrw] @ be16 (of_nat (12 + length p)) @ [magicDrw, ch] @ be16 seq
    @ be32 (of_nat (4 + length p)) @ be32 cmd @ p"
proof -
  have z: "replicate (4 + 4 + 4 + 4 + length p) (0 :: u8)
      = [0, 0, 0, 0, 0, 0, 0, 0, 0, 0, 0, 0, 0, 0, 0, 0] @ replicate (length p) 0"
    by (simp add: numeral_eq_Suc)
  show ?thesis
    unfolding marshalCmd_def Let_def z be16_def be32_def
    by (simp add: go_copy_def Let_def)
qed

lemma ucast_of_nat_16: "(ucast (of_nat n :: u32) :: u16) = of_nat n"
  by (simp only: unsigned_of_nat word_of_nat_eq_iff take_bit_take_bit) simp

lemma mediaPacket_bytes:
  assumes "length hdr = hdrSize" "length p + 44 < 2 ^ 32"
  shows "mediaPacket seq hdr p =
    [magic, msgDrw] @ be16 (of_nat (40 + length p)) @ [magicDrw, 3] @ be16 seq
    @ be32 (of_nat (32 + length p)) @ hdr @ p"
proof -
  have n12: "(of_nat hdrSize + of_nat (length p) + 12 :: u32) = of_nat (44 + length p)"
    and n8: "(of_nat hdrSize + of_nat (length p) + 8 :: u32) = of_nat (40 + length p)"
    and n0: "(of_nat hdrSize + of_nat (length p) :: u32) = of_nat (32 + length p)"
    by (simp_all add: hdrSize_def)
  have u: "unat (of_nat (44 + length p) :: u32) = 44 + length p"
    using assms(2) by (subst unsigned_of_nat) (simp add: take_bit_nat_eq_self)
  have z: "replicate (44 + length p) (0 :: u8)
      = [0, 0, 0, 0, 0, 0, 0, 0, 0, 0, 0, 0] @ replicate hdrSize 0 @ replicate (length p) 0"
    by (simp add: hdrSize_def numeral_eq_Suc)
  have f1: "go_copy (as @ replicate hdrSize 0 @ bs) 12 hdr = as @ hdr @ bs" if "length as = 12" for as bs
    using assms(1) that by (intro go_copy_fit) simp_all
  have f2: "go_copy (as @ hdr @ replicate (length p) 0) (12 + hdrSize) p = as @ hdr @ p"
    if "length as = 12" for as
    using go_copy_fit [of "as @ hdr" "12 + hdrSize" "replicate (length p) 0" p "[]"] assms(1) that
    by simp
  define q where "q = [magic, msgDrw] @ be16 (of_nat (40 + length p)) @ [magicDrw, 3] @ be16 seq
    @ be32 (of_nat (32 + length p))"
  define t where "t = replicate hdrSize (0 :: u8) @ replicate (length p) 0"
  have h: "(let req = [0, 0, 0, 0, 0, 0, 0, 0, 0, 0, 0, 0] @ t;
          req = req[0 := magic, 1 := msgDrw];
          req = go_copy req 2 (be16 (of_nat (40 + length p)));
          req = req[4 := magicDrw, 5 := 3];
          req = go_copy req 6 (be16 seq)
      in go_copy req 8 (be32 (of_nat (32 + length p)))) = q @ t"
    unfolding Let_def be16_def be32_def q_def by (simp add: go_copy_def Let_def)
  have "length q = 12" by (simp add: q_def)
  moreover have "mediaPacket seq hdr p = go_copy (go_copy (q @ t) 12 hdr) (12 + hdrSize) p"
    unfolding h [symmetric] mediaPacket_def Let_def
    unfolding n12 n8
    unfolding n0 u
    unfolding z t_def ucast_of_nat_16 by (rule refl)
  ultimately have "mediaPacket seq hdr p = q @ hdr @ p" by (simp add: t_def f1 f2)
  then show ?thesis by (simp add: q_def)
qed

text \<open>What follows the 8 bytes of header is one frame of the data channel.\<close>

lemma marshalCmd_frame: "drop 8 (marshalCmd ch seq cmd p) = frame_bytes (be32 cmd @ p)"
  by (simp add: marshalCmd_bytes frame_bytes_def be16_def)

lemma mediaPacket_frame:
  assumes "length hdr = hdrSize" "length p + 44 < 2 ^ 32"
  shows "drop 8 (mediaPacket seq hdr p) = frame_bytes (hdr @ p)"
  using assms by (simp add: mediaPacket_bytes frame_bytes_def be16_def hdrSize_def)

lemma length_marshalCmd: "length (marshalCmd ch seq cmd p) = 16 + length p"
  by (simp add: marshalCmd_bytes)

lemma marshalCmd_header:
  "marshalCmd ch seq cmd p ! 0 = magic" "marshalCmd ch seq cmd p ! 1 = msgDrw"
  "marshalCmd ch seq cmd p ! 4 = magicDrw" "marshalCmd ch seq cmd p ! 5 = ch"
  by (simp_all add: marshalCmd_bytes be16_def)

text \<open>The 16-bit length field tells the truth up to 65523 bytes of payload.\<close>

lemma marshalCmd_valid: "validHeader (marshalCmd ch seq cmd p) \<longleftrightarrow> length p + 12 < 2 ^ 16"
proof -
  have "drop 2 (marshalCmd ch seq cmd p) = be16 (of_nat (12 + length p)) @ drop 4 (marshalCmd ch seq cmd p)"
    by (simp add: marshalCmd_bytes be16_def)
  then have "get_be16 (drop 2 (marshalCmd ch seq cmd p)) = of_nat (12 + length p)" by simp
  then have "int (unat (get_be16 (drop 2 (marshalCmd ch seq cmd p)))) = int ((12 + length p) mod 2 ^ 16)"
    by (simp only: unsigned_of_nat take_bit_eq_mod) simp
  moreover have "(12 + length p) mod 2 ^ 16 = 12 + length p \<longleftrightarrow> length p + 12 < 2 ^ 16"
    by (metis add.commute mod_less mod_less_divisor zero_less_numeral zero_less_power)
  ultimately show ?thesis
    unfolding validHeader_def by (simp add: length_marshalCmd marshalCmd_header) linarith
qed

lemma tcpWrite_bytes:
  "tcpWrite req = be16 (of_nat (length req)) @ [magicTCP, 0, 0, 0, 0, 0] @ req"
proof -
  have z: "replicate (8 + length req) (0 :: u8) = [0, 0, 0, 0, 0, 0, 0, 0] @ replicate (length req) 0"
    by (simp add: numeral_eq_Suc)
  show ?thesis
    unfolding tcpWrite_def Let_def z be16_def by (simp add: go_copy_def Let_def)
qed

lemma tcpRead_tcpWrite:
  assumes "4 \<le> length req" "length req \<le> room" "length req < 2 ^ 16"
  shows "tcpRead room (tcpWrite req @ r) = Some (Inr (req, r))"
proof -
  define w where "w = tcpWrite req @ r"
  have g: "get_be16 (take 8 w) = of_nat (length req)"
    using get_be16_be16 [of "of_nat (length req)" "[magicTCP, 0, 0, 0, 0, 0]"]
    by (simp add: w_def tcpWrite_bytes be16_def)
  have u: "unat (of_nat (length req) :: u16) = length req"
    using assms(3) by (subst unsigned_of_nat) (simp add: take_bit_nat_eq_self)
  have "drop 8 w = req @ r" "take 8 w ! 2 = magicTCP" "8 \<le> length w"
    by (simp_all add: w_def tcpWrite_bytes be16_def)
  then have "tcpRead room w = Some (Inr (req, r))"
    using assms by (simp add: tcpRead_def Let_def g u)
  then show ?thesis by (simp add: w_def)
qed

subsection \<open>The worker is safe\<close>

definition conn_ok :: "cs2Conn \<Rightarrow> bool" where
  "conn_ok c \<longleftrightarrow> (\<exists>a b. channels c = [Some a, None, Some b, None] \<and> chan_live a \<and> chan_live b)"

lemma conn_ok_new: "conn_ok (newConn tcp)"
  by (simp add: conn_ok_def newConn_def chan_live_new maxFrameSize_def hdrSize_def push_bit_eq_mult)

lemma conn_ok_netWrite [simp]: "conn_ok (netWrite c b) = conn_ok c"
  by (simp add: conn_ok_def netWrite_def)

lemma conn_ok_more [simp]:
  "conn_ok (c\<lparr>connErr := x\<rparr>) = conn_ok c" "conn_ok (c\<lparr>ackCalls := y\<rparr>) = conn_ok c"
  "conn_ok (c\<lparr>closed := z\<rparr>) = conn_ok c" "conn_ok (connClose c) = conn_ok c"
  by (simp_all add: conn_ok_def connClose_def)

lemma connErr_more [simp]:
  "connErr (netWrite c b) = connErr c" "connErr (setChannel c i ch) = connErr c"
  by (simp_all add: netWrite_def setChannel_def)

lemma keepalive_channels [simp]:
  "keepalive now c ts = (c1, ts1) \<Longrightarrow> channels c1 = channels c"
  by (auto simp: keepalive_def netWrite_def split: if_splits)

lemma conn_ok_index:
  assumes "conn_ok c" "i < length (channels c)" "channels c ! i = Some ch"
  shows "chan_live ch" "i = 0 \<or> i = 2"
proof -
  from assms(1) obtain a b where c: "channels c = [Some a, None, Some b, None]"
    and live: "chan_live a" "chan_live b" by (auto simp: conn_ok_def)
  from assms(2) c consider "i = 0" | "i = 1" | "i = 2" | "i = 3" by fastforce
  then have "(i = 0 \<and> ch = a) \<or> (i = 2 \<and> ch = b)" by cases (use assms(3) c in simp_all)
  with live show "chan_live ch" "i = 0 \<or> i = 2" by auto
qed

lemma conn_ok_set:
  assumes "conn_ok c" "i = 0 \<or> i = 2" "chan_live ch"
  shows "conn_ok (setChannel c i ch)"
  using assms by (auto simp: conn_ok_def setChannel_def)

lemma push_live:
  assumes "push dn c b = (dn', c', e)" "chan_live c"
  shows "chan_live c'" "e \<noteq> Some Panic"
  using assms push_inv [OF assms(1)] push_no_panic [OF assms(1)] push_config [OF assms(1)]
    push_seq_fields [OF assms(1)]
  by (auto simp: chan_live_def chan_config_def)

lemma Push_live: "Push c b = (c', e) \<Longrightarrow> chan_live c \<Longrightarrow> chan_live c' \<and> e \<noteq> Some Panic"
  by (auto simp: Push_def dest: push_live split: prod.splits)

text \<open>\<open>workerDrw\<close> by cases: a packet is skipped, or goes to its channel over TCP or UDP.\<close>

definition drwChannel :: "cs2Conn \<Rightarrow> bytes \<Rightarrow> dataChannel option" where
  "drwChannel c p =
     (if length p < 8 \<or> p ! 4 \<noteq> magicDrw \<or> unat (p ! 5) \<ge> length (channels c) then None
      else channels c ! unat (p ! 5))"

lemma workerDrw_skip: "drwChannel (conn s) p = None \<Longrightarrow> workerDrw now s p = (s, None)"
  by (auto simp: drwChannel_def workerDrw_def Let_def split: if_splits)

definition drwSeq :: "bytes \<Rightarrow> u16" where
  "drwSeq p = push_bit 8 (ucast (p ! 6)) OR ucast (p ! 7)"

lemma workerDrw_udp:
  assumes "drwChannel (conn s) p = Some ch" "\<not> isTCP (conn s)"
    and "PushSeq ch (drwSeq p) (drop 8 p) = (ch', j, e)"
  shows "workerDrw now s p =
    (s\<lparr>conn := (if j \<ge> 0 then netWrite (setChannel (conn s) (unat (p ! 5)) ch')
                       (ackPacket (p ! 5) (p ! 6) (p ! 7))
              else setChannel (conn s) (unat (p ! 5)) ch')\<rparr>, e)"
proof -
  have "\<not> (length p < 8 \<or> p ! 4 \<noteq> magicDrw)" "\<not> unat (p ! 5) \<ge> length (channels (conn s))"
    "channels (conn s) ! unat (p ! 5) = Some ch"
    using assms(1) by (auto simp: drwChannel_def split: if_splits)
  with assms(2,3) show ?thesis by (simp add: workerDrw_def Let_def drwSeq_def)
qed

lemma workerDrw_tcp:
  assumes "drwChannel (conn s) p = Some ch" "isTCP (conn s)"
    and "keepalive now (conn s) (keepaliveTS s) = (c1, ts)"
  shows "workerDrw now s p =
    (if p ! 5 = 2
     then case push (Some (waits s)) ch (drop 8 p) of (dn, ch', e) \<Rightarrow>
       (s\<lparr>conn := setChannel c1 2 ch', keepaliveTS := ts,
          waits := (case dn of None \<Rightarrow> [] | Some ws \<Rightarrow> ws)\<rparr>, e)
     else case Push ch (drop 8 p) of (ch', e) \<Rightarrow>
       (s\<lparr>conn := setChannel c1 (unat (p ! 5)) ch', keepaliveTS := ts\<rparr>, e))"
proof -
  have "\<not> (length p < 8 \<or> p ! 4 \<noteq> magicDrw)" "\<not> unat (p ! 5) \<ge> length (channels (conn s))"
    "channels (conn s) ! unat (p ! 5) = Some ch"
    using assms(1) by (auto simp: drwChannel_def split: if_splits)
  with assms(2,3) show ?thesis by (simp add: workerDrw_def Let_def)
qed

lemma drwChannel_ok:
  assumes "conn_ok c" "drwChannel c p = Some ch"
  shows "chan_live ch" "unat (p ! 5) = 0 \<or> unat (p ! 5) = 2"
proof -
  from assms(2) have "unat (p ! 5) < length (channels c)" "channels c ! unat (p ! 5) = Some ch"
    by (auto simp: drwChannel_def split: if_splits)
  from conn_ok_index [OF assms(1) this]
  show "chan_live ch" "unat (p ! 5) = 0 \<or> unat (p ! 5) = 2" by auto
qed

lemma workerDrw_ok:
  assumes w: "workerDrw now s p = (s', e)" and ok: "conn_ok (conn s)"
  shows "conn_ok (conn s') \<and> e \<noteq> Some Panic \<and> connErr (conn s') = connErr (conn s)"
proof (cases "drwChannel (conn s) p")
  case None
  with w ok show ?thesis by (simp add: workerDrw_skip)
next
  case (Some ch)
  note live = drwChannel_ok [OF ok Some]
  show ?thesis
  proof (cases "isTCP (conn s)")
    case False
    obtain ch' j e' where q: "PushSeq ch (drwSeq p) (drop 8 p) = (ch', j, e')"
      by (cases "PushSeq ch (drwSeq p) (drop 8 p)")
    from PushSeq_live [OF q live(1)] have "chan_live ch'" "e' \<noteq> Some Panic" by auto
    moreover have "conn_ok (setChannel (conn s) (unat (p ! 5)) ch')"
      using conn_ok_set [OF ok live(2) calculation(1)] .
    moreover have "s' = s\<lparr>conn := (if j \<ge> 0
          then netWrite (setChannel (conn s) (unat (p ! 5)) ch') (ackPacket (p ! 5) (p ! 6) (p ! 7))
          else setChannel (conn s) (unat (p ! 5)) ch')\<rparr>" "e = e'"
      using w by (simp_all add: workerDrw_udp [OF Some False q])
    ultimately show ?thesis by simp
  next
    case True
    obtain c1 ts where k: "keepalive now (conn s) (keepaliveTS s) = (c1, ts)"
      by (cases "keepalive now (conn s) (keepaliveTS s)")
    have c1: "conn_ok c1" "connErr c1 = connErr (conn s)"
      using k ok
      by (simp_all add: keepalive_def split: if_splits)
        (use conn_ok_netWrite connErr_more in blast)+
    obtain dn ch1 e1 where p1: "push (Some (waits s)) ch (drop 8 p) = (dn, ch1, e1)"
      by (cases "push (Some (waits s)) ch (drop 8 p)")
    obtain ch2 e2 where p2: "Push ch (drop 8 p) = (ch2, e2)" by (cases "Push ch (drop 8 p)")
    have l: "chan_live ch1" "e1 \<noteq> Some Panic" "chan_live ch2" "e2 \<noteq> Some Panic"
      using push_live [OF p1 live(1)] Push_live [OF p2 live(1)] by auto
    have set: "conn_ok (setChannel c1 2 ch1)" "conn_ok (setChannel c1 (unat (p ! 5)) ch2)"
      using conn_ok_set [OF c1(1)] l live(2) by blast+
    show ?thesis
    proof (cases "p ! 5 = 2")
      case True
      then have "conn s' = setChannel c1 2 ch1" "e = e1"
        using w workerDrw_tcp [OF Some \<open>isTCP (conn s)\<close> k] p1 by auto
      with l set c1 show ?thesis by simp
    next
      case False
      then have "conn s' = setChannel c1 (unat (p ! 5)) ch2" "e = e2"
        using w workerDrw_tcp [OF Some \<open>isTCP (conn s)\<close> k] p2 by auto
      with l set c1 show ?thesis by simp
    qed
  qed
qed

lemma workerPacket_drw:
  "validHeader p \<Longrightarrow> p ! 1 = msgDrw \<Longrightarrow> workerPacket now s p = workerDrw now s p"
  unfolding workerPacket_def by simp

lemma workerPacket_ok:
  assumes "workerPacket now s p = (s', e)" "conn_ok (conn s)"
  shows "conn_ok (conn s') \<and> e \<noteq> Some Panic \<and> connErr (conn s') = connErr (conn s)"
proof (cases "workerPacket now s p = workerDrw now s p")
  case True
  with assms workerDrw_ok [of now s p s' e] show ?thesis by simp
next
  case False
  then show ?thesis
    using assms by (auto simp: workerPacket_def split: if_splits)
qed

lemma workerExit_ok:
  assumes "conn_ok c"
  shows "\<exists>c'. workerExit c = Inl c' \<and> closed c' \<and> connErr c' = connErr c \<and>
    (\<forall>ch \<in> set (channels c'). case ch of None \<Rightarrow> True
       | Some d \<Rightarrow> popClosed d \<and> bufferedSize d = int (queued d))"
proof -
  from assms obtain a b where c: "channels c = [Some a, None, Some b, None]"
    and ab: "chan_live a" "chan_live b" by (auto simp: conn_ok_def)
  have cl: "\<exists>x'. chanClose x = Inl x' \<and> popClosed x' \<and> bufferedSize x' = int (queued x')"
    if "chan_live x" for x
    using that by (auto simp: chan_live_def chanClose_def Let_def chan_inv_def queued_def)
  obtain a' b' where "chanClose a = Inl a'" "popClosed a'" "bufferedSize a' = int (queued a')"
    "chanClose b = Inl b'" "popClosed b'" "bufferedSize b' = int (queued b')"
    using cl ab by blast
  then show ?thesis
    using c by (simp add: workerExit_def closeChannel_def connClose_def setChannel_def)
qed

lemma worker_ok:
  assumes "conn_ok (conn s)" "connErr (conn s) \<noteq> Some Panic"
  shows "case worker s evs of
      Inl s' \<Rightarrow> conn_ok (conn s')
    | Inr (Inr e) \<Rightarrow> False
    | Inr (Inl c) \<Rightarrow> closed c \<and> connErr c \<noteq> None \<and> connErr c \<noteq> Some Panic"
  using assms
proof (induction s evs rule: worker.induct)
  case (1 s)
  then show ?case by simp
next
  case (2 s e evs)
  have "conn_ok ((conn s)\<lparr>connErr := Some (ReadError e)\<rparr>)" using 2 by simp
  from workerExit_ok [OF this] show ?case by (auto simp: simp del: conn_ok_more)
next
  case (3 s now p evs)
  obtain s' e where w: "workerPacket now s p = (s', e)" by (cases "workerPacket now s p")
  note ok = workerPacket_ok [OF w 3(2)]
  show ?case
  proof (cases e)
    case None
    with 3 None ok w show ?thesis by simp
  next
    case (Some x)
    have "conn_ok ((conn s')\<lparr>connErr := Some x\<rparr>)" using ok by simp
    from workerExit_ok [OF this] Some ok w show ?thesis by auto
  qed
qed

subsection \<open>Sending a command over UDP\<close>

definition turn :: "send_turn list \<Rightarrow> nat \<Rightarrow> send_turn" where
  "turn turns i = (if i < length turns then turns ! i else (None, False))"

lemma turn_0: "turn turns 0 = (case turns of [] \<Rightarrow> (None, False) | t # _ \<Rightarrow> t)"
  by (cases turns) (simp_all add: turn_def)

lemma turn_tl: "turn (tl turns) i = turn turns (Suc i)"
  by (cases turns) (simp_all add: turn_def)

lemma sendLoop_result:
  assumes "sendLoop (int k) cmd c req turns = (c', e)" "0 < k"
  shows "\<exists>n. 1 \<le> n \<and> n \<le> k \<and> c' = c\<lparr>sent := sent c @ replicate n req\<rparr> \<and>
    (\<forall>i < n - 1. turn turns i = (None, False)) \<and>
    (case turn turns (n - 1) of
       (Some x, _) \<Rightarrow> e = Some x
     | (None, True) \<Rightarrow> e = None
     | (None, False) \<Rightarrow> n = k \<and> e = Some (CantSendCommand cmd))"
  using assms
proof (induction k arbitrary: c turns)
  case (Suc k)
  obtain err acked where t: "turn turns 0 = (err, acked)" by (cases "turn turns 0")
  have hd: "(case turns of [] \<Rightarrow> (None, False) | t # _ \<Rightarrow> t) = (err, acked)"
    using t by (simp only: turn_0)
  note step = Suc.prems(1) [unfolded sendLoop.simps [of "int (Suc k)"] hd Let_def prod.case]
  show ?case
  proof (cases "err = None \<and> \<not> acked \<and> k \<noteq> 0")
    case False
    then consider (err) x where "err = Some x" | (ack) "err = None" "acked"
      | (last) "err = None" "\<not> acked" "k = 0" by fastforce
    then have "c' = netWrite c req \<and> (case turn turns 0 of (Some x, _) \<Rightarrow> e = Some x
        | (None, True) \<Rightarrow> e = None
        | (None, False) \<Rightarrow> 1 = Suc k \<and> e = Some (CantSendCommand cmd))"
    proof cases
      case err
      with step t show ?thesis by auto
    next
      case ack
      with step t show ?thesis by auto
    next
      case last
      with step t show ?thesis by auto
    qed
    then show ?thesis by (intro exI [of _ 1]) (simp add: netWrite_def)
  next
    case True
    then have "sendLoop (int k) cmd (netWrite c req) req (tl turns) = (c', e)" "0 < k"
      using step by simp_all
    from Suc.IH [OF this] obtain n where n: "1 \<le> n" "n \<le> k"
      "c' = (netWrite c req)\<lparr>sent := sent (netWrite c req) @ replicate n req\<rparr>"
      "\<forall>i < n - 1. turn turns (Suc i) = (None, False)"
      "case turn turns (Suc (n - 1)) of (Some x, _) \<Rightarrow> e = Some x | (None, True) \<Rightarrow> e = None
        | (None, False) \<Rightarrow> n = k \<and> e = Some (CantSendCommand cmd)"
      by (auto simp: turn_tl)
    have "turn turns i = (None, False)" if "i < n" for i
      using n(4) that t True by (cases i) auto
    moreover have "Suc (n - 1) = n" using n(1) by simp
    ultimately show ?thesis
      using n by (intro exI [of _ "Suc n"]) (simp add: netWrite_def split: prod.splits option.splits bool.splits)
  qed
qed simp

text \<open>What \<open>WriteUntil\<close> accepts came from the camera and passed the test.\<close>

lemma writeUntil_Inr:
  "writeUntil ip ok evs = Some (Inr (res, port), evs1) \<Longrightarrow>
   \<exists>d. Datagram d \<in> set evs \<and> fromIP d = ip \<and> fromPort d = port \<and> res = take 1200 (payload d) \<and>
     16 \<le> length res \<and> res ! 0 = magic \<and> ok res \<and> set evs1 \<subseteq> set evs"
proof (induction ip ok evs rule: writeUntil.induct)
  case (3 ip ok d evs)
  show ?case
  proof (cases "fromIP d \<noteq> ip \<or> length (take 1200 (payload d)) < 16 \<or>
      take 1200 (payload d) ! 0 \<noteq> magic \<or> \<not> ok (take 1200 (payload d))")
    case True
    then have "writeUntil ip ok evs = Some (Inr (res, port), evs1)"
      using 3(3) by (auto simp: Let_def split: if_splits)
    then have "\<exists>d. Datagram d \<in> set evs \<and> fromIP d = ip \<and> fromPort d = port \<and>
        res = take 1200 (payload d) \<and> 16 \<le> length res \<and> res ! 0 = magic \<and> ok res \<and> set evs1 \<subseteq> set evs"
      using 3(1,2) True by (cases "fromIP d \<noteq> ip \<or> length (take 1200 (payload d)) < 16 \<or>
          take 1200 (payload d) ! 0 \<noteq> magic") (simp_all add: Let_def)
    then show ?thesis by auto
  next
    case False
    then show ?thesis using 3(3) by (intro exI [of _ d]) (auto simp: Let_def)
  qed
qed auto

subsection \<open>Results\<close>

text \<open>
  Claim C14. What the receiver of a UDP data channel sees of the sender's stream. Packet
  \<open>k\<close> carries \<open>f k\<close> under the 16-bit sequence number of \<open>k\<close>; the network hands over the
  packets \<open>ks\<close>, reordered, repeated and with losses, each less than half the sequence space
  from the one expected. Then the frames the channel has completed are exactly those of the
  joined payloads of an initial run of packets, in order, the rest of that run is kept as the
  frame being read, and a packet that \<open>PushSeq\<close> reports as processed (which the worker then
  acknowledges) is in that run or stored in the reordering buffer with its payload: no
  acknowledged data is lost.
\<close>

theorem cs2_udp_reassembly:
  assumes "0 < cap" "0 < m" "m \<le> maxFrameSize"
    and "windowed cap f (0, []) ks"
    and "arriveAll f (newDataChannel (int cap) q m) ks = (c', js, None)"
  shows "\<exists>n. waitSeq c' = of_nat n \<and>
    completed c' = fst (parse_frames (concat (map f [0..<n]))) \<and>
    pending c' = snd (parse_frames (concat (map f [0..<n]))) \<and>
    (\<forall>i < length ks. 0 \<le> js ! i \<longrightarrow>
       ks ! i < n \<or> bufLookup c' (of_nat (ks ! i)) = Some (f (ks ! i)))"
proof -
  let ?c = "newDataChannel (int cap) q m"
  have rel: "reasm_rel cap (0, []) ?c"
    using assms(1) by (simp add: reasm_rel_def newDataChannel_def)
  obtain n c'' where n: "waitSeq c' = of_nat n" "Push ?c (concat (map f [0..<n])) = (c'', None)"
    and c': "c' = with_seq (waitSeq c') (pushBuf c') c''"
    and ack: "\<forall>i < length ks. 0 \<le> js ! i \<longrightarrow>
       ks ! i < n \<or> bufLookup c' (of_nat (ks ! i)) = Some (f (ks ! i))"
    using udp_stream [OF rel assms(4,5)] by blast
  obtain dn where p: "push None ?c (concat (map f [0..<n])) = (dn, c'', None)"
    using n(2) by (auto simp: Push_def split: prod.splits)
  have "completed c'' = completed ?c @ fst (parse_frames (pending ?c @ concat (map f [0..<n]))) \<and>
      pending c'' = snd (parse_frames (pending ?c @ concat (map f [0..<n])))"
    using push_refines [OF p chan_inv_new [OF assms(2,3)]] by (simp add: newDataChannel_def)
  moreover have "completed c' = completed c''" "pending c' = pending c''"
    by (subst c', simp add: completed_def pending_def)+
  moreover have "completed ?c = []" "pending ?c = []"
    by (simp_all add: completed_def pending_def newDataChannel_def)
  ultimately show ?thesis using n(1) ack by auto
qed

text \<open>The stream of two frames in three packets, the last two arriving swapped and twice.\<close>

definition demo_packets :: "nat \<Rightarrow> bytes" where
  "demo_packets k = (if k = 0 then [0, 0, 0] else if k = 1 then [4, 9, 8] else [7, 6])"

theorem cs2_udp_reassembly_witness:
  "\<exists>c' js n. arriveAll demo_packets (newDataChannel 250 100 4) [0, 2, 1, 2] = (c', js, None) \<and>
    waitSeq c' = of_nat n \<and> completed c' = fst (parse_frames (concat (map demo_packets [0..<n])))"
proof -
  have w: "windowed 250 demo_packets (0, []) [0, 2, 1, 2]"
    by (simp add: in_window_def half_window_def spec_arrive_def demo_packets_def take_run.simps)
  have "snd (snd (arriveAll demo_packets (newDataChannel 250 100 4) [0, 2, 1, 2])) = None"
    by code_simp
  then obtain c' js where
    r: "arriveAll demo_packets (newDataChannel (int 250) 100 4) [0, 2, 1, 2] = (c', js, None)"
    by (cases "arriveAll demo_packets (newDataChannel 250 100 4) [0, 2, 1, 2]") auto
  have m: "(4 :: int) \<le> maxFrameSize" by (simp add: maxFrameSize_def push_bit_eq_mult)
  show ?thesis
    using cs2_udp_reassembly [OF _ _ m w r] r by (auto simp del: arriveAll.simps)
qed

text \<open>
  Claim C15. Whatever the camera sends and however the reader's \<open>Pop\<close> interleaves with the
  worker, the bytes a channel accounts for are those of the frame being read plus those
  queued, they never exceed 32 MiB, the queue never exceeds its capacity and every queued
  frame has an admissible size.
\<close>

theorem cs2_memory_bounded:
  assumes "0 < m" "m \<le> maxFrameSize" "chan_reach (newDataChannel p q m) (c, w)"
  shows "bufferedSize c = int (waitSize c) + int (queued c) \<and>
    int (waitSize c) + int (queued c) \<le> 32 * 2 ^ 20 \<and>
    int (length (popBuf c)) \<le> max 0 q \<and>
    (\<forall>f \<in> set (popBuf c). m \<le> int (length f) \<and> int (length f) \<le> 16 * 2 ^ 20)"
proof -
  have i: "chan_inv c"
    using chan_reach_inv [OF assms(3) chan_inv_new [OF assms(1,2)]] by (simp add: sys_inv_def)
  have cfg: "popCap c = (if q \<ge> 0 then Some (nat q) else None)"
    "minFrameSize c = m" "frameLimit c = 16 * 2 ^ 20" "bufferLimit c = 32 * 2 ^ 20"
    using chan_reach_limits [OF assms(3)]
    by (simp_all add: chan_limits_of_def newDataChannel_def maxFrameSize_def maxBufferedSize_def
        push_bit_eq_mult)
  show ?thesis
    using i cfg by (auto simp: chan_inv_def split: if_splits)
qed

theorem cs2_memory_bounded_witness:
  "int (queued (newDataChannel 250 100 32)) \<le> 32 * 2 ^ 20"
  using cs2_memory_bounded [OF _ _ chan_reach.start, of 32 250 100]
  by (simp add: maxFrameSize_def push_bit_eq_mult newDataChannel_def)


text \<open>
  Claim C17. A command written over TCP, read back by the worker at the other end of the
  stream and taken with \<open>ReadCommand\<close>: the packet passes the framing and the checks, the data
  comes back unchanged, and the command number comes back with its four bytes reversed
  (\<open>WriteCommand\<close> stores it big-endian, \<open>ReadCommand\<close> loads it little-endian).
\<close>

theorem cs2_command_roundtrip:
  assumes "length data \<le> 1184"
  shows "tcpRead maxPacketSize (tcpWrite (marshalCmd 0 seq cmd data) @ rest)
      = Some (Inr (marshalCmd 0 seq cmd data, rest)) \<and>
    (\<exists>s' c'. workerPacket now \<lparr>conn = newConn True, keepaliveTS = None, waits = ws\<rparr>
        (marshalCmd 0 seq cmd data) = (s', None) \<and>
      ReadCommand (conn s') = Some (c', Inr (get_le32 (be32 cmd), data)))"
proof (rule conjI)
  let ?p = "marshalCmd 0 seq cmd data" and ?f = "be32 cmd @ data"
  let ?s = "\<lparr>conn = newConn True, keepaliveTS = None, waits = ws\<rparr>"
  show "tcpRead maxPacketSize (tcpWrite ?p @ rest) = Some (Inr (?p, rest))"
    using assms by (intro tcpRead_tcpWrite) (simp_all add: length_marshalCmd maxPacketSize_def)
  let ?ch = "newDataChannel 0 10 4"
  have ch: "drwChannel (conn ?s) ?p = Some ?ch"
    using marshalCmd_header [of 0 seq cmd data]
    by (simp add: drwChannel_def length_marshalCmd newConn_def)
  have frames: "push None ?ch (concat (map frame_bytes [?f])) =
    (None, ?ch\<lparr>popBuf := popBuf ?ch @ [?f],
      bufferedSize := bufferedSize ?ch + int (sum_list (map length [?f]))\<rparr>, None)"
    using assms
    by (intro push_frames [where k = 10])
      (simp_all add: chan_limits_def idle_def accepts_def newDataChannel_def maxFrameSize_def
        maxBufferedSize_def push_bit_eq_mult)
  then have push: "Push ?ch (drop 8 ?p) =
      (?ch\<lparr>popBuf := [?f], bufferedSize := 4 + int (length data)\<rparr>, None)"
    by (simp add: Push_def marshalCmd_frame newDataChannel_def)
  have k: "keepalive now (conn ?s) (keepaliveTS ?s) =
      (netWrite (newConn True) [magic, msgPing, 0, 0], Some (now + second))"
    by (simp add: keepalive_def)
  have w: "workerPacket now ?s ?p = workerDrw now ?s ?p"
    using assms by (intro workerPacket_drw) (simp_all only: marshalCmd_valid marshalCmd_header, simp)
  have "length (be32 cmd) = 4" by simp
  then have "get_le32 ?f = get_le32 (be32 cmd)" by (simp add: be32_def)
  moreover have "workerPacket now ?s ?p =
      (?s\<lparr>conn := setChannel (netWrite (newConn True) [magic, msgPing, 0, 0]) 0
            (?ch\<lparr>popBuf := [?f], bufferedSize := 4 + int (length data)\<rparr>),
          keepaliveTS := Some (now + second)\<rparr>, None)"
    unfolding w using workerDrw_tcp [OF ch _ k] push
    by (simp add: marshalCmd_header) (simp add: newConn_def)
  ultimately show "\<exists>s' c'. workerPacket now ?s ?p = (s', None) \<and>
      ReadCommand (conn s') = Some (c', Inr (get_le32 (be32 cmd), data))"
    by (simp add: ReadCommand_def setChannel_def netWrite_def newConn_def popResult_def chanPop_def)
qed

theorem cs2_command_roundtrip_witness:
  "\<exists>s' c'. workerPacket 7 \<lparr>conn = newConn True, keepaliveTS = None, waits = []\<rparr>
      (marshalCmd 0 1 0x100 [1, 2, 3]) = (s', None) \<and>
    ReadCommand (conn s') = Some (c', Inr (get_le32 (be32 0x100), [1, 2, 3]))"
  by (rule conjunct2 [OF cs2_command_roundtrip]) simp

text \<open>
  Over UDP a command is written between one and five times, each time the same
  packet, one turn after the other. The call succeeds exactly when the turn it stopped at was
  acknowledged, gives the socket's error if a write failed, and gives up with an error after
  five turns without acknowledgement; the next command has the next sequence number.
\<close>

lemma cs2_command_retries:
  assumes "\<not> isTCP c" "WriteCommand c cmd data turns = (c', e)"
  shows "\<exists>n. 1 \<le> n \<and> n \<le> 5 \<and> seqCh0 c' = seqCh0 c + 1 \<and>
    sent c' = sent c @ replicate n (marshalCmd 0 (seqCh0 c) cmd data) \<and>
    (\<forall>i < n - 1. turn turns i = (None, False)) \<and>
    (case turn turns (n - 1) of
       (Some x, _) \<Rightarrow> e = Some x
     | (None, True) \<Rightarrow> e = None
     | (None, False) \<Rightarrow> n = 5 \<and> e = Some (CantSendCommand cmd))"
proof -
  let ?c = "c\<lparr>seqCh0 := seqCh0 c + 1, cmdAckSet := True\<rparr>"
  have "sendLoop (int 5) cmd ?c (marshalCmd 0 (seqCh0 c) cmd data) turns = (c', e)"
    using assms by (simp add: WriteCommand_def Let_def)
  from sendLoop_result [OF this] show ?thesis by force
qed

text \<open>
  The handshake keeps to the transport asked for, and to the camera's address: as
  long as no datagram has message type 0, \<open>udp\<close> never gives a TCP connection nor \<open>tcp\<close> a UDP
  one, and the port used is the source port of a datagram the camera's address sent.
\<close>

lemma cs2_handshake_transport:
  assumes "handshake ip transport evs = Some r"
    and "\<forall>d. Datagram d \<in> set evs \<longrightarrow> payload d ! 1 \<noteq> 0"
  shows "(\<forall>i p. r = HsTCP i p \<or> r = HsUDP i p \<longrightarrow>
      i = ip \<and> (\<exists>d. Datagram d \<in> set evs \<and> fromIP d = ip \<and> fromPort d = p)) \<and>
    (transport = ''udp'' \<longrightarrow> (\<forall>i p. r \<noteq> HsTCP i p)) \<and>
    (transport = ''tcp'' \<longrightarrow> (\<forall>i p. r \<noteq> HsUDP i p))"
proof (cases r)
  case (HsFailed e)
  then show ?thesis by simp
next
  case (HsUDP i p)
  then obtain r1 p1 evs1 r2 evs2 where
    w1: "writeUntil ip (\<lambda>res. res ! 1 = msgPunchPkt) evs = Some (Inr (r1, p1), evs1)" and
    w2: "writeUntil ip (\<lambda>res. res ! 1 = readyUDP transport \<or> res ! 1 = readyTCP transport) evs1
      = Some (Inr (r2, p), evs2)" and r2: "r2 ! 1 \<noteq> readyTCP transport" "i = ip"
    using assms(1) by (auto simp: handshake_def Let_def split: option.splits sum.splits if_splits)
  from writeUntil_Inr [OF w1] writeUntil_Inr [OF w2] obtain d where
    d: "Datagram d \<in> set evs" "fromIP d = ip" "fromPort d = p" "payload d ! 1 = readyUDP transport"
    using r2 by auto
  with assms(2) have "transport \<noteq> ''tcp''" by (auto simp: readyUDP_def)
  with HsUDP d r2 show ?thesis by auto
next
  case (HsTCP i p)
  then obtain r1 p1 evs1 r2 evs2 where
    w1: "writeUntil ip (\<lambda>res. res ! 1 = msgPunchPkt) evs = Some (Inr (r1, p1), evs1)" and
    w2: "writeUntil ip (\<lambda>res. res ! 1 = readyUDP transport \<or> res ! 1 = readyTCP transport) evs1
      = Some (Inr (r2, p), evs2)" and r2: "r2 ! 1 = readyTCP transport" "i = ip"
    using assms(1) by (auto simp: handshake_def Let_def split: option.splits sum.splits if_splits)
  from writeUntil_Inr [OF w1] writeUntil_Inr [OF w2] obtain d where
    d: "Datagram d \<in> set evs" "fromIP d = ip" "fromPort d = p" "payload d ! 1 = readyTCP transport"
    using r2 by auto
  with assms(2) have "transport \<noteq> ''udp''" by (auto simp: readyTCP_def)
  with HsTCP d r2 show ?thesis by auto
qed

definition demo_datagram :: "u8 \<Rightarrow> udp_event" where
  "demo_datagram kind =
     Datagram \<lparr>fromIP = ''10.0.0.2'', fromPort = 5000, payload = [magic, kind] @ replicate 14 0\<rparr>"

text \<open>With message type 0 the handshake leaves the transport asked for.\<close>

lemma cs2_handshake_type_zero:
  "handshake ''10.0.0.2'' ''udp'' [demo_datagram msgPunchPkt, demo_datagram 0]
    = Some (HsTCP ''10.0.0.2'' 5000)"
  by code_simp

end
