(* ===== verification/AnnexB.thy ===== *)
theory AnnexB
  imports Prelude
begin

section \<open>NAL units: Annex B streams and length-prefixed (AVCC) buffers\<close>

text \<open>
  Models \<open>pkg/h264/annexb/annexb.go\<close> and the walks over AVCC buffers of
  \<open>pkg/h264/h264.go\<close> and \<open>pkg/h265/helper.go\<close>. An access to a slice out of its range, which
  panics, is \<open>None\<close>.
\<close>

subsection \<open>The code\<close>

definition isAUD :: "u8 \<Rightarrow> bool" where
  "isAUD b \<longleftrightarrow> b AND 0x1F = 9 \<or> b AND 0x7E = push_bit 1 35"

text \<open>
  The search at position \<open>i\<close>: \<open>None\<close> continues with the next position, \<open>Some off\<close> leaves it with
  a separator of \<open>off\<close> bytes, or with 0 at the end of the data.
\<close>

definition sepAt :: "bytes \<Rightarrow> nat \<Rightarrow> nat option" where
  "sepAt a i =
     (if i + 3 < length a then
        (if a ! i = 0 \<and> a ! (i + 1) = 0 then
           (if a ! (i + 2) = 1 then Some 3
            else if a ! (i + 2) = 0 \<and> a ! (i + 3) = 1 then Some 4
            else None)
         else None)
      else Some 0)"

lemma sepAt_progress:
  "sepAt a i = None \<Longrightarrow> i < length a"
  "sepAt a i = Some off \<Longrightarrow> off \<noteq> 0 \<Longrightarrow> i + 3 < length a"
  by (auto simp: sepAt_def split: if_splits)

function encLoop :: "bytes \<Rightarrow> nat \<Rightarrow> nat \<Rightarrow> bytes \<Rightarrow> bytes" where
  "encLoop a i start avc =
     (case sepAt a i of
        None \<Rightarrow> encLoop a (Suc i) start avc
      | Some off \<Rightarrow>
          let i0 = (if off = 0 then length a else i);
              avc1 = (if start \<noteq> 0
                      then avc @ be32 (of_nat (i0 - start)) @ take (i0 - start) (drop start a)
                      else avc);
              i1 = i0 + off
          in if i1 = length a then avc1
             else if isAUD (a ! i1) then encLoop a (Suc i1) 0 avc1
             else encLoop a (Suc i1) i1 avc1)"
  by pat_completeness auto
termination
  by (relation "measure (\<lambda>(a, i, start, avc). length a - i)")
    (auto dest: sepAt_progress split: if_splits)

declare encLoop.simps [simp del]

definition EncodeToAVCC :: "bytes \<Rightarrow> bytes" where
  "EncodeToAVCC annexb = encLoop annexb 0 0 []"

function decLoop :: "nat \<Rightarrow> bytes \<Rightarrow> bytes option" where
  "decLoop i b =
     (if i < length b then
        (if length b - i < 4 then None
         else let sz = unat (get_be32 (drop i b)); b' = go_copy b i [0, 0, 0, 1]
              in decLoop (i + (4 + sz)) b')
      else Some b)"
  by pat_completeness auto
termination
  by (relation "measure (\<lambda>(i, b). length b - i)") (auto simp: Let_def)

declare decLoop.simps [simp del]

definition DecodeAVCC :: "bytes \<Rightarrow> bytes option" where
  "DecodeAVCC b = decLoop 0 b"

definition startAUD :: bytes where
  "startAUD = [0, 0, 0, 1, 9, 0xF0]"

definition DecodeAVCCWithAUD :: "bytes \<Rightarrow> bytes option" where
  "DecodeAVCCWithAUD src =
     (case DecodeAVCC src of None \<Rightarrow> None | Some b \<Rightarrow> Some (startAUD @ b))"

function indexLoop :: "nat \<Rightarrow> bytes \<Rightarrow> int" where
  "indexLoop i b =
     (case index_of (drop i b) [0, 0, 0, 1] of
        None \<Rightarrow> -1
      | Some di \<Rightarrow>
          let i1 = i + (di + 4) in
          if i1 \<ge> length b then -1
          else if b ! i1 AND 0x1F \<in> {1, 7} then int (i1 - 4)
          else if b ! i1 AND 0x1F \<in> {5, 8} then indexLoop i1 b
          else if drop_bit 1 (b ! i1) AND 0x3F \<in> {1, 32} then int (i1 - 4)
          else indexLoop i1 b)"
  by pat_completeness auto
termination
  by (relation "measure (\<lambda>(i, b). length b - i)") (auto simp: Let_def)

declare indexLoop.simps [simp del]

definition IndexFrame :: "bytes \<Rightarrow> int" where
  "IndexFrame b = (if length b < 10 then -1 else indexLoop 10 b)"

function fixLoop :: "nat \<Rightarrow> bytes \<Rightarrow> bytes" where
  "fixLoop i b =
     (if i < length b \<and> \<not> i + 4 \<ge> length b then
        let sz = (case index_of (drop (i + 4) b) [0, 0, 0, 1] of
                    Some n \<Rightarrow> n | None \<Rightarrow> length b - (i + 4));
            b' = go_copy b i (be32 (of_nat sz))
        in fixLoop (i + (sz + 4)) b'
      else b)"
  by pat_completeness auto
termination
  by (relation "measure (\<lambda>(i, b). length b - i)") (auto simp: Let_def)

declare fixLoop.simps [simp del]

definition FixAnnexBInAVCC :: "bytes \<Rightarrow> bytes" where
  "FixAnnexBInAVCC b = fixLoop 0 b"

subsection \<open>Walks over AVCC buffers\<close>

definition h264NALUType :: "bytes \<Rightarrow> u8 option" where
  "h264NALUType b = (if 4 < length b then Some (b ! 4 AND 0x1F) else None)"

definition h265NALUType :: "bytes \<Rightarrow> u8 option" where
  "h265NALUType b = (if 4 < length b then Some (drop_bit 1 (b ! 4) AND 0x3F) else None)"

function h264IsKeyframe :: "bytes \<Rightarrow> bool option" where
  "h264IsKeyframe b =
     (case h264NALUType b of
        None \<Rightarrow> None
      | Some t \<Rightarrow>
          if t = 1 then Some False
          else if t = 5 then Some True
          else let sz = unat (get_be32 b) + 4 in
               if sz < length b then h264IsKeyframe (drop sz b) else Some False)"
  by pat_completeness auto
termination
  by (relation "measure length") (auto simp: Let_def)

function h265IsKeyframe :: "bytes \<Rightarrow> bool option" where
  "h265IsKeyframe b =
     (case h265NALUType b of
        None \<Rightarrow> None
      | Some t \<Rightarrow>
          if t = 1 then Some False
          else if t \<in> {19, 20, 21} then Some True
          else let sz = unat (get_be32 b) + 4 in
               if sz < length b then h265IsKeyframe (drop sz b) else Some False)"
  by pat_completeness auto
termination
  by (relation "measure length") (auto simp: Let_def)

function h265Types :: "bytes \<Rightarrow> u8 list option" where
  "h265Types b =
     (case h265NALUType b of
        None \<Rightarrow> None
      | Some t \<Rightarrow>
          let sz = 4 + unat (get_be32 b) in
          if sz < length b then map_option ((#) t) (h265Types (drop sz b)) else Some [t])"
  by pat_completeness auto
termination
  by (relation "measure length") (auto simp: Let_def)

declare h264IsKeyframe.simps [simp del] h265IsKeyframe.simps [simp del] h265Types.simps [simp del]

subsection \<open>Streams of NAL units\<close>

text \<open>
  An Annex B stream is a sequence of NAL units, each behind a separator of 3 or 4 bytes; an AVCC
  buffer has the length of each unit in front of it. H.264 and H.265 units hold no start code and
  do not end in a zero byte.
\<close>

definition clean :: "bytes \<Rightarrow> bool" where
  "clean n \<longleftrightarrow> n \<noteq> [] \<and> last n \<noteq> 0 \<and> \<not> contains n [0, 0, 1]"

definition separator :: "bool \<Rightarrow> bytes" where
  "separator long = (if long then [0, 0, 0, 1] else [0, 0, 1])"

definition annexb_stream :: "(bool \<times> bytes) list \<Rightarrow> bytes" where
  "annexb_stream us = concat (map (\<lambda>(l, n). separator l @ n) us)"

definition unit_bytes :: "bytes \<Rightarrow> bytes" where
  "unit_bytes n = be32 (of_nat (length n)) @ n"

definition avcc_units :: "bytes list \<Rightarrow> bytes" where
  "avcc_units ns = concat (map unit_bytes ns)"

lemma annexb_stream_simps [simp]:
  "annexb_stream [] = []" "annexb_stream ((l, n) # us) = separator l @ n @ annexb_stream us"
  by (simp_all add: annexb_stream_def)

lemma avcc_units_simps [simp]:
  "avcc_units [] = []" "avcc_units (n # ns) = unit_bytes n @ avcc_units ns"
  by (simp_all add: avcc_units_def)

lemma sepAt_view:
  "sepAt (pre @ t) (length pre) =
     (case t of
        x # y # z # w # _ \<Rightarrow>
          if x = 0 \<and> y = 0 then (if z = 1 then Some 3 else if z = 0 \<and> w = 1 then Some 4 else None)
          else None
      | _ \<Rightarrow> Some 0)"
  by (auto simp: sepAt_def nth_append split: list.splits)

text \<open>No separator starts inside a clean unit, whatever follows it.\<close>

lemma clean_suffix:
  assumes "clean n" "t \<noteq> []" "n = s @ t"
  shows "last t \<noteq> 0" "\<not> contains t [0, 0, 1]"
proof -
  show "last t \<noteq> 0" using assms by (simp add: clean_def)
  show "\<not> contains t [0, 0, 1]"
  proof
    assume "contains t [0, 0, 1]"
    then obtain as bs where "t = as @ [0, 0, 1] @ bs" by (auto simp: contains_iff)
    then have "n = (s @ as) @ [0, 0, 1] @ bs" using assms by simp
    then have "contains n [0, 0, 1]" unfolding contains_iff by blast
    then show False using assms(1) by (simp add: clean_def)
  qed
qed

lemma sepAt_clean:
  assumes "t \<noteq> []" "last t \<noteq> 0" "\<not> contains t [0, 0, 1]"
  shows "sepAt (pre @ t @ rest) (length pre) =
    (if 4 \<le> length (t @ rest) then None else Some 0)"
proof -
  consider x where "t = [x]" | x y where "t = [x, y]" | x y z where "t = [x, y, z]"
    | x y z w r where "t = x # y # z # w # r"
    using assms(1) by (metis list.exhaust)
  then show ?thesis
    by cases (use assms in \<open>auto simp: sepAt_view split: list.splits\<close>)
qed

lemma sepAt_separator:
  assumes "n \<noteq> []"
  shows "sepAt (pre @ separator l @ n @ rest) (length pre) = Some (length (separator l))"
  using assms by (cases n; cases l) (simp_all add: sepAt_view separator_def)

text \<open>The loop walks over a clean unit to its end.\<close>

lemma encLoop_walk:
  assumes "last t \<noteq> 0" "\<not> contains t [0, 0, 1]" "rest = [] \<or> 4 \<le> length rest"
  shows "encLoop (pre @ t @ rest) (length pre) start avc =
    (if rest = [] then encLoop (pre @ t) (length (pre @ t)) start avc
     else encLoop (pre @ t @ rest) (length (pre @ t)) start avc)"
  using assms
proof (induction t arbitrary: pre)
  case (Cons x t)
  have s: "sepAt (pre @ (x # t) @ rest) (length pre) =
      (if 4 \<le> length ((x # t) @ rest) then None else Some 0)"
    using Cons.prems by (intro sepAt_clean) auto
  show ?case
  proof (cases "4 \<le> length ((x # t) @ rest)")
    case True
    with s have step: "encLoop (pre @ (x # t) @ rest) (length pre) start avc =
        encLoop ((pre @ [x]) @ t @ rest) (length (pre @ [x])) start avc"
      by (subst encLoop.simps) simp
    show ?thesis
    proof (cases "t = []")
      case True
      with step show ?thesis by simp
    next
      case False
      have "\<not> contains t [0, 0, 1]" using Cons.prems(2) by auto
      then show ?thesis
        using Cons.IH [of "pre @ [x]"] Cons.prems step False by simp
    qed
  next
    case False
    then have r: "rest = []" using Cons.prems(3) by auto
    have e: "sepAt (pre @ x # t) (length (pre @ x # t)) = Some 0" by (simp add: sepAt_def)
    from s False r have "sepAt (pre @ x # t) (length pre) = Some 0" by simp
    with e r show ?thesis by (simp add: encLoop.simps [of "pre @ x # t"] Let_def)
  qed
qed simp

lemma annexb_stream_long:
  "us \<noteq> [] \<Longrightarrow> \<forall>(l, n) \<in> set us. n \<noteq> [] \<Longrightarrow> 4 \<le> length (annexb_stream us)"
proof (cases us)
  case (Cons u us')
  assume "\<forall>(l, n) \<in> set us. n \<noteq> []"
  with Cons obtain l n where u: "u = (l, n)" "n \<noteq> []" by (cases u) auto
  then have "1 \<le> length n" by (cases n) auto
  with u Cons show ?thesis by (simp add: separator_def)
qed simp

definition wanted :: "(bool \<times> bytes) list \<Rightarrow> bytes list" where
  "wanted us = filter (\<lambda>n. \<not> isAUD (hd n)) (map snd us)"

lemma wanted_simps [simp]:
  "wanted [] = []"
  "wanted ((l, n) # us) = (if isAUD (hd n) then wanted us else n # wanted us)"
  by (simp_all add: wanted_def)

text \<open>The loop behind the first byte of a unit: \<open>start\<close> says whether the unit is kept.\<close>

lemma encLoop_unit:
  assumes "clean n" "\<forall>(l, n) \<in> set us. clean n" "pre \<noteq> []" "start = 0 \<or> start = length pre"
  shows "encLoop (pre @ n @ annexb_stream us) (Suc (length pre)) start avc =
    avc @ (if start = 0 then [] else unit_bytes n) @ avcc_units (wanted us)"
  using assms
proof (induction us arbitrary: pre n start avc)
  case Nil
  obtain x t where n: "n = x # t" using Nil(1) by (cases n) (auto simp: clean_def)
  have "encLoop ((pre @ [x]) @ t @ []) (length (pre @ [x])) start avc =
      encLoop ((pre @ [x]) @ t) (length ((pre @ [x]) @ t)) start avc"
  proof (cases "t = []")
    case False
    then show ?thesis
      using encLoop_walk [of t "[]" "pre @ [x]"] clean_suffix [OF Nil(1), of t "[x]"] n by simp
  qed simp
  moreover have "sepAt (pre @ n) (length (pre @ n)) = Some 0" by (simp add: sepAt_def)
  ultimately show ?case
    using Nil(3,4) n
    by (auto simp: encLoop.simps [of "pre @ x # t" "Suc (length pre + length t)"] unit_bytes_def)
next
  case (Cons u us)
  obtain l m where u: "u = (l, m)" by (cases u)
  obtain x t where n: "n = x # t" using Cons(2) by (cases n) (auto simp: clean_def)
  let ?rest = "annexb_stream (u # us)"
  have m: "clean m" "m \<noteq> []" using Cons(3) u by (auto simp: clean_def)
  have long: "4 \<le> length ?rest"
    using annexb_stream_long [of "u # us"] Cons(3) by (force simp: clean_def)
  have walk: "encLoop ((pre @ [x]) @ t @ ?rest) (length (pre @ [x])) start avc =
      encLoop ((pre @ [x]) @ t @ ?rest) (length ((pre @ [x]) @ t)) start avc"
  proof (cases "t = []")
    case False
    then show ?thesis
      using encLoop_walk [of t ?rest "pre @ [x]"] clean_suffix [OF Cons(2), of t "[x]"] n long
      by (cases "?rest = []") auto
  qed simp
  let ?a = "(pre @ n) @ separator l @ m @ annexb_stream us"
  let ?i = "length (pre @ n) + length (separator l)"
  let ?avc = "avc @ (if start = 0 then [] else unit_bytes n)"
  have sep: "sepAt ?a (length (pre @ n)) = Some (length (separator l))"
    using sepAt_separator [OF m(2)] .
  have len: "length (separator l) \<noteq> 0" by (simp add: separator_def)
  have at: "?a ! ?i = hd m" using m(2) by (cases m) (simp_all add: nth_append)
  have cut: "take (length (pre @ n) - start) (drop start ?a) = n"
    "length (pre @ n) - start = length n" if "start = length pre"
    using that by simp_all
  have avc1: "(if start \<noteq> 0 then avc @ be32 (of_nat (length (pre @ n) - start)) @
      take (length (pre @ n) - start) (drop start ?a) else avc) = ?avc"
    using Cons.prems(4) cut by (auto simp: unit_bytes_def)
  have ne: "?i \<noteq> length ?a" using m(2) by simp
  have step: "encLoop ?a (length (pre @ n)) start avc =
      (if isAUD (hd m) then encLoop ?a (Suc ?i) 0 ?avc else encLoop ?a (Suc ?i) ?i ?avc)"
    unfolding encLoop.simps [of ?a "length (pre @ n)"] sep option.case Let_def
    using len ne by (simp only: if_False avc1 at)
  let ?p = "pre @ n @ separator l"
  have p: "?a = ?p @ m @ annexb_stream us" "?i = length ?p" "?p \<noteq> []"
    using Cons.prems(3) by simp_all
  have "encLoop ?a (Suc ?i) s ?avc = ?avc @ (if s = 0 then [] else unit_bytes m) @ avcc_units (wanted us)"
    if "s = 0 \<or> s = ?i" for s
    unfolding p(1,2) using Cons.IH [of m ?p s ?avc] m(1) Cons.prems(2,3) that p by auto
  from this [of 0] this [of ?i] step p(3) walk show ?case
    using n u by (simp add: separator_def)
qed

lemma EncodeToAVCC_stream:
  assumes "\<forall>(l, n) \<in> set us. clean n"
  shows "EncodeToAVCC (annexb_stream us) = avcc_units (wanted us)"
proof (cases us)
  case Nil
  then show ?thesis by (simp add: EncodeToAVCC_def encLoop.simps sepAt_def)
next
  case (Cons u us')
  obtain l n where u: "u = (l, n)" by (cases u)
  have n: "clean n" "n \<noteq> []" using assms Cons u by (auto simp: clean_def)
  have at: "(separator l @ n @ annexb_stream us') ! length (separator l) = hd n"
    using n(2) by (cases n) (simp_all add: nth_append)
  have sep: "sepAt (separator l @ n @ annexb_stream us') 0 = Some (length (separator l))"
    using sepAt_separator [OF n(2), of "[]"] by simp
  have "length (separator l) \<noteq> 0" "separator l \<noteq> []" by (simp_all add: separator_def)
  moreover have "encLoop (separator l @ n @ annexb_stream us') (Suc (length (separator l))) s [] =
      (if s = 0 then [] else unit_bytes n) @ avcc_units (wanted us')"
    if "s = 0 \<or> s = length (separator l)" for s
    using encLoop_unit [of n us' "separator l" s "[]"] n assms Cons that calculation(2) by simp
  ultimately show ?thesis
    using n(2) Cons u by (simp add: EncodeToAVCC_def encLoop.simps [of _ 0] sep at)
qed

subsection \<open>Walks over the units of a buffer\<close>

definition small :: "bytes \<Rightarrow> bool" where
  "small n \<longleftrightarrow> length n < 2 ^ 32"

lemma unit_size: "small n \<Longrightarrow> unat (get_be32 (unit_bytes n @ r)) = length n"
  by (simp add: unit_bytes_def small_def unsigned_of_nat take_bit_nat_eq_self)

lemma length_unit_bytes [simp]: "length (unit_bytes n) = 4 + length n"
  by (simp add: unit_bytes_def)

lemma decLoop_units:
  "\<forall>n \<in> set ns. small n \<Longrightarrow>
   decLoop (length pre) (pre @ avcc_units ns) = Some (pre @ concat (map ((@) [0, 0, 0, 1]) ns))"
proof (induction ns arbitrary: pre)
  case Nil
  then show ?case by (simp add: decLoop.simps)
next
  case (Cons n ns)
  have c: "go_copy (pre @ unit_bytes n @ avcc_units ns) (length pre) [0, 0, 0, 1] =
      (pre @ [0, 0, 0, 1] @ n) @ avcc_units ns"
    using go_copy_fit [of pre "length pre" "be32 (of_nat (length n))" "[0, 0, 0, 1]" "n @ avcc_units ns"]
    by (simp add: unit_bytes_def)
  have sz: "unat (get_be32 (unit_bytes n @ avcc_units ns)) = length n"
    using Cons.prems by (simp add: unit_size)
  have "decLoop (length pre) (pre @ avcc_units (n # ns)) =
      decLoop (length (pre @ [0, 0, 0, 1] @ n)) ((pre @ [0, 0, 0, 1] @ n) @ avcc_units ns)"
    by (subst decLoop.simps) (simp add: sz c [simplified] Let_def numeral_eq_Suc)
  then show ?case using Cons.IH [of "pre @ [0, 0, 0, 1] @ n"] Cons.prems by simp
qed

lemma DecodeAVCC_units:
  "\<forall>n \<in> set ns. small n \<Longrightarrow> DecodeAVCC (avcc_units ns) = Some (concat (map ((@) [0, 0, 0, 1]) ns))"
  using decLoop_units [of ns "[]"] by (simp add: DecodeAVCC_def)

text \<open>In a clean unit followed by a long separator, the separator is the first one.\<close>

lemma clean_no_long:
  assumes "clean n" "k < length n"
  shows "\<not> is_prefix [0, 0, 0, 1] (drop k n @ r)"
proof -
  have d: "drop k n \<noteq> []" "n = take k n @ drop k n" using assms(2) by simp_all
  note s = clean_suffix [OF assms(1) d]
  obtain x t where t: "drop k n = x # t" using d(1) by (cases "drop k n") auto
  consider "t = []" | y where "t = [y]" | y z where "t = [y, z]" | y z w u where "t = y # z # w # u"
    by (metis list.exhaust)
  then show ?thesis by cases (use s t in auto)
qed

lemma index_of_clean:
  assumes "clean n"
  shows "index_of (n @ [0, 0, 0, 1] @ r) [0, 0, 0, 1] = Some (length n)"
    and "index_of n [0, 0, 0, 1] = None"
proof -
  show "index_of (n @ [0, 0, 0, 1] @ r) [0, 0, 0, 1] = Some (length n)"
    using clean_no_long [OF assms] by (intro index_of_found) simp_all
  have "\<not> contains n [0, 0, 0, 1]"
  proof
    assume "contains n [0, 0, 0, 1]"
    then obtain as bs where "n = (as @ [0]) @ [0, 0, 1] @ bs" by (auto simp: contains_iff)
    then have "contains n [0, 0, 1]" unfolding contains_iff by blast
    with assms show False by (simp add: clean_def)
  qed
  then show "index_of n [0, 0, 0, 1] = None" by (simp add: index_of_None)
qed

lemma fixLoop_units:
  assumes "\<forall>n \<in> set ns. clean n"
  shows "fixLoop (length pre) (pre @ concat (map ((@) [0, 0, 0, 1]) ns)) = pre @ avcc_units ns"
  using assms
proof (induction ns arbitrary: pre)
  case Nil
  then show ?case by (simp add: fixLoop.simps)
next
  case (Cons n ns)
  let ?t = "concat (map ((@) [0, 0, 0, 1]) ns)" and ?h = "[0, 0, 0, 1] :: bytes"
  have n: "clean n" "n \<noteq> []" using Cons.prems by (auto simp: clean_def)
  have sz: "(case index_of (n @ ?t) ?h of Some k \<Rightarrow> k | None \<Rightarrow> length (n @ ?t)) = length n"
  proof (cases ns)
    case Nil
    then show ?thesis using index_of_clean(2) [OF n(1)] by simp
  next
    case (Cons m ms)
    then show ?thesis using index_of_clean(1) [OF n(1)] by simp
  qed
  have c: "go_copy (pre @ ?h @ n @ ?t) (length pre) (be32 (of_nat (length n))) =
      (pre @ unit_bytes n) @ ?t"
    using go_copy_fit [of pre "length pre" ?h "be32 (of_nat (length n))" "n @ ?t"]
    by (simp add: unit_bytes_def)
  have d: "drop (length pre + 4) (pre @ ?h @ n @ ?t) = n @ ?t" by simp
  have l: "length (pre @ ?h @ n @ ?t) - (length pre + 4) = length (n @ ?t)" by simp
  have g: "length pre < length (pre @ ?h @ n @ ?t) \<and> \<not> length pre + 4 \<ge> length (pre @ ?h @ n @ ?t)"
    using n(2) by simp
  have "fixLoop (length pre) (pre @ ?h @ n @ ?t) =
      fixLoop (length (pre @ unit_bytes n)) ((pre @ unit_bytes n) @ ?t)"
    unfolding fixLoop.simps [of "length pre" "pre @ ?h @ n @ ?t"] d l sz Let_def
    using g by (simp add: c [simplified] ac_simps)
  moreover have "fixLoop (length (pre @ unit_bytes n)) ((pre @ unit_bytes n) @ ?t) =
      (pre @ unit_bytes n) @ avcc_units ns"
    by (rule Cons.IH) (use Cons.prems in simp)
  ultimately show ?case by (simp only: list.map concat.simps append_assoc avcc_units_simps)
qed

lemma FixAnnexBInAVCC_units:
  "\<forall>n \<in> set ns. clean n \<Longrightarrow> FixAnnexBInAVCC (concat (map ((@) [0, 0, 0, 1]) ns)) = avcc_units ns"
  using fixLoop_units [of ns "[]"] by (simp add: FixAnnexBInAVCC_def)

lemma annexb_stream_longs: "annexb_stream (map (Pair True) ns) = concat (map ((@) [0, 0, 0, 1]) ns)"
  by (induction ns) (simp_all add: separator_def)

text \<open>The first unit that is a slice decides whether the access unit is a key frame.\<close>

fun first_slice :: "(bytes \<Rightarrow> bool option) \<Rightarrow> bytes list \<Rightarrow> bool" where
  "first_slice f [] = False"
| "first_slice f (n # ns) = (case f n of Some v \<Rightarrow> v | None \<Rightarrow> first_slice f ns)"

definition h264_slice :: "bytes \<Rightarrow> bool option" where
  "h264_slice n = (let t = hd n AND 0x1F in
     if t = 1 then Some False else if t = 5 then Some True else None)"

definition h265_slice :: "bytes \<Rightarrow> bool option" where
  "h265_slice n = (let t = drop_bit 1 (hd n) AND 0x3F in
     if t = 1 then Some False else if t \<in> {19, 20, 21} then Some True else None)"

lemma NALUType_unit:
  "n \<noteq> [] \<Longrightarrow> h264NALUType (unit_bytes n @ r) = Some (hd n AND 0x1F)"
  "n \<noteq> [] \<Longrightarrow> h265NALUType (unit_bytes n @ r) = Some (drop_bit 1 (hd n) AND 0x3F)"
  by (cases n; simp add: h264NALUType_def h265NALUType_def unit_bytes_def nth_append)+

lemma avcc_units_Nil: "avcc_units ns = [] \<longleftrightarrow> ns = []"
  by (cases ns) (auto simp: unit_bytes_def)

lemma h264IsKeyframe_units:
  "ns \<noteq> [] \<Longrightarrow> \<forall>n \<in> set ns. n \<noteq> [] \<and> small n \<Longrightarrow>
   h264IsKeyframe (avcc_units ns) = Some (first_slice h264_slice ns)"
proof (induction ns)
  case (Cons n ns)
  then show ?case
    by (cases "ns = []")
      (simp_all add: h264IsKeyframe.simps [of "unit_bytes n @ avcc_units ns"]
        h264IsKeyframe.simps [of "unit_bytes n"] NALUType_unit NALUType_unit(1) [where r = "[]", simplified]
        unit_size unit_size [where r = "[]", simplified] h264_slice_def Let_def avcc_units_Nil)
qed simp

lemma h265IsKeyframe_units:
  "ns \<noteq> [] \<Longrightarrow> \<forall>n \<in> set ns. n \<noteq> [] \<and> small n \<Longrightarrow>
   h265IsKeyframe (avcc_units ns) = Some (first_slice h265_slice ns)"
proof (induction ns)
  case (Cons n ns)
  then show ?case
    by (cases "ns = []")
      (simp_all add: h265IsKeyframe.simps [of "unit_bytes n @ avcc_units ns"]
        h265IsKeyframe.simps [of "unit_bytes n"] NALUType_unit NALUType_unit(2) [where r = "[]", simplified]
        unit_size unit_size [where r = "[]", simplified] h265_slice_def Let_def avcc_units_Nil)
qed simp

lemma h265Types_units:
  "ns \<noteq> [] \<Longrightarrow> \<forall>n \<in> set ns. n \<noteq> [] \<and> small n \<Longrightarrow>
   h265Types (avcc_units ns) = Some (map (\<lambda>n. drop_bit 1 (hd n) AND 0x3F) ns)"
proof (induction ns)
  case (Cons n ns)
  then show ?case
    by (cases "ns = []")
      (simp_all add: h265Types.simps [of "unit_bytes n @ avcc_units ns"]
        h265Types.simps [of "unit_bytes n"] NALUType_unit NALUType_unit(2) [where r = "[]", simplified]
        unit_size unit_size [where r = "[]", simplified] Let_def avcc_units_Nil)
qed simp

subsection \<open>Results\<close>



text \<open>
  On a stream of 4-byte separators without delimiters, \<open>FixAnnexBInAVCC\<close>, which
  rewrites the separators in place, gives what \<open>EncodeToAVCC\<close> builds anew.
\<close>

lemma annexb_fix_is_encode:
  assumes "\<forall>n \<in> set ns. clean n \<and> \<not> isAUD (hd n)"
  shows "FixAnnexBInAVCC (annexb_stream (map (Pair True) ns))
    = EncodeToAVCC (annexb_stream (map (Pair True) ns))"
proof -
  have "wanted (map (Pair True) ns) = ns" using assms by (induction ns) auto
  moreover have "EncodeToAVCC (annexb_stream (map (Pair True) ns)) = avcc_units (wanted (map (Pair True) ns))"
    using assms by (intro EncodeToAVCC_stream) auto
  moreover have "FixAnnexBInAVCC (annexb_stream (map (Pair True) ns)) = avcc_units ns"
    unfolding annexb_stream_longs using assms by (intro FixAnnexBInAVCC_units) simp
  ultimately show ?thesis by simp
qed

text \<open>
  The key frame tests on the buffer that \<open>EncodeToAVCC\<close> makes of a stream with at least one unit that
  is not a delimiter never index out of range, and answer by the first slice of the stream.
\<close>

lemma annexb_keyframe:
  assumes "\<forall>(l, n) \<in> set us. clean n \<and> small n" "wanted us \<noteq> []"
  shows "h264IsKeyframe (EncodeToAVCC (annexb_stream us)) = Some (first_slice h264_slice (wanted us)) \<and>
    h265IsKeyframe (EncodeToAVCC (annexb_stream us)) = Some (first_slice h265_slice (wanted us))"
proof -
  have e: "EncodeToAVCC (annexb_stream us) = avcc_units (wanted us)"
    using assms(1) by (intro EncodeToAVCC_stream) auto
  have "\<forall>n \<in> set (wanted us). n \<noteq> [] \<and> small n"
    using assms(1) by (auto simp: wanted_def clean_def)
  then show ?thesis
    unfolding e using assms(2) by (simp add: h264IsKeyframe_units h265IsKeyframe_units)
qed

end
