(* ===== verification/Opus.thy ===== *)
theory Opus
  imports Prelude
begin

section \<open>Opus packets\<close>

text \<open>
  Models \<open>pkg/opus/opus.go\<close> and the repacking of \<open>pkg/opus/homekit.go\<close>. The specification is the
  packet format of RFC 6716, section 3: \<open>opus_frames\<close> is the list of frames of a packet.
  \<open>None\<close> is a panic (an index or slice out of range) in the code and a malformed packet in the
  specification.
\<close>

subsection \<open>The code\<close>

datatype opus_mode = Silk | Hybrid | Celt

record opus_header =
  opusMode :: opus_mode
  opusRate :: u16
  opusFrameSize :: int
  opusChannels :: u8
  opusCount :: u8

definition parseMode :: "u8 \<Rightarrow> opus_mode" where
  "parseMode config = (if config \<le> 11 then Silk else if config \<le> 15 then Hybrid else Celt)"

definition parseSampleRate :: "u8 \<Rightarrow> u16" where
  "parseSampleRate config =
     (if config \<in> {0, 1, 2, 3, 16, 17, 18, 19} then 8000
      else if config \<in> {4, 5, 6, 7} then 12000
      else if config \<in> {8, 9, 10, 11, 20, 21, 22, 23} then 16000
      else if config \<in> {12, 13, 24, 25, 26, 27} then 24000
      else if config \<in> {14, 15, 28, 29, 30, 31} then 48000
      else 0)"

definition parseFrameSize :: "u8 \<Rightarrow> int" where
  "parseFrameSize config =
     (if config \<in> {0, 4, 8, 12, 14, 18, 22, 26, 30} then 10000000
      else if config \<in> {1, 5, 9, 13, 15, 19, 23, 27, 31} then 20000000
      else if config \<in> {2, 6, 10} then 40000000
      else if config \<in> {3, 7, 11} then 60000000
      else if config \<in> {16, 20, 24, 28} then 2500000
      else if config \<in> {17, 21, 25, 29} then 5000000
      else 0)"

definition parseChannels :: "u8 \<Rightarrow> u8" where
  "parseChannels s = (if s = 1 then 2 else 1)"

definition parseFrames :: "u8 \<Rightarrow> u8" where
  "parseFrames c = (if c = 0 then 1 else if c = 1 \<or> c = 2 then 2 else 0xFF)"

definition UnmarshalHeader :: "bytes \<Rightarrow> opus_header option" where
  "UnmarshalHeader b =
     (case b of
        [] \<Rightarrow> None
      | b0 # _ \<Rightarrow>
          let config = drop_bit 3 b0 in
          Some \<lparr>opusMode = parseMode config, opusRate = parseSampleRate config,
                opusFrameSize = parseFrameSize config,
                opusChannels = parseChannels (drop_bit 2 b0 AND 1),
                opusCount = parseFrames (b0 AND 3)\<rparr>)"

text \<open>The size of a frame as both repacking functions write it.\<close>

definition sizeBytes :: "nat \<Rightarrow> bytes" where
  "sizeBytes sz =
     (if sz \<ge> 252 then
        (let b0 = 252 + (of_nat sz AND 3) in [b0, of_nat (sz div 4) - b0])
      else [of_nat sz])"

definition JoinFrames :: "bytes \<Rightarrow> bytes \<Rightarrow> bytes option" where
  "JoinFrames b1 b2 =
     (case (b1, b2) of
        (x1 # t1, x2 # t2) \<Rightarrow>
          if x1 AND 3 \<noteq> 0 \<or> x2 AND 3 \<noteq> 0 then Some (b1 @ b2)
          else if length t1 = length t2 then Some ((x1 OR 1) # t1 @ t2)
          else Some ((x1 OR 2) # sizeBytes (length t1) @ t1 @ t2)
      | (x1 # t1, []) \<Rightarrow> if x1 AND 3 \<noteq> 0 then Some (b1 @ b2) else None
      | _ \<Rightarrow> None)"

text \<open>\<open>repackToHAP20\<close> and \<open>repackToHAP60\<close> are closures: their variables are the state.\<close>

definition timestamp20 :: u32 where "timestamp20 = 320"
definition timestamp60 :: u32 where "timestamp60 = 960"

definition repackToHAP20 :: "u32 \<Rightarrow> rtp_packet \<Rightarrow> u32 \<times> rtp_packet" where
  "repackToHAP20 timestamp pkt =
     (let t = timestamp + timestamp20 in (t, pkt\<lparr>rtpTS := t\<rparr>))"

record hap60 =
  hapSeq :: u16
  hapTS :: u32
  framesCount :: u8
  framesSize :: bytes
  framesData :: bytes

definition hap60_init :: hap60 where
  "hap60_init = \<lparr>hapSeq = 0, hapTS = 0, framesCount = 0, framesSize = [], framesData = []\<rparr>"

definition repackToHAP60 :: "hap60 \<Rightarrow> rtp_packet \<Rightarrow> (hap60 \<times> rtp_packet option) option" where
  "repackToHAP60 s pkt =
     (case rtpPayload pkt of
        [] \<Rightarrow> None
      | toc # rest \<Rightarrow>
          let s1 = s\<lparr>framesData := framesData s @ rest, framesCount := framesCount s + 1\<rparr> in
          if framesCount s1 < 3 then
            Some (s1\<lparr>framesSize := framesSize s1 @ sizeBytes (length rest)\<rparr>, None)
          else
            let pl = [toc OR 3, 0x83] @ framesSize s1 @ framesData s1;
                s2 = s1\<lparr>hapSeq := hapSeq s1 + 1, hapTS := hapTS s1 + timestamp60\<rparr>;
                clone = pkt\<lparr>rtpPayload := pl, rtpSeq := hapSeq s2, rtpTS := hapTS s2\<rparr>
            in Some (s2\<lparr>framesCount := 0, framesSize := [], framesData := []\<rparr>, Some clone))"

subsection \<open>The packet format\<close>

text \<open>A frame length: one byte below 252, else two bytes \<open>b0\<close>, \<open>b1\<close> for \<open>4 * b1 + b0\<close>.\<close>

fun frame_len :: "bytes \<Rightarrow> (nat \<times> bytes) option" where
  "frame_len (b0 # r) =
     (if unat b0 < 252 then Some (unat b0, r)
      else case r of [] \<Rightarrow> None | b1 # r' \<Rightarrow> Some (4 * unat b1 + unat b0, r'))"
| "frame_len [] = None"

fun cut_frames :: "nat list \<Rightarrow> bytes \<Rightarrow> bytes list option" where
  "cut_frames [] r = Some [r]"
| "cut_frames (k # ks) r =
     (if length r < k then None else map_option ((#) (take k r)) (cut_frames ks (drop k r)))"

fun frame_lens :: "nat \<Rightarrow> bytes \<Rightarrow> (nat list \<times> bytes) option" where
  "frame_lens 0 r = Some ([], r)"
| "frame_lens (Suc n) r =
     (case frame_len r of
        None \<Rightarrow> None
      | Some (k, r') \<Rightarrow> map_option (\<lambda>(ks, r''). (k # ks, r'')) (frame_lens n r'))"

text \<open>Codes 0, 1 and 2, and code 3 with variable sizes and no padding.\<close>

definition opus_frames :: "bytes \<Rightarrow> bytes list option" where
  "opus_frames p =
     (case p of
        [] \<Rightarrow> None
      | toc # r \<Rightarrow>
          if toc AND 3 = 0 then Some [r]
          else if toc AND 3 = 1 then
            (if even (length r) then Some [take (length r div 2) r, drop (length r div 2) r] else None)
          else if toc AND 3 = 2 then
            (case frame_lens 1 r of None \<Rightarrow> None | Some (ks, r') \<Rightarrow> cut_frames ks r')
          else
            (case r of
               [] \<Rightarrow> None
             | m # r1 \<Rightarrow>
                 if m AND 0xC0 = 0x80 \<and> m AND 0x3F \<noteq> 0 then
                   (case frame_lens (unat (m AND 0x3F) - 1) r1 of
                      None \<Rightarrow> None | Some (ks, r') \<Rightarrow> cut_frames ks r')
                 else None))"

subsection \<open>Frame sizes\<close>

lemma unat_of_nat_u8: "n < 256 \<Longrightarrow> unat (of_nat n :: u8) = n"
  by (simp add: unsigned_of_nat take_bit_nat_eq_self)

lemma frame_len_small: "sz < 252 \<Longrightarrow> frame_len (sizeBytes sz @ r) = Some (sz, r)"
  by (simp add: sizeBytes_def unat_of_nat_u8)

lemma bit_3 [simp]: "bit (3 :: int) n \<longleftrightarrow> n = 0 \<or> n = 1"
proof -
  have "(3 :: int) = 1 OR 2" by simp
  then show ?thesis by (simp only: bit_or_iff bit_1_iff bit_2_iff) auto
qed

lemma and3_zero: fixes x :: u8 shows "x AND 3 = 0 \<longleftrightarrow> \<not> bit x 0 \<and> \<not> bit x 1"
proof
  assume "x AND 3 = 0"
  then have "\<not> bit (x AND 3) 0" "\<not> bit (x AND 3) 1" by simp_all
  then show "\<not> bit x 0 \<and> \<not> bit x 1" by (simp add: bit_and_iff)
qed (auto intro!: bit_word_eqI simp: bit_and_iff)

lemma toc_codes:
  fixes x :: u8
  shows "x AND 3 = 0 \<Longrightarrow> (x OR 1) AND 3 = 1" "x AND 3 = 0 \<Longrightarrow> (x OR 2) AND 3 = 2" "(x OR 3) AND 3 = 3"
  unfolding and3_zero
  by (rule bit_word_eqI, auto simp: bit_and_iff bit_or_iff bit_1_iff bit_2_iff)+

text \<open>A size of 252 and more is never written as the format reads it.\<close>

lemma frame_len_large:
  assumes "252 \<le> sz" "sz \<le> 1275" "frame_len (sizeBytes sz @ r) = Some (k, r')"
  shows "k \<noteq> sz"
proof -
  let ?q = "sz div 4" and ?m = "sz mod 4"
  have m: "of_nat sz AND 3 = (of_nat ?m :: u8)"
  proof -
    have "(of_nat sz :: u8) AND 3 = take_bit 2 (of_nat sz)"
      by (simp add: take_bit_eq_mask mask_eq_exp_minus_1)
    also have "\<dots> = of_nat (take_bit 2 sz)" by (simp add: take_bit_of_nat)
    finally show ?thesis by (simp add: take_bit_eq_mod)
  qed
  define c :: u8 where "c = 252 + of_nat ?m"
  have c: "c = of_nat (252 + ?m)" by (simp add: c_def)
  have u0: "unat c = 252 + ?m" unfolding c by (rule unat_of_nat_u8) simp
  have u1: "int (unat (of_nat ?q - c)) = (int ?q - 252 - int ?m) mod 256"
  proof -
    have "of_nat ?q - c = of_int (int ?q - 252 - int ?m)" by (simp add: c)
    then show ?thesis by (simp only: uint_nat [symmetric] unsigned_of_int take_bit_eq_mod) simp
  qed
  have "k = 4 * unat (of_nat ?q - c) + (252 + ?m)"
    using assms(1,3) unfolding sizeBytes_def Let_def m c_def [symmetric] by (simp add: u0)
  then have "int k = 4 * ((int ?q - 252 - int ?m) mod 256) + 252 + int ?m" using u1 by linarith
  moreover have "int sz = 4 * int ?q + int ?m" by presburger
  moreover have "256 dvd (int ?q - 252 - int ?m) - (int ?q - 252 - int ?m) mod 256"
    by (rule dvd_minus_mod)
  moreover have "(int ?q - 252 - int ?m) - (int ?q - 63) = - (189 + int ?m)" by simp
  ultimately have "256 dvd 189 + int ?m" if "k = sz"
  proof -
    have "(int ?q - 252 - int ?m) mod 256 = int ?q - 63"
      using that \<open>int k = _\<close> \<open>int sz = _\<close> by linarith
    with \<open>256 dvd _ - _\<close> \<open>_ = - (189 + int ?m)\<close> show ?thesis by (metis dvd_minus_iff)
  qed
  moreover have "\<not> 256 dvd 189 + int ?m"
  proof -
    have "0 \<le> int ?m" "int ?m < 4" by simp_all
    then show ?thesis by presburger
  qed
  ultimately show ?thesis by blast
qed

lemma frame_len_iff:
  assumes "sz \<le> 1275"
  shows "frame_len (sizeBytes sz @ r) = Some (sz, r) \<longleftrightarrow> sz < 252"
  using assms frame_len_small [of sz r] frame_len_large [of sz r] by force

lemma length_sizeBytes: "length (sizeBytes sz) = (if sz \<ge> 252 then 2 else 1)"
  by (simp add: sizeBytes_def Let_def)

lemma sizeBytes_head: "252 \<le> sz \<Longrightarrow> \<not> unat (hd (sizeBytes sz)) < 252"
proof -
  assume "252 \<le> sz"
  have "of_nat sz AND 3 = (of_nat (sz mod 4) :: u8)"
  proof -
    have "(of_nat sz :: u8) AND 3 = take_bit 2 (of_nat sz)"
      by (simp add: take_bit_eq_mask mask_eq_exp_minus_1)
    also have "\<dots> = of_nat (take_bit 2 sz)" by (simp add: take_bit_of_nat)
    finally show ?thesis by (simp add: take_bit_eq_mod)
  qed
  then have "hd (sizeBytes sz) = of_nat (252 + sz mod 4)"
    using \<open>252 \<le> sz\<close> by (simp add: sizeBytes_def Let_def)
  then show ?thesis by (simp only:) (subst unat_of_nat_u8, simp_all)
qed

text \<open>Whatever the size, the format reads some length and goes on behind it.\<close>

lemma frame_len_sizeBytes: "\<exists>k. frame_len (sizeBytes sz @ r) = Some (k, r)"
proof (cases "sz < 252")
  case True
  then show ?thesis by (simp add: frame_len_small)
next
  case False
  then obtain a b where s: "sizeBytes sz = [a, b]" by (simp add: sizeBytes_def Let_def)
  then show ?thesis using sizeBytes_head [of sz] False by simp
qed

subsection \<open>Results\<close>

text \<open>
  Joining two one-frame packets gives a packet whose frames are those two, with the
  configuration and channel bits of the first, exactly when the frames are equally long or the
  first is shorter than 252 bytes. From 252 bytes on the code writes the second length byte as
  \<open>size / 4 - b0\<close> instead of \<open>(size - b0) / 4\<close>, and a decoder cuts the frames elsewhere.
\<close>

lemma opus_join_frames:
  assumes "x1 AND 3 = 0" "x2 AND 3 = 0" "length t1 \<le> 1275"
  shows "\<exists>p. JoinFrames (x1 # t1) (x2 # t2) = Some p \<and> drop_bit 2 (hd p) = drop_bit 2 x1 \<and>
    (opus_frames p = Some [t1, t2] \<longleftrightarrow> length t1 = length t2 \<or> length t1 < 252)"
proof (cases "length t1 = length t2")
  case True
  have "drop_bit 2 (x1 OR 1) = drop_bit 2 x1" by (rule bit_word_eqI) (auto simp: bit_simps bit_1_iff)
  with True assms show ?thesis by (simp add: JoinFrames_def opus_frames_def toc_codes)
next
  case False
  let ?p = "(x1 OR 2) # sizeBytes (length t1) @ t1 @ t2"
  have j: "JoinFrames (x1 # t1) (x2 # t2) = Some ?p"
    using False assms by (simp add: JoinFrames_def)
  have d: "drop_bit 2 (x1 OR 2) = drop_bit 2 x1" by (rule bit_word_eqI) (auto simp: bit_simps bit_2_iff)
  obtain k where k: "frame_len (sizeBytes (length t1) @ t1 @ t2) = Some (k, t1 @ t2)"
    using frame_len_sizeBytes by blast
  have f: "opus_frames ?p = cut_frames [k] (t1 @ t2)"
    using assms(1) by (simp add: opus_frames_def toc_codes k)
  have "cut_frames [k] (t1 @ t2) = Some [t1, t2] \<longleftrightarrow> k = length t1"
  proof
    assume "cut_frames [k] (t1 @ t2) = Some [t1, t2]"
    then have "take k (t1 @ t2) = t1" "\<not> length (t1 @ t2) < k" by (auto split: if_splits)
    then show "k = length t1" by (metis length_take min.absorb2 not_less)
  qed simp
  also have "k = length t1 \<longleftrightarrow> length t1 < 252"
    using frame_len_iff [OF assms(3), of "t1 @ t2"] k by auto
  finally show ?thesis using j d f False by (intro exI [of _ ?p]) simp
qed

definition feed3 :: "hap60 \<Rightarrow> rtp_packet \<Rightarrow> rtp_packet \<Rightarrow> rtp_packet \<Rightarrow> (hap60 \<times> rtp_packet option) list option"
where
  "feed3 s p q r =
     (case repackToHAP60 s p of None \<Rightarrow> None | Some (s1, o1) \<Rightarrow>
      case repackToHAP60 s1 q of None \<Rightarrow> None | Some (s2, o2) \<Rightarrow>
      case repackToHAP60 s2 r of None \<Rightarrow> None | Some (s3, o3) \<Rightarrow>
        Some [(s1, o1), (s2, o2), (s3, o3)])"

text \<open>
  From any three packets in a row, with nothing held back before, the 60 ms repacking
  forwards exactly one packet: sequence number and timestamp advance by one packet of 60 ms, the
  marker stays that of the third packet, nothing is held back afterwards, and the packet's frames
  are the three packets' contents when the first two are shorter than 252 bytes.
\<close>

lemma opus_repack60:
  assumes "rtpPayload p = x # a" "rtpPayload q = y # b" "rtpPayload r = z # c"
    and "length a < 252" "length b < 252"
    and "s = \<lparr>hapSeq = n, hapTS = t, framesCount = 0, framesSize = [], framesData = []\<rparr>"
  shows "\<exists>s1 s2 out. feed3 s p q r = Some [(s1, None), (s2, None),
      (s\<lparr>hapSeq := n + 1, hapTS := t + 960\<rparr>, Some out)] \<and>
    rtpSeq out = n + 1 \<and> rtpTS out = t + 960 \<and> rtpMarker out = rtpMarker r \<and>
    opus_frames (rtpPayload out) = Some [a, b, c]"
proof -
  have l: "frame_lens 2 (sizeBytes (length a) @ sizeBytes (length b) @ rest)
      = Some ([length a, length b], rest)" for rest
    using assms(4,5) by (simp add: numeral_2_eq_2 frame_len_small)
  have "(131 :: u8) AND 192 = 128" "(131 :: u8) AND 63 = 3" by simp_all
  then have "opus_frames ((z OR 3) # 0x83 # sizeBytes (length a) @ sizeBytes (length b) @ a @ b @ c)
      = Some [a, b, c]"
    by (simp add: opus_frames_def toc_codes l)
  then show ?thesis
    using assms by (simp add: feed3_def repackToHAP60_def timestamp60_def)
qed

end
