(* ===== verification/TutkCodec.thy ===== *)
theory TutkCodec
  imports Prelude
begin

section \<open>TUTK: obfuscation, XXTEA and message headers\<close>

text \<open>
  Models \<open>pkg/tutk/crypto.go\<close> and \<open>pkg/tutk/helpers.go\<close>: the reversible scrambling of TUTK
  packets, the two XXTEA decryption routines and the headers ICAM and HL. A slice out of range,
  which panics, is \<open>None\<close>. The destination buffers of the scrambling functions do not influence
  their result beyond the bytes that they leave as they were; the block-wise loops read a block
  before they write it, so that \<open>dst\<close> and \<open>src\<close> may be the same memory.
\<close>

subsection \<open>Scrambling\<close>

text \<open>\<open>charlie\<close>: the text \<open>Charlie is the designer of P2P!!\<close>.\<close>

definition charlie :: bytes where
  "charlie = bytes_of ''Charlie is the designer of P2P!!''"

definition rotl32 :: "u32 \<Rightarrow> int \<Rightarrow> u32" where
  "rotl32 x k = word_roti (- k) x"

text \<open>The loops over the four 32-bit words of a block.\<close>

definition map_words :: "(int \<Rightarrow> u32 \<Rightarrow> u32) \<Rightarrow> bytes \<Rightarrow> bytes" where
  "map_words f b = concat (map (\<lambda>i. le32 (f (int i) (get_le32 (drop i b)))) [0, 4, 8, 12])"

definition xor_charlie :: "bytes \<Rightarrow> bytes" where
  "xor_charlie b = map2 (XOR) b (take (length b) charlie)"

definition swap_order :: "nat \<Rightarrow> nat list" where
  "swap_order n =
     (if n = 2 then [1, 0]
      else if n = 4 then [2, 3, 0, 1]
      else if n = 8 then [7, 4, 3, 2, 1, 6, 5, 0]
      else if n = 16 then [11, 9, 8, 15, 13, 10, 12, 14, 2, 1, 5, 0, 6, 4, 7, 3]
      else [0..<n])"

text \<open>The first \<open>n\<close> bytes that \<open>swap(dst, src, n)\<close> leaves in \<open>dst\<close>.\<close>

definition swap_bytes :: "nat \<Rightarrow> bytes \<Rightarrow> bytes" where
  "swap_bytes n src = map ((!) src) (swap_order n)"

definition reverseBlock :: "bytes \<Rightarrow> bytes" where
  "reverseBlock src =
     (let tmp = map_words (\<lambda>i x. rotl32 x (i + 3)) src;
          dst = swap_bytes 16 tmp;
          tmp = xor_charlie dst
      in map_words (\<lambda>i x. rotl32 x (i + 1)) tmp)"

definition transBlock :: "bytes \<Rightarrow> bytes" where
  "transBlock src =
     (let tmp = map_words (\<lambda>i x. rotl32 x (- i - 1)) src;
          dst = xor_charlie tmp;
          tmp = swap_bytes 16 dst
      in map_words (\<lambda>i x. rotl32 x (- i - 3)) tmp)"

function reverseBytes :: "bytes \<Rightarrow> bytes" where
  "reverseBytes src =
     (if 16 \<le> length src then reverseBlock (take 16 src) @ reverseBytes (drop 16 src)
      else xor_charlie (swap_bytes (length src) src))"
  by pat_completeness auto
termination by (relation "measure length") auto

function transBytes :: "bytes \<Rightarrow> bytes" where
  "transBytes src =
     (if 16 \<le> length src then transBlock (take 16 src) @ transBytes (drop 16 src)
      else swap_bytes (length src) (xor_charlie src))"
  by pat_completeness auto
termination by (relation "measure length") auto

declare reverseBytes.simps [simp del] transBytes.simps [simp del]

definition ReverseTransCodePartial :: "bytes \<Rightarrow> bytes \<Rightarrow> bytes" where
  "ReverseTransCodePartial dst src = reverseBytes src @ drop (length src) dst"

definition TransCodePartial :: "bytes \<Rightarrow> bytes \<Rightarrow> bytes" where
  "TransCodePartial dst src = transBytes src @ drop (length src) dst"

text \<open>The two blob functions differ in the partial function and in whose header decides.\<close>

definition blobRest :: "(bytes \<Rightarrow> bytes) \<Rightarrow> bool \<Rightarrow> bytes \<Rightarrow> bytes" where
  "blobRest f partial src =
     (if length src \<le> 16 then []
      else if partial then
        (let remaining = length src - 16; n = min remaining 48
         in f (take n (drop 16 src)) @ (if remaining > 48 then drop 64 src else []))
      else f (drop 16 src))"

definition ReverseTransCodeBlob :: "bytes \<Rightarrow> bytes" where
  "ReverseTransCodeBlob src =
     (if length src < 16 then ReverseTransCodePartial [] src
      else let header = ReverseTransCodePartial [] (take 16 src)
           in header @ blobRest (ReverseTransCodePartial []) (header ! 3 AND 1 \<noteq> 0) src)"

definition TransCodeBlob :: "bytes \<Rightarrow> bytes" where
  "TransCodeBlob src =
     (if length src < 16 then TransCodePartial [] src
      else let header = TransCodePartial [] (take 16 src)
           in header @ blobRest (TransCodePartial []) (src ! 3 AND 1 \<noteq> 0) src)"

lemma length_map_words [simp]: "length (map_words f b) = 16"
  by (simp add: map_words_def)

lemma length_xor_charlie [simp]: "length b \<le> 16 \<Longrightarrow> length (xor_charlie b) = length b"
  by (simp add: xor_charlie_def charlie_def)

lemma length_swap_bytes [simp]: "length (swap_bytes n b) = n"
  by (simp add: swap_bytes_def swap_order_def)

lemma rotl32_undo: "a + b = 0 \<Longrightarrow> rotl32 (rotl32 x a) b = x"
proof -
  assume "a + b = 0"
  then have "- b + - a = 0" by simp
  then have "word_roti (- b) (word_roti (- a) x) = word_roti 0 x"
    by (simp only: word_roti_add [symmetric])
  then show ?thesis by (simp only: rotl32_def word_roti_0)
qed

lemma split_16:
  assumes "length b = 16"
  obtains b0 b1 b2 b3 b4 b5 b6 b7 b8 b9 b10 b11 b12 b13 b14 b15
  where "b = [b0, b1, b2, b3, b4, b5, b6, b7, b8, b9, b10, b11, b12, b13, b14, b15]"
  using assms by (auto simp: numeral_eq_Suc length_Suc_conv)

lemma map_words_map_words:
  "map_words f (map_words g b) = map_words (\<lambda>i x. f i (g i x)) b"
proof -
  have "get_le32 (le32 x) = x" for x using get_le32_le32 [of x "[]"] by simp
  then show ?thesis by (simp add: map_words_def)
qed

lemma le32_get_le32: "length b = 4 \<Longrightarrow> le32 (get_le32 b) = b"
proof (cases b rule: get_le32.cases)
  case (1 a ba c d r)
  then show "length b = 4 \<Longrightarrow> le32 (get_le32 b) = b"
    using be32_get_be32 [of "[d, c, ba, a]"] by (simp add: le32_def del: get_be32.simps)
qed auto

lemma get_le32_take: "4 \<le> length b \<Longrightarrow> get_le32 b = get_le32 (take 4 b)"
  by (cases b rule: get_le32.cases) auto

lemma map_words_id: "length b = 16 \<Longrightarrow> map_words (\<lambda>i x. x) b = b"
proof -
  assume l: "length b = 16"
  have p: "le32 (get_le32 (drop i b)) = take 4 (drop i b)" if "i \<le> 12" for i
    using that l get_le32_take [of "drop i b"] le32_get_le32 [of "take 4 (drop i b)"] by simp
  have "map_words (\<lambda>i x. x) b = take 4 b @ take 4 (drop 4 b) @ take 4 (drop 8 b) @ take 4 (drop 12 b)"
    by (simp add: map_words_def p p [of 0, simplified])
  also have "\<dots> = b" using l by (elim split_16) simp
  finally show ?thesis .
qed

lemma xor_charlie_twice [simp]:
  "length b \<le> 16 \<Longrightarrow> xor_charlie (xor_charlie b) = b"
  by (rule nth_equalityI) (simp_all add: xor_charlie_def charlie_def xor.assoc)

text \<open>Each order of \<open>swap\<close> is its own inverse.\<close>

lemma swap_order_invol: "k < n \<Longrightarrow> swap_order n ! (swap_order n ! k) = k"
proof -
  assume k: "k < n"
  have "\<forall>n \<in> {2, 4, 8, 16}. \<forall>k < n. swap_order n ! (swap_order n ! k) = k"
    by code_simp
  with k show ?thesis by (cases "n \<in> {2, 4, 8, 16}") (auto simp: swap_order_def)
qed

lemma swap_order_less: "k < n \<Longrightarrow> swap_order n ! k < n"
proof -
  assume k: "k < n"
  have "\<forall>n \<in> {2, 4, 8, 16}. \<forall>k < n. swap_order n ! k < n"
    by code_simp
  with k show ?thesis by (cases "n \<in> {2, 4, 8, 16}") (auto simp: swap_order_def)
qed

lemma swap_bytes_twice: "length b = n \<Longrightarrow> swap_bytes n (swap_bytes n b) = b"
proof (rule nth_equalityI)
  fix i assume l: "length b = n" and "i < length (swap_bytes n (swap_bytes n b))"
  then have i: "i < n" by simp
  have o: "length (swap_order n) = n" by (simp add: swap_order_def)
  have "swap_bytes n (swap_bytes n b) ! i = swap_bytes n b ! (swap_order n ! i)"
    using i o by (simp add: swap_bytes_def [of n "swap_bytes n b"])
  also have "\<dots> = b ! (swap_order n ! (swap_order n ! i))"
    using swap_order_less [OF i] o by (simp add: swap_bytes_def)
  finally show "swap_bytes n (swap_bytes n b) ! i = b ! i" by (simp add: swap_order_invol [OF i])
qed simp

lemma reverse_trans_block: "length b = 16 \<Longrightarrow> reverseBlock (transBlock b) = b"
proof -
  assume l: "length b = 16"
  have r: "rotl32 (rotl32 x (- i - c)) (i + c) = x" for x i c
    by (rule rotl32_undo) simp
  show ?thesis
    by (simp add: reverseBlock_def transBlock_def Let_def map_words_map_words r map_words_id
        swap_bytes_twice l)
qed

lemma trans_reverse_block: "length b = 16 \<Longrightarrow> transBlock (reverseBlock b) = b"
proof -
  assume l: "length b = 16"
  have r: "rotl32 (rotl32 x (i + c)) (- i - c) = x" for x i c
    by (rule rotl32_undo) simp
  show ?thesis
    by (simp add: reverseBlock_def transBlock_def Let_def map_words_map_words r map_words_id
        swap_bytes_twice l)
qed

lemma length_blocks [simp]:
  "length (reverseBlock b) = 16" "length (transBlock b) = 16"
  by (simp_all add: reverseBlock_def transBlock_def Let_def)

lemma length_transBytes [simp]: "length (transBytes b) = length b"
  by (induction b rule: transBytes.induct) (subst transBytes.simps, auto)

lemma length_reverseBytes [simp]: "length (reverseBytes b) = length b"
  by (induction b rule: reverseBytes.induct) (subst reverseBytes.simps, auto)

lemma reverse_trans_bytes: "reverseBytes (transBytes b) = b"
proof (induction b rule: transBytes.induct)
  case (1 b)
  show ?case
  proof (cases "16 \<le> length b")
    case True
    with 1 have "reverseBytes (transBytes (drop 16 b)) = drop 16 b" by simp
    with True show ?thesis
      by (simp add: transBytes.simps [of b] reverseBytes.simps [of "_ @ _"] reverse_trans_block)
  next
    case False
    then show ?thesis
      by (simp add: transBytes.simps [of b] reverseBytes.simps [of "swap_bytes _ _"] swap_bytes_twice)
  qed
qed

lemma trans_reverse_bytes: "transBytes (reverseBytes b) = b"
proof (induction b rule: reverseBytes.induct)
  case (1 b)
  show ?case
  proof (cases "16 \<le> length b")
    case True
    with 1 have "transBytes (reverseBytes (drop 16 b)) = drop 16 b" by simp
    with True show ?thesis
      by (simp add: reverseBytes.simps [of b] transBytes.simps [of "_ @ _"] trans_reverse_block)
  next
    case False
    then show ?thesis
      by (simp add: reverseBytes.simps [of b] transBytes.simps [of "xor_charlie _"] swap_bytes_twice)
  qed
qed

lemma blobRest_inverse:
  assumes "\<And>b. f (g b) = b" "\<And>b. length (g b) = length b" "length h = 16"
  shows "blobRest f p (h @ blobRest g p src) = drop 16 src"
proof (cases "length src \<le> 16")
  case True
  then show ?thesis using assms(3) by (simp add: blobRest_def)
next
  case False
  then have l: "length (blobRest g p src) = length src - 16"
    using assms(2) by (auto simp: blobRest_def Let_def)
  show ?thesis
  proof (cases "p \<and> length src - 16 > 48")
    case True
    have "blobRest g p src = g (take 48 (drop 16 src)) @ drop 64 src"
      using True False by (simp add: blobRest_def Let_def min_def)
    moreover have "length (g (take 48 (drop 16 src))) = 48" using True assms(2) by simp
    ultimately have "blobRest f p (h @ blobRest g p src) = take 48 (drop 16 src) @ drop 48 (drop 16 src)"
      using True False assms by (simp add: blobRest_def Let_def min_def)
    then show ?thesis by (simp only: append_take_drop_id)
  next
    case no: False
    have "blobRest g p src = g (drop 16 src)"
      using no False by (auto simp: blobRest_def Let_def min_def)
    moreover have "blobRest f p (h @ x) = f x" if "length x = length src - 16" for x
      using no False assms(3) that by (auto simp: blobRest_def Let_def min_def)
    ultimately show ?thesis using assms(1,2) by simp
  qed
qed

subsection \<open>XXTEA\<close>

definition delta :: u32 where "delta = 0x9e3779b9"

definition xxteaMX :: "u32 \<Rightarrow> u32 \<Rightarrow> u32 \<Rightarrow> nat \<Rightarrow> nat \<Rightarrow> u32 list \<Rightarrow> u32" where
  "xxteaMX sm y z p e k =
     ((drop_bit 5 z XOR push_bit 2 y) + (drop_bit 3 y XOR push_bit 4 z))
     XOR ((sm XOR y) + (k ! ((p AND 3) XOR e) XOR z))"

text \<open>The words of a slice; \<open>None\<close> when it is too short.\<close>

definition words_of :: "nat \<Rightarrow> bytes \<Rightarrow> u32 list option" where
  "words_of n b =
     (if length b < 4 * n then None else Some (map (\<lambda>i. get_le32 (drop (4 * i) b)) [0..<n]))"

definition bytes_of_words :: "u32 list \<Rightarrow> bytes" where
  "bytes_of_words v = concat (map le32 v)"

text \<open>
  \<open>XXTEADecrypt\<close>: the inner loop from \<open>i\<close> down to 0, with the running value \<open>w0\<close>, and the loop
  over the rounds.
\<close>

fun decInner :: "u32 \<Rightarrow> u32 list \<Rightarrow> nat \<Rightarrow> nat \<Rightarrow> u32 list \<Rightarrow> u32 \<Rightarrow> u32 list" where
  "decInner sm k i2 0 w w0 = w"
| "decInner sm k i2 (Suc i) w w0 =
     (let wi = w ! ((i + 3) mod 4);
          ki = k ! (i XOR i2);
          t1 = (w0 XOR sm) + (wi XOR ki);
          t2 = drop_bit 5 wi XOR push_bit 2 w0;
          t3 = drop_bit 3 w0 XOR push_bit 4 wi;
          w' = w[i := w ! i - (t1 XOR (t2 + t3))]
      in decInner sm k i2 i w' (w' ! i))"

fun decOuter :: "nat \<Rightarrow> u32 \<Rightarrow> u32 list \<Rightarrow> u32 list \<Rightarrow> u32 list" where
  "decOuter 0 sm k w = w"
| "decOuter (Suc r) sm k w =
     decOuter r (sm - delta) k (decInner sm k (unat (drop_bit 2 sm AND 3)) 4 w (w ! 0))"

definition XXTEADecrypt :: "bytes \<Rightarrow> bytes \<Rightarrow> bytes \<Rightarrow> bytes option" where
  "XXTEADecrypt dst src key =
     (case (words_of 4 src, words_of 4 key) of
        (Some w, Some k) \<Rightarrow>
          let rounds = 52 div 4 + 6 in
          if length dst < 16 then None
          else Some (bytes_of_words (decOuter rounds (of_nat rounds * delta) k w) @ drop 16 dst)
      | _ \<Rightarrow> None)"

text \<open>\<open>XXTEADecryptVar\<close>: the loop over \<open>p\<close> from \<open>n - 1\<close> down to 1, and the loop over the rounds.\<close>

fun varInner :: "u32 \<Rightarrow> nat \<Rightarrow> u32 list \<Rightarrow> nat \<Rightarrow> u32 list \<Rightarrow> u32 \<Rightarrow> u32 list \<times> u32" where
  "varInner sm e k 0 v y = (v, y)"
| "varInner sm e k (Suc q) v y =
     (let z = v ! q; v' = v[Suc q := v ! Suc q - xxteaMX sm y z (Suc q) e k]
      in varInner sm e k q v' (v' ! Suc q))"

fun varOuter :: "nat \<Rightarrow> u32 \<Rightarrow> u32 list \<Rightarrow> u32 list \<Rightarrow> u32 \<Rightarrow> u32 list" where
  "varOuter 0 sm k v y = v"
| "varOuter (Suc r) sm k v y =
     (let e = unat (drop_bit 2 sm AND 3); n = length v;
          (v1, y1) = varInner sm e k (n - 1) v y;
          z = v1 ! (n - 1);
          v2 = v1[0 := v1 ! 0 - xxteaMX sm y1 z 0 e k]
      in varOuter r (sm - delta) k v2 (v2 ! 0))"

text \<open>Go's \<open>nil\<close> for data or key that is too short is the empty list.\<close>

definition XXTEADecryptVar :: "bytes \<Rightarrow> bytes \<Rightarrow> bytes option" where
  "XXTEADecryptVar data key =
     (if length data < 8 \<or> length key < 16 then Some []
      else
        let k = map (\<lambda>i. get_le32 (drop (i * 4) key)) [0..<4];
            n = max (length data div 4) 2;
            v = map (\<lambda>i. get_le32 (drop (i * 4) data)) [0..<length data div 4]
              @ replicate (n - length data div 4) 0;
            rounds = 6 + 52 div n;
            result = bytes_of_words (varOuter rounds (of_nat rounds * delta) k v (v ! 0))
        in if length data > length result then None else Some (take (length data) result))"

text \<open>
  The reference: the encryption of Wheeler and Needham, on a list of at least two words. A step
  adds the mix of a word's neighbours to it; a round goes through all the words.
\<close>

definition nb_next :: "u32 list \<Rightarrow> nat \<Rightarrow> u32" where
  "nb_next v p = v ! (if Suc p < length v then Suc p else 0)"

definition nb_prev :: "u32 list \<Rightarrow> nat \<Rightarrow> u32" where
  "nb_prev v p = v ! (if p = 0 then length v - 1 else p - 1)"

definition enc_step :: "u32 \<Rightarrow> nat \<Rightarrow> u32 list \<Rightarrow> nat \<Rightarrow> u32 list \<Rightarrow> u32 list" where
  "enc_step sm e k p v = v[p := v ! p + xxteaMX sm (nb_next v p) (nb_prev v p) p e k]"

definition dec_step :: "u32 \<Rightarrow> nat \<Rightarrow> u32 list \<Rightarrow> nat \<Rightarrow> u32 list \<Rightarrow> u32 list" where
  "dec_step sm e k p v = v[p := v ! p - xxteaMX sm (nb_next v p) (nb_prev v p) p e k]"

definition key_index :: "u32 \<Rightarrow> nat" where
  "key_index sm = unat (drop_bit 2 sm AND 3)"

fun xxtea_encrypt :: "nat \<Rightarrow> u32 \<Rightarrow> u32 list \<Rightarrow> u32 list \<Rightarrow> u32 list" where
  "xxtea_encrypt 0 sm k v = v"
| "xxtea_encrypt (Suc r) sm k v =
     xxtea_encrypt r (sm + delta) k
       (fold (enc_step (sm + delta) (key_index (sm + delta)) k) [0..<length v] v)"

lemma length_steps [simp]:
  "length (enc_step sm e k p v) = length v" "length (dec_step sm e k p v) = length v"
  by (simp_all add: enc_step_def dec_step_def)

lemma dec_enc_step:
  assumes "2 \<le> length v" "p < length v"
  shows "dec_step sm e k p (enc_step sm e k p v) = v"
proof -
  have n: "nb_next (v[p := x]) p = nb_next v p" "nb_prev (v[p := x]) p = nb_prev v p" for x
    using assms by (auto simp: nb_next_def nb_prev_def nth_list_update)
  show ?thesis using assms by (simp add: dec_step_def enc_step_def n)
qed

lemma length_fold_steps [simp]:
  "length (fold (enc_step sm e k) ps v) = length v" "length (fold (dec_step sm e k) ps v) = length v"
  by (induction ps arbitrary: v) simp_all

lemma dec_enc_round:
  "2 \<le> length v \<Longrightarrow> \<forall>p \<in> set ps. p < length v \<Longrightarrow>
   fold (dec_step sm e k) (rev ps) (fold (enc_step sm e k) ps v) = v"
proof (induction ps arbitrary: v)
  case (Cons p ps)
  then show ?case using dec_enc_step [of v p] by simp
qed simp

text \<open>The code's inner loops are rounds of decryption steps.\<close>

lemma varInner_fold:
  assumes "Suc q \<le> length v" "y = nb_next v q" "q < length v"
  shows "varInner sm e k q v y = (let v' = fold (dec_step sm e k) (rev [1..<Suc q]) v in (v', nb_next v' 0))"
  using assms
proof (induction q arbitrary: v y)
  case 0
  then show ?case by (simp add: Let_def)
next
  case (Suc q)
  let ?v = "v[Suc q := v ! Suc q - xxteaMX sm y (v ! q) (Suc q) e k]"
  have v: "?v = dec_step sm e k (Suc q) v"
    using Suc.prems by (simp add: dec_step_def nb_prev_def)
  have "nb_next ?v q = ?v ! Suc q" using Suc.prems by (simp add: nb_next_def)
  then have "varInner sm e k q ?v (?v ! Suc q) =
      (let v' = fold (dec_step sm e k) (rev [1..<Suc q]) ?v in (v', nb_next v' 0))"
    using Suc.prems by (intro Suc.IH) simp_all
  moreover have "rev [1..<Suc (Suc q)] = Suc q # rev [1..<Suc q]" by simp
  ultimately show ?case by (simp add: v Let_def)
qed

lemma var_round:
  assumes "2 \<le> length v"
  shows "(let (v1, y1) = varInner sm e k (length v - 1) v (v ! 0); z = v1 ! (length v - 1)
          in v1[0 := v1 ! 0 - xxteaMX sm y1 z 0 e k]) = fold (dec_step sm e k) (rev [0..<length v]) v"
proof -
  obtain q where q: "length v = Suc q" "1 \<le> q" using assms by (cases "length v") auto
  have i: "varInner sm e k q v (v ! 0) =
      (let v' = fold (dec_step sm e k) (rev [1..<Suc q]) v in (v', nb_next v' 0))"
    using varInner_fold [of q v "v ! 0" sm e k] q by (auto simp: nb_next_def)
  have "rev [0..<Suc q] = rev [1..<Suc q] @ [0]" using q by (simp add: upt_rec [of 0])
  then show ?thesis
    using q by (simp add: i Let_def dec_step_def nb_prev_def)
qed

lemma varOuter_rounds:
  "2 \<le> length v \<Longrightarrow> varOuter (Suc r) sm k v (v ! 0) =
    (let v' = fold (dec_step sm (key_index sm) k) (rev [0..<length v]) v
     in varOuter r (sm - delta) k v' (v' ! 0))"
  using var_round [of v sm "key_index sm" k]
  by (simp add: Let_def key_index_def split: prod.splits)

abbreviation dec_round :: "u32 \<Rightarrow> u32 list \<Rightarrow> u32 list \<Rightarrow> u32 list" where
  "dec_round sm k v \<equiv> fold (dec_step sm (key_index sm) k) (rev [0..<length v]) v"

lemma varOuter_last:
  "2 \<le> length v \<Longrightarrow>
   varOuter (Suc r) sm k v (v ! 0) = dec_round (sm - of_nat r * delta) k (varOuter r sm k v (v ! 0)) \<and>
   length (varOuter r sm k v (v ! 0)) = length v"
proof (induction r arbitrary: sm v)
  case 0
  then show ?case by (simp only: varOuter_rounds) (simp add: Let_def)
next
  case (Suc r)
  let ?v = "dec_round sm k v"
  have l: "length ?v = length v" by simp
  have "varOuter (Suc (Suc r)) sm k v (v ! 0) = varOuter (Suc r) (sm - delta) k ?v (?v ! 0)"
    "varOuter (Suc r) sm k v (v ! 0) = varOuter r (sm - delta) k ?v (?v ! 0)"
    using varOuter_rounds [OF Suc.prems] by (simp_all only: Let_def)
  moreover have "sm - delta - of_nat r * delta = sm - of_nat (Suc r) * delta"
    by (simp add: algebra_simps)
  ultimately show ?case using Suc.IH [of ?v "sm - delta"] Suc.prems l by (simp only:)
qed

lemma varOuter_encrypt:
  "2 \<le> length v \<Longrightarrow>
   (let w = xxtea_encrypt r sm k v in varOuter r (sm + of_nat r * delta) k w (w ! 0)) = v \<and>
   length (xxtea_encrypt r sm k v) = length v"
proof (induction r arbitrary: sm v)
  case (Suc r)
  define s where "s = sm + delta"
  define v1 where "v1 = fold (enc_step s (key_index s) k) [0..<length v] v"
  define w where "w = xxtea_encrypt r s k v1"
  have l: "length v1 = length v" by (simp add: v1_def)
  have w: "xxtea_encrypt (Suc r) sm k v = w" by (simp add: w_def v1_def s_def)
  have ih: "varOuter r (s + of_nat r * delta) k w (w ! 0) = v1" "length w = length v"
    using Suc.IH [of v1 s] Suc.prems l by (simp_all add: w_def Let_def)
  have e: "sm + of_nat (Suc r) * delta = s + of_nat r * delta" by (simp add: s_def algebra_simps)
  have "varOuter (Suc r) (s + of_nat r * delta) k w (w ! 0) = dec_round s k v1"
    using varOuter_last [of w r "s + of_nat r * delta" k] Suc.prems ih by simp
  also have "\<dots> = v"
    using dec_enc_round [of v "[0..<length v]" s "key_index s" k] Suc.prems l by (simp add: v1_def)
  finally show ?case using w e ih(2) by (simp only: Let_def)
qed simp

lemma length_varOuter [simp]: "length (varOuter r sm k v y) = length v"
proof (induction r arbitrary: sm v y)
  case (Suc r)
  have "length (fst (varInner sm e k q v y)) = length v" for e q v y
    by (induction q arbitrary: v y) (simp_all add: Let_def)
  then show ?case by (simp add: Suc Let_def split: prod.splits) (metis fst_conv)
qed simp

text \<open>On four words \<open>XXTEADecrypt\<close> does the same rounds.\<close>

lemma decInner_mix:
  assumes "i < 4"
  shows "decInner sm k e (Suc i) w w0 =
    (let w' = w[i := w ! i - xxteaMX sm w0 (w ! ((i + 3) mod 4)) i e k] in decInner sm k e i w' (w' ! i))"
proof -
  have "i \<in> {0, 1, 2, 3}" using assms by auto
  then have "i AND 3 = i" by auto
  then show ?thesis by (simp only: decInner.simps xxteaMX_def Let_def xor.commute)
qed

lemma decInner_steps:
  assumes "i \<le> 4" "length w = 4" "i > 0 \<Longrightarrow> w0 = nb_next w (i - 1)"
  shows "decInner sm k e i w w0 = fold (dec_step sm e k) (rev [0..<i]) w"
  using assms
proof (induction i arbitrary: w w0)
  case (Suc i)
  have "nb_prev w i = w ! ((i + 3) mod 4)"
  proof -
    have "i \<in> {0, 1, 2, 3}" using Suc.prems(1) by auto
    then show ?thesis using Suc.prems(2) by (auto simp: nb_prev_def)
  qed
  then have w': "w[i := w ! i - xxteaMX sm w0 (w ! ((i + 3) mod 4)) i e k] = dec_step sm e k i w"
    using Suc.prems by (simp add: dec_step_def)
  have "decInner sm k e (Suc i) w w0 = decInner sm k e i (dec_step sm e k i w) (dec_step sm e k i w ! i)"
    using decInner_mix [of i sm k e w w0] Suc.prems(1) by (simp add: w' Let_def del: decInner.simps)
  also have "\<dots> = fold (dec_step sm e k) (rev [0..<i]) (dec_step sm e k i w)"
    using Suc.prems by (intro Suc.IH) (simp_all add: nb_next_def)
  finally show ?case by simp
qed simp

lemma decInner_round:
  "length w = 4 \<Longrightarrow> decInner sm k (key_index sm) 4 w (w ! 0) = dec_round sm k w"
  by (simp add: decInner_steps nb_next_def)

lemma decOuter_var:
  "length w = 4 \<Longrightarrow> decOuter r sm k w = varOuter r sm k w (w ! 0)"
proof (induction r arbitrary: sm w)
  case (Suc r)
  have "varOuter (Suc r) sm k w (w ! 0) =
      varOuter r (sm - delta) k (dec_round sm k w) (dec_round sm k w ! 0)"
    using Suc.prems by (simp add: varOuter_rounds Let_def del: varOuter.simps)
  then show ?case
    using Suc.IH [of "dec_round sm k w" "sm - delta"] Suc.prems decInner_round [of w sm k]
    by (simp add: key_index_def del: decInner.simps)
qed simp

lemma words_of_exact:
  "4 * n \<le> length b \<Longrightarrow> words_of n b = Some (map (\<lambda>i. get_le32 (drop (i * 4) b)) [0..<n])"
  by (simp add: words_of_def mult.commute)

lemma length_bytes_of_words [simp]: "length (bytes_of_words v) = 4 * length v"
  by (induction v) (simp_all add: bytes_of_words_def)

lemma words_of_bytes_of_words:
  "map (\<lambda>i. get_le32 (drop (i * 4) (bytes_of_words v))) [0..<length v] = v"
proof (rule nth_equalityI)
  fix i assume "i < length (map (\<lambda>i. get_le32 (drop (i * 4) (bytes_of_words v))) [0..<length v])"
  then have i: "i < length v" by simp
  have "drop (i * 4) (bytes_of_words v) = bytes_of_words (drop i v)" for i
    by (induction v arbitrary: i) (simp_all add: bytes_of_words_def drop_Cons split: nat.split)
  moreover have "drop i v = v ! i # drop (Suc i) v" using i by (simp add: Cons_nth_drop_Suc)
  ultimately have "get_le32 (drop (i * 4) (bytes_of_words v)) = v ! i"
    by (simp add: bytes_of_words_def)
  with i show "map (\<lambda>i. get_le32 (drop (i * 4) (bytes_of_words v))) [0..<length v] ! i = v ! i"
    by simp
qed simp

subsection \<open>Headers\<close>

definition GenSessionID :: "u64 \<Rightarrow> bytes" where
  "GenSessionID nanos = le64 nanos"

text \<open>\<open>23+n\<close> is computed in a byte; a buffer shorter than the fields is a panic.\<close>

definition ICAM :: "u32 \<Rightarrow> bytes \<Rightarrow> bytes option" where
  "ICAM cmd args =
     (let n = of_nat (length args) :: u8;
          sz = unat (23 + n);
          b = replicate sz 0
      in if sz < 23 then None
         else
           let b = go_copy b 0 (bytes_of ''ICAM'');
               b = go_copy b 4 (le32 cmd);
               b = b[15 := n]
           in Some (go_copy b 23 args))"

definition HL :: "u16 \<Rightarrow> bytes \<Rightarrow> bytes" where
  "HL cmdID pl =
     (let b = replicate (16 + length pl) 0;
          b = go_copy b 0 (bytes_of ''HL'');
          b = b[2 := 5];
          b = go_copy b 4 (le16 cmdID);
          b = go_copy b 6 (le16 (of_nat (length pl)))
      in go_copy b 16 pl)"

text \<open>\<open>16+payloadLen\<close> in the slice expression is computed in 16 bits.\<close>

definition ParseHL :: "bytes \<Rightarrow> (u16 \<times> bytes \<times> bool) option" where
  "ParseHL data =
     (if length data < 16 \<or> data ! 0 \<noteq> of_char CHR ''H'' \<or> data ! 1 \<noteq> of_char CHR ''L'' then Some (0, [], False)
      else
        let cmdID = get_le16 (drop 4 data); n = get_le16 (drop 6 data) in
        if length data \<ge> 16 + unat n then
          (let hi = unat (16 + n)
           in if hi < 16 then None else Some (cmdID, take (hi - 16) (drop 16 data), True))
        else if length data > 16 then Some (cmdID, drop 16 data, True)
        else Some (cmdID, [], True))"

function FindHL :: "bytes \<Rightarrow> nat \<Rightarrow> bytes" where
  "FindHL data i =
     (if i + 16 \<le> length data then
        (if data ! i = of_char CHR ''H'' \<and> data ! (i + 1) = of_char CHR ''L'' then drop i data
         else FindHL data (Suc i))
      else [])"
  by pat_completeness auto
termination by (relation "measure (\<lambda>(data, i). length data - i)") auto

declare FindHL.simps [simp del]

lemma HL_bytes:
  "HL cmdID pl = bytes_of ''HL'' @ [5, 0] @ le16 cmdID @ le16 (of_nat (length pl)) @ replicate 8 0 @ pl"
proof -
  have z: "replicate (16 + length pl) (0 :: u8) =
      [0, 0, 0, 0, 0, 0, 0, 0, 0, 0, 0, 0, 0, 0, 0, 0] @ replicate (length pl) 0"
    by (simp add: numeral_eq_Suc)
  show ?thesis
    unfolding HL_def Let_def z le16_def be16_def
    by (simp add: go_copy_def Let_def bytes_of_def numeral_eq_Suc)
qed

lemma ICAM_bytes:
  assumes "length args < 233"
  shows "ICAM cmd args = Some (bytes_of ''ICAM'' @ le32 cmd @ replicate 7 0 @ [of_nat (length args)]
    @ replicate 7 0 @ args)"
proof -
  have u: "unat (23 + of_nat (length args) :: u8) = 23 + length args"
  proof -
    have "(23 + of_nat (length args) :: u8) = of_nat (23 + length args)" by simp
    then show ?thesis using assms by (simp only: unsigned_of_nat) (simp add: take_bit_nat_eq_self)
  qed
  have z: "replicate (23 + length args) (0 :: u8) =
      [0, 0, 0, 0, 0, 0, 0, 0, 0, 0, 0, 0, 0, 0, 0, 0, 0, 0, 0, 0, 0, 0, 0] @ replicate (length args) 0"
    by (simp add: numeral_eq_Suc)
  show ?thesis
    unfolding ICAM_def Let_def u z le32_def be32_def
    by (simp add: go_copy_def Let_def bytes_of_def numeral_eq_Suc)
qed

subsection \<open>Results\<close>

text \<open>
  Claim C35. The scrambling of TUTK packets is undone by its reverse, for inputs of every length
  (whole blocks, tails of 0 to 15 bytes with their own byte orders, and blobs of which only the
  first 64 bytes may be scrambled), and the other way round for the block function; lengths are
  kept, so packets can be unscrambled in the buffer they were read into.
\<close>

theorem tutk_scramble_roundtrip:
  "ReverseTransCodePartial d (TransCodePartial [] b) = b @ drop (length b) d \<and>
   TransCodePartial d (ReverseTransCodePartial [] b) = b @ drop (length b) d \<and>
   ReverseTransCodeBlob (TransCodeBlob b) = b \<and> length (TransCodeBlob b) = length b"
proof -
  have inv: "ReverseTransCodePartial [] (TransCodePartial [] x) = x"
    "length (TransCodePartial [] x) = length x" for x
    by (simp_all add: ReverseTransCodePartial_def TransCodePartial_def reverse_trans_bytes)
  have "ReverseTransCodeBlob (TransCodeBlob b) = b" if "\<not> length b < 16"
  proof -
    let ?h = "TransCodePartial [] (take 16 b)" and ?p = "b ! 3 AND 1 \<noteq> 0"
    have h: "length ?h = 16" "ReverseTransCodePartial [] ?h = take 16 b" using that inv by simp_all
    have t: "take 16 b ! 3 = b ! 3" by simp
    have "TransCodeBlob b = ?h @ blobRest (TransCodePartial []) ?p b"
      using that by (simp add: TransCodeBlob_def)
    then have "ReverseTransCodeBlob (TransCodeBlob b) = take 16 b @
        blobRest (ReverseTransCodePartial []) ?p (?h @ blobRest (TransCodePartial []) ?p b)"
      using h t by (simp add: ReverseTransCodeBlob_def Let_def)
    also have "\<dots> = take 16 b @ drop 16 b"
      using blobRest_inverse [OF inv h(1)] by simp
    finally show ?thesis by simp
  qed
  moreover have "ReverseTransCodeBlob (TransCodeBlob b) = b" if "length b < 16"
    using that inv by (simp add: ReverseTransCodeBlob_def TransCodeBlob_def)
  moreover have "length (TransCodeBlob b) = length b"
    by (auto simp: TransCodeBlob_def TransCodePartial_def blobRest_def Let_def)
  moreover have "ReverseTransCodePartial d (TransCodePartial [] b) = b @ drop (length b) d"
    "TransCodePartial d (ReverseTransCodePartial [] b) = b @ drop (length b) d"
    by (simp_all add: ReverseTransCodePartial_def TransCodePartial_def reverse_trans_bytes
        trans_reverse_bytes)
  ultimately show ?thesis by blast
qed

text \<open>
  \<open>XXTEADecryptVar\<close> inverts the reference XXTEA encryption, with its number of rounds,
  on every message of at least two words under every key; its only panic is a length that is not
  a multiple of four.
\<close>

lemma tutk_xxtea_decrypts:
  assumes "2 \<le> length v" "16 \<le> length key"
    and "k = map (\<lambda>i. get_le32 (drop (i * 4) key)) [0..<4]"
    and "msg = bytes_of_words (xxtea_encrypt (6 + 52 div length v) 0 k v)"
  shows "XXTEADecryptVar msg key = Some (bytes_of_words v) \<and>
    (\<forall>data. 8 \<le> length data \<longrightarrow> (XXTEADecryptVar data key = None \<longleftrightarrow> \<not> 4 dvd length data))"
proof -
  let ?r = "6 + 52 div length v"
  define w where "w = xxtea_encrypt ?r 0 k v"
  have w: "varOuter ?r (of_nat ?r * delta) k w (w ! 0) = v" "length w = length v"
    using varOuter_encrypt [OF assms(1), of ?r 0 k] by (simp_all only: w_def Let_def add_0)
  have msg: "msg = bytes_of_words w" by (simp only: assms(4) w_def)
  have len: "length msg div 4 = length v" "max (length v) 2 = length v" "\<not> length msg < 8"
    "\<not> length key < 16" "length msg = 4 * length v"
    using assms(1,2) w(2) by (simp_all add: msg)
  have ws: "map (\<lambda>i. get_le32 (drop (i * 4) msg)) [0..<length v] = w"
    using words_of_bytes_of_words [of w] w(2) by (simp add: msg)
  have "XXTEADecryptVar msg key = Some (bytes_of_words v)"
    unfolding XXTEADecryptVar_def Let_def
    by (simp only: len(1-4) ws assms(3) [symmetric] if_False w(1) diff_self_eq_0 replicate_0
        append_Nil2 simp_thms) (simp add: len)
  moreover have "XXTEADecryptVar data key = None \<longleftrightarrow> \<not> 4 dvd length data" if "8 \<le> length data" for data
  proof -
    have d: "max (length data div 4) 2 = length data div 4" using that by linarith
    have "XXTEADecryptVar data key = None \<longleftrightarrow> length data > 4 * (length data div 4)"
      using that assms(2) by (simp add: XXTEADecryptVar_def Let_def d)
    also have "\<dots> \<longleftrightarrow> \<not> 4 dvd length data" by presburger
    finally show ?thesis .
  qed
  ultimately show ?thesis by blast
qed

text \<open>
  The fixed-size \<open>XXTEADecrypt\<close>, with its own loop and index arithmetic in 8-bit integers, agrees
  with \<open>XXTEADecryptVar\<close> on 16 bytes.
\<close>

lemma tutk_xxtea_variants:
  assumes "length src = 16" "16 \<le> length key" "length dst = 16"
  shows "XXTEADecrypt dst src key = XXTEADecryptVar src key"
proof -
  let ?ws = "map (\<lambda>i. get_le32 (drop (i * 4) src)) [0..<4]"
  have "words_of 4 src = Some ?ws"
    "words_of 4 key = Some (map (\<lambda>i. get_le32 (drop (i * 4) key)) [0..<4])"
    using assms by (simp_all only: words_of_exact) 
  moreover have "decOuter r sm k ?ws = varOuter r sm k ?ws (?ws ! 0)" for r sm k
    by (rule decOuter_var) simp
  ultimately show ?thesis
    using assms by (simp add: XXTEADecrypt_def XXTEADecryptVar_def Let_def del: upt_rec_numeral)
qed

text \<open>
  The HL header round trip: below 65520 bytes \<open>ParseHL\<close> gives back command and payload;
  from there on to 65535 bytes the 16-bit end of the slice wraps and \<open>ParseHL\<close> panics on a well
  formed message.
\<close>

lemma tutk_hl_roundtrip:
  assumes "length pl < 2 ^ 16"
  shows "ParseHL (HL cmd pl @ rest) =
    (if length pl < 65520 then Some (cmd, pl, True) else None)"
proof -
  let ?d = "HL cmd pl @ rest"
  have "drop 4 ?d = le16 cmd @ drop 6 ?d" "drop 6 ?d = le16 (of_nat (length pl)) @ drop 8 ?d"
    "drop 16 ?d = pl @ rest" and h: "?d ! 0 = of_char CHR ''H''" "?d ! 1 = of_char CHR ''L''"
    by (simp_all add: HL_bytes bytes_of_def le16_def be16_def numeral_eq_Suc)
  then have g: "get_le16 (drop 4 ?d) = cmd" "get_le16 (drop 6 ?d) = of_nat (length pl)"
    "drop 16 ?d = pl @ rest"
    by simp_all
  have u: "unat (of_nat (length pl) :: u16) = length pl"
    using assms by (simp add: unsigned_of_nat take_bit_nat_eq_self)
  have w: "unat (16 + of_nat (length pl) :: u16) = (16 + length pl) mod 2 ^ 16"
  proof -
    have "(16 + of_nat (length pl) :: u16) = of_nat (16 + length pl)" by simp
    then show ?thesis by (simp only: unsigned_of_nat take_bit_eq_mod) simp
  qed
  have len: "\<not> length ?d < 16" "16 + length pl \<le> length ?d" by (simp_all add: HL_bytes bytes_of_def)
  have "ParseHL ?d = (let hi = (16 + length pl) mod 2 ^ 16
      in if hi < 16 then None else Some (cmd, take (hi - 16) (pl @ rest), True))"
    unfolding ParseHL_def Let_def g u w using len h by simp
  moreover have "(16 + length pl) mod 2 ^ 16 = (if length pl < 65520 then 16 + length pl else length pl - 65520)"
  proof (cases "length pl < 65520")
    case False
    then have "16 + length pl = (length pl - 65520) + 2 ^ 16" by simp
    then show ?thesis using assms False by (metis mod_add_self2 mod_less diff_less_mono2 less_imp_diff_less)
  qed simp
  ultimately show ?thesis using assms by (auto simp: Let_def)
qed

end
