(* ===== verification/MissClient.thy ===== *)
theory MissClient
  imports Cs2Conn GoText TutkCodec
begin

section \<open>The MISS client\<close>

text \<open>
  Models \<open>pkg/xiaomi/crypto/crypto.go\<close> and \<open>pkg/xiaomi/miss/client.go\<close>: the encryption of
  payloads, the login, and the commands and packets of a camera. The Go interface \<open>Conn\<close> is a
  record of functions on the connection's state; \<open>cs2_io\<close> is its instance on the CS2 connection.

  Third-party code is a parameter: \<open>nc key nonce\<close> stands for \<open>chacha20.NewUnauthenticatedCipher\<close>
  and gives the key stream of the cipher, or \<open>None\<close> for its error; \<open>precompute\<close> for
  \<open>box.Precompute\<close>. Random bytes and the clock are arguments.
\<close>

subsection \<open>Encryption\<close>

type_synonym cipher = "bytes \<Rightarrow> bytes \<Rightarrow> (nat \<Rightarrow> u8) option"

datatype 'e miss_error =
    ConnFail 'e
  | RandFail string
  | CipherFail
  | EncryptedTooShort
  | HeaderTooSmall
  | ReadMedia 'e
  | InvalidMotor int
  | AuthFailed bytes
  | BadURL
  | BadKey
  | KeyPanic
  | UnsupportedVendor string
  | Joined "'e miss_error list"

definition xorKeyStream :: "(nat \<Rightarrow> u8) \<Rightarrow> bytes \<Rightarrow> bytes" where
  "xorKeyStream ks src = map2 (XOR) src (map ks [0..<length src])"

definition nonce12 :: "bytes \<Rightarrow> bytes" where
  "nonce12 nonce8 = go_copy (replicate 12 0) 4 nonce8"

definition missEncode :: "cipher \<Rightarrow> string + bytes \<Rightarrow> bytes \<Rightarrow> bytes \<Rightarrow> 'e miss_error + bytes" where
  "missEncode nc rnd src key32 =
     (case rnd of
        Inl e \<Rightarrow> Inl (RandFail e)
      | Inr r \<Rightarrow>
          (case nc key32 (nonce12 r) of
             None \<Rightarrow> Inl CipherFail
           | Some ks \<Rightarrow> Inr (r @ xorKeyStream ks src)))"

definition decodeNonce :: "cipher \<Rightarrow> bytes \<Rightarrow> bytes \<Rightarrow> bytes \<Rightarrow> 'e miss_error + bytes" where
  "decodeNonce nc src nonce8 key32 =
     (case nc key32 (nonce12 nonce8) of
        None \<Rightarrow> Inl CipherFail
      | Some ks \<Rightarrow> Inr (xorKeyStream ks src))"

definition missDecode :: "cipher \<Rightarrow> bytes \<Rightarrow> bytes \<Rightarrow> 'e miss_error + bytes" where
  "missDecode nc src key32 =
     (if length src < 8 then Inl EncryptedTooShort
      else decodeNonce nc (drop 8 src) (take 8 src) key32)"

text \<open>
  \<open>hex.Decode\<close> into an array of \<open>room\<close> bytes: the bytes written, an error, or a panic when there
  are more bytes than room.
\<close>

datatype hex_result = HexOk bytes | HexError | HexPanic

fun hexInto :: "nat \<Rightarrow> string \<Rightarrow> hex_result" where
  "hexInto room [] = HexOk []"
| "hexInto room [c] = HexError"
| "hexInto room (c # d # cs) =
     (case (hex_value c, hex_value d) of
        (Some a, Some b) \<Rightarrow>
          if room = 0 then HexPanic
          else (case hexInto (room - 1) cs of
                  HexOk r \<Rightarrow> HexOk (of_nat (16 * a + b) # r) | e \<Rightarrow> e)
      | _ \<Rightarrow> HexError)"

definition CalcSharedKey ::
  "(bytes \<Rightarrow> bytes \<Rightarrow> bytes) \<Rightarrow> string \<Rightarrow> string \<Rightarrow> 'e miss_error + bytes" where
  "CalcSharedKey precompute devicePublic clientPrivate =
     (case hexInto 32 devicePublic of
        HexPanic \<Rightarrow> Inl KeyPanic
      | HexError \<Rightarrow> Inl BadKey
      | HexOk pub \<Rightarrow>
          (case hexInto 32 clientPrivate of
             HexPanic \<Rightarrow> Inl KeyPanic
           | HexError \<Rightarrow> Inl BadKey
           | HexOk priv \<Rightarrow>
               Inr (precompute (go_copy (replicate 32 0) 0 pub) (go_copy (replicate 32 0) 0 priv))))"

subsection \<open>The connection's interface\<close>

record ('s, 'e) miss_conn =
  ioReadCommand :: "'s \<Rightarrow> ('s \<times> ('e + u32 \<times> bytes)) option"
  ioWriteCommand :: "'s \<Rightarrow> u32 \<Rightarrow> bytes \<Rightarrow> 's \<times> 'e option"
  ioReadPacket :: "'s \<Rightarrow> ('s \<times> ('e + bytes \<times> bytes)) option"
  ioWritePacket :: "'s \<Rightarrow> bytes \<Rightarrow> bytes \<Rightarrow> 's \<times> 'e option"
  ioClose :: "'s \<Rightarrow> 's"

record client =
  ckey :: bytes
  cmodel :: string

definition codecH264 :: u32 where "codecH264 = 4"
definition codecH265 :: u32 where "codecH265 = 5"
definition codecPCM :: u32 where "codecPCM = 1024"
definition codecPCMU :: u32 where "codecPCMU = 1026"
definition codecPCMA :: u32 where "codecPCMA = 1027"
definition codecOPUS :: u32 where "codecOPUS = 1032"

definition cmdAuthReq :: u32 where "cmdAuthReq = 0x100"
definition cmdVideoStart :: u32 where "cmdVideoStart = 0x102"
definition cmdVideoStop :: u32 where "cmdVideoStop = 0x103"
definition cmdAudioStart :: u32 where "cmdAudioStart = 0x104"
definition cmdSpeakerStartReq :: u32 where "cmdSpeakerStartReq = 0x106"
definition cmdMotorReq :: u32 where "cmdMotorReq = 0x112"
definition cmdEncoded :: u32 where "cmdEncoded = 0x1001"

lemmas miss_consts = codecH264_def codecH265_def codecPCM_def codecPCMU_def codecPCMA_def
  codecOPUS_def cmdAuthReq_def cmdVideoStart_def cmdVideoStop_def cmdAudioStart_def
  cmdSpeakerStartReq_def cmdMotorReq_def cmdEncoded_def

definition ModelDafang :: string where "ModelDafang = ''isa.camera.df3''"
definition ModelLoockV2 :: string where "ModelLoockV2 = ''loock.cateye.v02''"
definition ModelC200 :: string where "ModelC200 = ''chuangmi.camera.046c04''"
definition ModelC300 :: string where "ModelC300 = ''chuangmi.camera.72ac1''"
definition ModelXiaofang :: string where "ModelXiaofang = ''isa.camera.isc5c1''"

lemmas miss_models = ModelDafang_def ModelLoockV2_def ModelC200_def ModelC300_def ModelXiaofang_def

subsection \<open>Login\<close>

definition loginText :: "string \<Rightarrow> string \<Rightarrow> bytes" where
  "loginText clientPublic sign =
     bytes_of (''{\"public_key\":\"'' @ clientPublic @ ''\",\"sign\":\"'' @ sign
       @ ''\",\"uuid\":\"\",\"support_encrypt\":0}'')"

definition login :: "('s, 'e) miss_conn \<Rightarrow> 's \<Rightarrow> string \<Rightarrow> string \<Rightarrow> ('s \<times> 'e miss_error option) option" where
  "login io s clientPublic sign =
     (case ioWriteCommand io s cmdAuthReq (loginText clientPublic sign) of
        (s1, Some e) \<Rightarrow> Some (s1, Some (ConnFail e))
      | (s1, None) \<Rightarrow>
          (case ioReadCommand io s1 of
             None \<Rightarrow> None
           | Some (s2, Inl e) \<Rightarrow> Some (s2, Some (ConnFail e))
           | Some (s2, Inr (_, data)) \<Rightarrow>
               Some (s2, if contains data (bytes_of ''\"result\":\"success\"'') then None
                         else Some (AuthFailed data))))"

text \<open>
  \<open>NewClient\<close>: \<open>query\<close> are the parameters of the parsed URL, \<open>None\<close> when it does not parse;
  \<open>dialCs2\<close> and \<open>dialTutk\<close> open a connection. The result of a failure holds the state in which a
  connection that was opened is left.
\<close>

definition NewClient ::
  "('s, 'e) miss_conn \<Rightarrow> (bytes \<Rightarrow> bytes \<Rightarrow> bytes) \<Rightarrow> (string \<Rightarrow> 'e + 's) \<Rightarrow> (string \<Rightarrow> 'e + 's) \<Rightarrow>
   (string \<Rightarrow> string) option \<Rightarrow> ('s option \<times> ('e miss_error + client)) option" where
  "NewClient io precompute dialCs2 dialTutk query =
     (case query of
        None \<Rightarrow> Some (None, Inl BadURL)
      | Some q \<Rightarrow>
          (case CalcSharedKey precompute (q ''device_public'') (q ''client_private'') of
             Inl e \<Rightarrow> Some (None, Inl e)
           | Inr key \<Rightarrow>
               (case (if q ''vendor'' = ''cs2'' then Some (dialCs2 (q ''transport''))
                      else if q ''vendor'' = ''tutk'' then Some (dialTutk (q ''uid''))
                      else None) of
                  None \<Rightarrow> Some (None, Inl (UnsupportedVendor (q ''vendor'')))
                | Some (Inl e) \<Rightarrow> Some (None, Inl (ConnFail e))
                | Some (Inr s) \<Rightarrow>
                    (case login io s (q ''client_public'') (q ''sign'') of
                       None \<Rightarrow> None
                     | Some (s1, Some e) \<Rightarrow> Some (Some (ioClose io s1), Inl e)
                     | Some (s1, None) \<Rightarrow>
                         Some (Some s1, Inr \<lparr>ckey = key, cmodel = q ''model''\<rparr>)))))"

text \<open>One turn of the goroutine that drains the command channel: whether it goes on.\<close>

definition commandLoopTurn :: "('s, 'e) miss_conn \<Rightarrow> 's \<Rightarrow> ('s \<times> bool) option" where
  "commandLoopTurn io s =
     (case ioReadCommand io s of
        None \<Rightarrow> None
      | Some (s1, Inl e) \<Rightarrow> Some (s1, False)
      | Some (s1, Inr _) \<Rightarrow> Some (s1, True))"

subsection \<open>Commands\<close>

definition missWriteCommand ::
  "('s, 'e) miss_conn \<Rightarrow> cipher \<Rightarrow> client \<Rightarrow> string + bytes \<Rightarrow> 's \<Rightarrow> bytes \<Rightarrow> 's \<times> 'e miss_error option" where
  "missWriteCommand io nc c rnd s data =
     (case missEncode nc rnd data (ckey c) of
        Inl e \<Rightarrow> (s, Some e)
      | Inr enc \<Rightarrow>
          (case ioWriteCommand io s cmdEncoded enc of (s1, e) \<Rightarrow> (s1, map_option ConnFail e)))"

definition motorCommand :: "int \<Rightarrow> 'e miss_error + bytes" where
  "motorCommand operation =
     (if operation < 0 \<or> operation > 4 then Inl (InvalidMotor operation)
      else Inr (be32 cmdMotorReq @ bytes_of (''{\"operation\":'' @ dec_int operation @ ''}'')))"

definition SetDirection ::
  "('s, 'e) miss_conn \<Rightarrow> cipher \<Rightarrow> client \<Rightarrow> string + bytes \<Rightarrow> 's \<Rightarrow> int \<Rightarrow> 's \<times> 'e miss_error option" where
  "SetDirection io nc c rnd s operation =
     (case motorCommand operation of
        Inl e \<Rightarrow> (s, Some e)
      | Inr data \<Rightarrow> missWriteCommand io nc c rnd s data)"

text \<open>\<open>dafangRaw\<close>; the arguments are one or two bytes, for which \<open>ICAM\<close> does not panic.\<close>

definition dafangRaw :: "u32 \<Rightarrow> bytes \<Rightarrow> bytes" where
  "dafangRaw cmd args =
     (case ICAM cmd args of
        None \<Rightarrow> []
      | Some pl \<Rightarrow> [0x7f, 0xff, 0xff, 0xff] @ hex_encode pl)"

definition dafangVideoQuality :: "u8 \<Rightarrow> bytes" where
  "dafangVideoQuality quality = dafangRaw 0xff07d5 [quality]"

definition dafangVideoStart :: "u8 \<Rightarrow> u8 \<Rightarrow> bytes" where
  "dafangVideoStart video audio = dafangRaw 0xff07d8 [video, audio]"

text \<open>\<open>errors.Join\<close>: no error when all are nil.\<close>

definition joinErrors :: "'e miss_error option list \<Rightarrow> 'e miss_error option" where
  "joinErrors es = (case List.map_filter (\<lambda>e. e) es of [] \<Rightarrow> None | l \<Rightarrow> Some (Joined l))"

definition mediaQuality :: "string \<Rightarrow> string \<Rightarrow> string" where
  "mediaQuality model quality =
     (if quality = '''' \<or> quality = ''hd'' then
        (if model = ModelC200 \<or> model = ModelC300 then ''3'' else ''2'')
      else if quality = ''sd'' then ''1''
      else if quality = ''auto'' then ''0''
      else quality)"

definition startMediaText :: "string \<Rightarrow> string \<Rightarrow> string \<Rightarrow> string \<Rightarrow> bytes" where
  "startMediaText model channel quality audio =
     (let q = mediaQuality model quality; a = (if audio = '''' then ''1'' else audio)
      in be32 cmdVideoStart @ bytes_of
           (if channel = '''' \<or> channel = ''0''
            then ''{\"videoquality\":'' @ q @ '',\"enableaudio\":'' @ a @ ''}''
            else ''{\"videoquality\":-1,\"videoquality2\":'' @ q @ '',\"enableaudio\":'' @ a @ ''}''))"

definition StartMedia ::
  "('s, 'e) miss_conn \<Rightarrow> cipher \<Rightarrow> client \<Rightarrow> string + bytes \<Rightarrow> string + bytes \<Rightarrow> 's \<Rightarrow>
   string \<Rightarrow> string \<Rightarrow> string \<Rightarrow> 's \<times> 'e miss_error option" where
  "StartMedia io nc c rnd rnd' s channel quality audio =
     (if cmodel c = ModelDafang \<or> cmodel c = ModelXiaofang then
        (let q = (if quality = ''sd'' then 1 else 0); a = (if audio \<noteq> ''0'' then 1 else 0);
             (s1, e1) = missWriteCommand io nc c rnd s (dafangVideoQuality q);
             (s2, e2) = missWriteCommand io nc c rnd' s1 (dafangVideoStart 1 a)
         in (s2, joinErrors [e1, e2]))
      else missWriteCommand io nc c rnd s (startMediaText (cmodel c) channel quality audio))"

definition StopMedia where
  "StopMedia io nc c rnd s = missWriteCommand io nc c rnd s (be32 cmdVideoStop)"

definition StartAudio where
  "StartAudio io nc c rnd s = missWriteCommand io nc c rnd s (be32 cmdAudioStart)"

definition StartSpeaker where
  "StartSpeaker io nc c rnd s = missWriteCommand io nc c rnd s (be32 cmdSpeakerStartReq)"

definition SpeakerCodec :: "client \<Rightarrow> u32" where
  "SpeakerCodec c =
     (if cmodel c \<in> {ModelDafang, ModelXiaofang, ''isa.camera.hlc6''} then codecPCM
      else if cmodel c = ''chuangmi.camera.72ac1'' then codecOPUS
      else 0)"

subsection \<open>Media packets\<close>

record packet =
  CodecID :: u32
  Sequence :: u32
  Flags :: u32
  Timestamp :: u64
  Payload :: bytes

definition missReadPacket ::
  "('s, 'e) miss_conn \<Rightarrow> cipher \<Rightarrow> client \<Rightarrow> u64 \<Rightarrow> 's \<Rightarrow> ('s \<times> ('e miss_error + packet)) option" where
  "missReadPacket io nc c nowMilli s =
     (case ioReadPacket io s of
        None \<Rightarrow> None
      | Some (s1, Inl e) \<Rightarrow> Some (s1, Inl (ReadMedia e))
      | Some (s1, Inr (hdr, pl)) \<Rightarrow>
          Some (s1,
            if length hdr < hdrSize then Inl HeaderTooSmall
            else case missDecode nc pl (ckey c) of
              Inl e \<Rightarrow> Inl e
            | Inr body \<Rightarrow>
                Inr \<lparr>CodecID = get_le32 (drop 4 hdr), Sequence = get_le32 (drop 8 hdr),
                     Flags = get_le32 (drop 12 hdr),
                     Timestamp = (if cmodel c \<in> {ModelDafang, ModelXiaofang, ModelLoockV2}
                                  then nowMilli else get_le64 (drop 16 hdr)),
                     Payload = body\<rparr>))"

definition audioHeader :: "u32 \<Rightarrow> u64 \<Rightarrow> bytes \<Rightarrow> bytes" where
  "audioHeader codecID nowMilli enc =
     (let header = replicate hdrSize 0;
          header = go_copy header 0 (le32 (of_nat (length enc)));
          header = go_copy header 4 (le32 codecID)
      in go_copy header 16 (le64 nowMilli))"

definition WriteAudio ::
  "('s, 'e) miss_conn \<Rightarrow> cipher \<Rightarrow> client \<Rightarrow> string + bytes \<Rightarrow> u64 \<Rightarrow> 's \<Rightarrow> u32 \<Rightarrow> bytes \<Rightarrow>
   's \<times> 'e miss_error option" where
  "WriteAudio io nc c rnd nowMilli s codecID pl =
     (case missEncode nc rnd pl (ckey c) of
        Inl e \<Rightarrow> (s, Some e)
      | Inr enc \<Rightarrow>
          (case ioWritePacket io s (audioHeader codecID nowMilli enc) enc of
             (s1, e) \<Rightarrow> (s1, map_option ConnFail e)))"

definition SampleRate :: "packet \<Rightarrow> u32" where
  "SampleRate p = (if drop_bit 3 (Flags p) AND 0xF \<noteq> 0 then 16000 else 8000)"

subsection \<open>Facts on the encryption\<close>

lemma length_xorKeyStream [simp]: "length (xorKeyStream ks src) = length src"
  by (simp add: xorKeyStream_def)

lemma xorKeyStream_twice [simp]: "xorKeyStream ks (xorKeyStream ks src) = src"
  by (rule nth_equalityI) (simp_all add: xorKeyStream_def xor.assoc)

lemma missDecode_missEncode:
  assumes "length r = 8" "missEncode nc (Inr r) src key = Inr enc"
  shows "missDecode nc enc key = Inr src" "length enc = length src + 8"
  using assms by (auto simp: missEncode_def missDecode_def decodeNonce_def split: option.splits)

lemma missEncode_cases:
  assumes "missEncode nc rnd src key = Inr enc"
  obtains r where "rnd = Inr r"
  using assms by (auto simp: missEncode_def split: sum.splits)

lemma hexInto_hex_text: "length b \<le> room \<Longrightarrow> hexInto room (hex_text b) = HexOk b"
proof (induction b arbitrary: room)
  case Nil
  then show ?case by (simp add: hex_text_def hex_encode_def)
next
  case (Cons x b)
  then show ?case
    using hex_nibbles [of x] by (simp add: hex_text_Cons hex_value_digit del: of_nat_add of_nat_mult)
qed

lemma hexInto_overflow: "room < length b \<Longrightarrow> hexInto room (hex_text b) = HexPanic"
proof (induction b arbitrary: room)
  case (Cons x b)
  then show ?case
    using hex_nibbles [of x] by (cases "room = 0") (simp_all add: hex_text_Cons hex_value_digit)
qed simp

subsection \<open>The contract of a connection\<close>

text \<open>
  What the client relies on: a command that is written without error leaves at least one frame
  with its number and data, all copies equal; a packet written without error leaves one frame
  with header and payload. \<open>out\<close> lists the frames written, \<open>fits\<close> bounds what the
  connection carries.
\<close>

definition command_frame :: "u32 \<Rightarrow> bytes \<Rightarrow> bytes" where
  "command_frame cmd data = frame_bytes (be32 cmd @ data)"

locale media_link =
  fixes io :: "('s, 'e) miss_conn"
    and out :: "'s \<Rightarrow> bytes list"
    and fits :: "nat \<Rightarrow> bool"
  assumes write_command: "ioWriteCommand io s cmd data = (s', None) \<Longrightarrow>
      \<exists>n \<ge> 1. out s' = out s @ replicate n (command_frame cmd data)"
    and write_packet: "ioWritePacket io s hdr pl = (s', None) \<Longrightarrow> length hdr = hdrSize \<Longrightarrow>
      fits (length pl) \<Longrightarrow> out s' = out s @ [frame_bytes (hdr @ pl)]"
begin

text \<open>Whatever is written as a command decrypts, at the other end, to the plain command.\<close>

lemma encrypted_command:
  assumes "missWriteCommand io nc c (Inr r) s data = (s', None)" "length r = 8"
  shows "\<exists>n enc. n \<ge> 1 \<and> out s' = out s @ replicate n (command_frame cmdEncoded enc) \<and>
    missDecode nc enc (ckey c) = (Inr data :: 'e miss_error + bytes)"
proof -
  obtain enc where enc: "missEncode nc (Inr r) data (ckey c) = (Inr enc :: 'e miss_error + bytes)"
    using assms(1) by (auto simp: missWriteCommand_def split: sum.splits)
  with assms(1) have "ioWriteCommand io s cmdEncoded enc = (s', None)"
    by (auto simp: missWriteCommand_def split: prod.splits)
  from write_command [OF this] missDecode_missEncode(1) [OF assms(2) enc] show ?thesis by blast
qed

lemma direction_command:
  assumes "SetDirection io nc c (Inr r) s op = (s', None)" "length r = 8"
  shows "0 \<le> op \<and> op \<le> 4 \<and> (\<exists>n enc. n \<ge> 1 \<and>
    out s' = out s @ replicate n (command_frame cmdEncoded enc) \<and>
    missDecode nc enc (ckey c) =
      (Inr (be32 cmdMotorReq @ bytes_of (''{\"operation\":'' @ dec_int op @ ''}'')) :: 'e miss_error + bytes))"
proof -
  obtain data where m: "motorCommand op = (Inr data :: 'e miss_error + bytes)"
    "missWriteCommand io nc c (Inr r) s data = (s', None)"
    using assms(1) by (auto simp: SetDirection_def split: sum.splits)
  then have "0 \<le> op \<and> op \<le> 4 \<and> data = be32 cmdMotorReq @ bytes_of (''{\"operation\":'' @ dec_int op @ ''}'')"
    by (auto simp: motorCommand_def split: if_splits)
  with encrypted_command [OF m(2) assms(2)] show ?thesis by blast
qed

lemma audio_packet:
  assumes "WriteAudio io nc c (Inr r) now s codec pl = (s', None)" "length r = 8"
    and "fits (length pl + 8)"
  shows "\<exists>enc. out s' = out s @ [frame_bytes (audioHeader codec now enc @ enc)] \<and>
    length enc = length pl + 8 \<and> missDecode nc enc (ckey c) = (Inr pl :: 'e miss_error + bytes)"
proof -
  obtain enc where enc: "missEncode nc (Inr r) pl (ckey c) = (Inr enc :: 'e miss_error + bytes)"
    using assms(1) by (auto simp: WriteAudio_def split: sum.splits)
  note e = missDecode_missEncode [OF assms(2) enc]
  from assms(1) enc have "ioWritePacket io s (audioHeader codec now enc) enc = (s', None)"
    by (auto simp: WriteAudio_def split: prod.splits)
  moreover have "length (audioHeader codec now enc) = hdrSize"
    by (simp add: audioHeader_def Let_def hdrSize_def)
  ultimately show ?thesis using write_packet e assms(3) by auto
qed

end

subsection \<open>The CS2 connection is such a connection\<close>

text \<open>The connection with what its environment does at each call to come.\<close>

record cs2_link =
  linkConn :: cs2Conn
  linkTurns :: "send_turn list list"
  linkErrs :: "cs2_error option list"

definition cs2_io :: "(cs2_link, cs2_error) miss_conn" where
  "cs2_io = \<lparr>
     ioReadCommand = (\<lambda>s. map_option (\<lambda>(c, r). (s\<lparr>linkConn := c\<rparr>, r)) (ReadCommand (linkConn s))),
     ioWriteCommand = (\<lambda>s cmd data.
       (case WriteCommand (linkConn s) cmd data (case linkTurns s of [] \<Rightarrow> [] | t # _ \<Rightarrow> t) of
          (c, e) \<Rightarrow> (s\<lparr>linkConn := c, linkTurns := tl (linkTurns s)\<rparr>, e))),
     ioReadPacket = (\<lambda>s. map_option (\<lambda>(c, r). (s\<lparr>linkConn := c\<rparr>, r)) (ReadPacket (linkConn s))),
     ioWritePacket = (\<lambda>s hdr pl.
       (case WritePacket (linkConn s) hdr pl (case linkErrs s of [] \<Rightarrow> None | e # _ \<Rightarrow> e) of
          (c, e) \<Rightarrow> (s\<lparr>linkConn := c, linkErrs := tl (linkErrs s)\<rparr>, e))),
     ioClose = (\<lambda>s. s\<lparr>linkConn := connClose (linkConn s)\<rparr>)\<rparr>"

text \<open>Behind the 8 bytes of header each packet of a client holds one frame.\<close>

definition cs2_out :: "cs2_link \<Rightarrow> bytes list" where
  "cs2_out s = map (drop 8) (sent (linkConn s))"

definition cs2_fits :: "nat \<Rightarrow> bool" where
  "cs2_fits n \<longleftrightarrow> n + 44 < 2 ^ 32"

lemma WriteCommand_out:
  assumes "WriteCommand c cmd data turns = (c', e)"
  shows "\<exists>n \<ge> 1. sent c' = sent c @ replicate n (marshalCmd 0 (seqCh0 c) cmd data)"
proof (cases "isTCP c")
  case True
  then have "sent c' = sent c @ replicate 1 (marshalCmd 0 (seqCh0 c) cmd data)"
    using assms by (auto simp: WriteCommand_def netWrite_def Let_def split: list.splits)
  then show ?thesis by blast
next
  case False
  let ?c = "c\<lparr>seqCh0 := seqCh0 c + 1, cmdAckSet := True\<rparr>"
  have "sendLoop (int 5) cmd ?c (marshalCmd 0 (seqCh0 c) cmd data) turns = (c', e)"
    using False assms by (simp add: WriteCommand_def Let_def)
  from sendLoop_result [OF this] show ?thesis by force
qed

interpretation cs2: media_link cs2_io cs2_out cs2_fits
proof (unfold_locales, goal_cases)
  case (1 s cmd data s')
  then obtain c where c: "WriteCommand (linkConn s) cmd data (case linkTurns s of [] \<Rightarrow> [] | t # _ \<Rightarrow> t) = (c, None)"
    "linkConn s' = c"
    by (auto simp: cs2_io_def split: prod.splits)
  from WriteCommand_out [OF c(1)] obtain n where n: "n \<ge> 1"
    "sent c = sent (linkConn s) @ replicate n (marshalCmd 0 (seqCh0 (linkConn s)) cmd data)" by blast
  then show ?case
    by (intro exI [of _ n]) (simp add: cs2_out_def c marshalCmd_frame command_frame_def)
next
  case (2 s hdr pl s')
  then have "sent (linkConn s') = sent (linkConn s) @ [mediaPacket (seqCh3 (linkConn s)) hdr pl]"
    by (auto simp: cs2_io_def WritePacket_def netWrite_def split: prod.splits)
  with 2 show ?case by (simp add: cs2_out_def mediaPacket_frame cs2_fits_def)
qed

subsection \<open>The receiving side\<close>

lemma audioHeader_bytes:
  "audioHeader codec now enc =
    le32 (of_nat (length enc)) @ le32 codec @ replicate 8 0 @ le64 now @ replicate 8 0"
proof -
  have "go_copy (replicate 32 0) 0 (le32 (of_nat (length enc))) = le32 (of_nat (length enc)) @ replicate 28 0"
    by (simp add: go_copy_def Let_def)
  moreover have "go_copy (le32 a @ replicate 28 0) 4 (le32 codec) = (le32 a @ le32 codec) @ replicate 24 0" for a
    by (simp add: go_copy_def Let_def)
  moreover have "go_copy (le32 a @ le32 codec @ replicate 24 0) 16 (le64 now)
      = le32 a @ le32 codec @ replicate 8 0 @ le64 now @ replicate 8 0" for a
    by (simp add: go_copy_def Let_def)
  ultimately show ?thesis by (simp add: audioHeader_def Let_def hdrSize_def)
qed

lemma audioHeader_fields:
  "length (audioHeader codec now enc) = hdrSize"
  "get_le32 (drop 4 (audioHeader codec now enc)) = codec"
  "get_le32 (drop 8 (audioHeader codec now enc)) = 0"
  "get_le32 (drop 12 (audioHeader codec now enc)) = 0"
  "get_le64 (drop 16 (audioHeader codec now enc)) = now"
  by (simp_all add: audioHeader_bytes hdrSize_def numeral_eq_Suc)

text \<open>A peer whose media channel receives the frame hands over header and payload.\<close>

lemma peer_reads_frame:
  assumes "length hdr = hdrSize" "length pl \<le> 16777184"
  shows "\<exists>ch. Push (newDataChannel 250 100 (int hdrSize)) (frame_bytes (hdr @ pl)) = (ch, None) \<and>
    (\<forall>d. channels d ! 2 = Some ch \<longrightarrow> (\<exists>d'. ReadPacket d = Some (d', Inr (hdr, pl))))"
proof -
  let ?ch = "newDataChannel 250 100 (int hdrSize)" and ?f = "hdr @ pl"
  have "push None ?ch (concat (map frame_bytes [?f])) =
    (None, ?ch\<lparr>popBuf := popBuf ?ch @ [?f],
      bufferedSize := bufferedSize ?ch + int (sum_list (map length [?f]))\<rparr>, None)"
    using assms
    by (intro push_frames [where k = 100])
      (simp_all add: chan_limits_def idle_def accepts_def newDataChannel_def maxFrameSize_def
        maxBufferedSize_def push_bit_eq_mult hdrSize_def)
  then have "Push ?ch (frame_bytes ?f) =
      (?ch\<lparr>popBuf := [?f], bufferedSize := int (length ?f)\<rparr>, None)"
    by (simp add: Push_def newDataChannel_def)
  moreover have "\<exists>d'. ReadPacket d = Some (d', Inr (hdr, pl))"
    if "channels d ! 2 = Some (?ch\<lparr>popBuf := [?f], bufferedSize := int (length ?f)\<rparr>)" for d
    using assms(1) that by (simp add: ReadPacket_def popResult_def chanPop_def)
  ultimately show ?thesis by blast
qed

subsection \<open>Results\<close>

text \<open>
  Claim C22. A motor command on a CS2 connection: an operation out of 0 to 4 is refused and
  nothing is written; when the call succeeds, every frame it wrote is the same encrypted
  command, and what the camera decrypts from it with the shared key is the motor request with
  exactly that operation.
\<close>

theorem miss_direction_on_wire:
  assumes "SetDirection cs2_io nc c (Inr r) s op = (s', e)" "length r = 8"
  shows "(op < 0 \<or> 4 < op \<longrightarrow> s' = s \<and> e = Some (InvalidMotor op)) \<and>
    (e = None \<longrightarrow> (\<exists>n enc. n \<ge> 1 \<and>
      cs2_out s' = cs2_out s @ replicate n (frame_bytes (be32 0x1001 @ enc)) \<and>
      missDecode nc enc (ckey c) =
        (Inr (be32 0x112 @ bytes_of (''{\"operation\":'' @ dec_int op @ ''}'')) :: cs2_error miss_error + bytes)))"
proof (rule conjI; intro impI)
  assume "op < 0 \<or> 4 < op"
  with assms(1) show "s' = s \<and> e = Some (InvalidMotor op)"
    by (auto simp: SetDirection_def motorCommand_def)
next
  assume "e = None"
  with cs2.direction_command [of nc c r s op s'] assms
  show "\<exists>n enc. n \<ge> 1 \<and> cs2_out s' = cs2_out s @ replicate n (frame_bytes (be32 0x1001 @ enc)) \<and>
      missDecode nc enc (ckey c) =
        (Inr (be32 0x112 @ bytes_of (''{\"operation\":'' @ dec_int op @ ''}'')) :: cs2_error miss_error + bytes)"
    by (auto simp: command_frame_def cmdEncoded_def cmdMotorReq_def)
qed

definition demo_cipher :: cipher where
  "demo_cipher key nonce = (if length key = 32 then Some (\<lambda>i. of_nat i + hd nonce) else None)"

definition demo_client :: client where
  "demo_client = \<lparr>ckey = replicate 32 7, cmodel = ''chuangmi.camera.046c04''\<rparr>"

definition demo_link :: cs2_link where
  "demo_link = \<lparr>linkConn = newConn True, linkTurns = [], linkErrs = []\<rparr>"

theorem miss_direction_on_wire_witness:
  "\<exists>s' n enc. SetDirection cs2_io demo_cipher demo_client (Inr (replicate 8 1)) demo_link 3 = (s', None) \<and>
    cs2_out s' = cs2_out demo_link @ replicate n (frame_bytes (be32 0x1001 @ enc)) \<and>
    missDecode demo_cipher enc (ckey demo_client) =
      (Inr (be32 0x112 @ bytes_of (''{\"operation\":'' @ dec_int 3 @ ''}'')) :: cs2_error miss_error + bytes)"
proof -
  obtain s' where s: "SetDirection cs2_io demo_cipher demo_client (Inr (replicate 8 1)) demo_link 3 = (s', None)"
    by (simp add: SetDirection_def motorCommand_def missWriteCommand_def missEncode_def demo_cipher_def
        demo_client_def demo_link_def cs2_io_def WriteCommand_def newConn_def)
  show ?thesis using miss_direction_on_wire [OF s] s by auto
qed



text \<open>
  The shared key: texts of two 32-byte keys in hexadecimal are decoded exactly, and the
  only way to a panic is a text that decodes to more than the 32 bytes of the array.
\<close>

lemma miss_shared_key:
  "(length pub = 32 \<and> length priv = 32 \<longrightarrow>
     CalcSharedKey pre (hex_text pub) (hex_text priv) = Inr (pre pub priv)) \<and>
   (length pub > 32 \<longrightarrow> CalcSharedKey pre (hex_text pub) priv' = Inl KeyPanic) \<and>
   (length d \<le> 65 \<and> length p \<le> 65 \<longrightarrow> CalcSharedKey pre d p \<noteq> Inl KeyPanic)"
proof -
  have np: "hexInto room t \<noteq> HexPanic" if "length t \<le> 2 * room + 1" for room t
    using that
  proof (induction room t rule: hexInto.induct)
    case (3 room c d cs)
    then show ?case
      by (cases "hex_value c"; cases "hex_value d") (auto split: hex_result.splits)
  qed simp_all
  have "CalcSharedKey pre d p \<noteq> Inl KeyPanic" if "length d \<le> 65" "length p \<le> 65"
    using np [of d 32] np [of p 32] that by (simp add: CalcSharedKey_def split: hex_result.splits)
  moreover have "CalcSharedKey pre (hex_text pub) (hex_text priv) = Inr (pre pub priv)"
    if "length pub = 32" "length priv = 32"
    using that by (simp add: CalcSharedKey_def hexInto_hex_text go_copy_def Let_def)
  moreover have "CalcSharedKey pre (hex_text pub) priv' = Inl KeyPanic" if "length pub > 32"
    using that by (simp add: CalcSharedKey_def hexInto_overflow)
  ultimately show ?thesis by blast
qed

text \<open>
  Opening a client over CS2: whatever fails after the connection was opened (the login
  write, the answer, or an answer without success) leaves the connection closed, and a client is
  only handed out after an answer that contains \<open>"result":"success"\<close>.
\<close>

lemma miss_new_client:
  assumes "NewClient cs2_io pre dialCs2 dialTutk q = Some (s, res)"
  shows "(case (s, res) of
      (Some s', Inl e) \<Rightarrow> closed (linkConn s')
    | (Some s', Inr cl) \<Rightarrow> (\<exists>s0 s1 cmd data. ReadCommand s0 = Some (s1, Inr (cmd, data)) \<and>
        linkConn s' = s1 \<and> contains data (bytes_of ''\"result\":\"success\"''))
    | (None, Inl e) \<Rightarrow> True
    | (None, Inr cl) \<Rightarrow> False)"
  using assms
  by (auto simp: NewClient_def login_def cs2_io_def connClose_def
      split: option.splits sum.splits prod.splits if_splits) blast+

end
