(* ===== verification/MissProducer.thy ===== *)
theory MissProducer
  imports MissClient AnnexB Opus
begin

section \<open>The MISS producer\<close>

text \<open>
  Models \<open>pkg/xiaomi/miss/producer.go\<close> and \<open>pkg/xiaomi/miss/backchannel.go\<close>: the frame rate
  parameter, the probe for codecs, the conversion of camera packets into RTP packets with
  sequence numbers and timestamps, and the sound sent to the camera. The two functions
  \<open>AVCCToCodec\<close>, which build a codec with its SDP line from parameter sets, are the parameters
  \<open>codec264\<close> and \<open>codec265\<close>.
\<close>

subsection \<open>Frame rate and timestamps\<close>

definition parseFPS :: "string \<Rightarrow> u32 option" where
  "parseFPS s =
     (if s = [] then Some 0
      else case parse_uint 32 s of
        None \<Rightarrow> None
      | Some fps \<Rightarrow> if fps = 0 \<or> fps > 120 then None else Some (of_nat fps))"

definition TimeToRTP :: "u64 \<Rightarrow> u64 \<Rightarrow> u32" where
  "TimeToRTP timeMS clockRate = ucast (timeMS * clockRate div 1000)"

definition videoClockRate :: u64 where "videoClockRate = 90000"
definition opusClockRate :: u32 where "opusClockRate = 48000"
definition opusDefaultSamples :: u32 where "opusDefaultSamples = opusClockRate * 40 div 1000"

record normalizer =
  nFps :: u64
  nStarted :: bool
  nSource :: u64
  nTimestamp :: u32

definition new_normalizer :: "u32 \<Rightarrow> normalizer" where
  "new_normalizer fps = \<lparr>nFps = ucast fps, nStarted = False, nSource = 0, nTimestamp = 0\<rparr>"

definition normalize :: "normalizer \<Rightarrow> u64 \<Rightarrow> normalizer \<times> u32" where
  "normalize n source =
     (if nFps n = 0 then (n, TimeToRTP source videoClockRate)
      else if \<not> nStarted n then
        (let t = TimeToRTP source videoClockRate
         in (n\<lparr>nStarted := True, nSource := source, nTimestamp := t\<rparr>, t))
      else if source = nSource n then (n, nTimestamp n)
      else
        let frames = (if source > nSource n
                      then (let f = ((source - nSource n) * nFps n + 500) div 1000
                            in if f = 0 then 1 else f)
                      else 1);
            t = nTimestamp n + ucast (frames * videoClockRate div nFps n)
        in (n\<lparr>nSource := source, nTimestamp := t\<rparr>, t))"

definition opusPacketSamples :: "bytes \<Rightarrow> u32" where
  "opusPacketSamples pl =
     (case pl of
        [] \<Rightarrow> opusDefaultSamples
      | b0 # rest \<Rightarrow>
          let config = drop_bit 3 b0;
              frameSamples =
                (if config < 12 then [480, 960, 1920, 2880] ! unat (config AND 3)
                 else if config < 16 then [480, 960] ! unat (config AND 1)
                 else [120, 240, 480, 960] ! unat (config AND 3)) :: u32;
              code = b0 AND 3
          in if code = 3 \<and> rest = [] then opusDefaultSamples
             else
               let frames = (if code = 0 then 1 else if code = 3 then ucast (hd rest AND 0x3F) else 2);
                   samples = frameSamples * frames
               in if frames = 0 \<or> samples > opusClockRate * 120 div 1000 then opusDefaultSamples
                  else samples)"

lemma codec_distinct [simp]:
  "codecH264 \<noteq> codecH265" "codecH264 \<noteq> codecPCMA" "codecH264 \<noteq> codecOPUS" "codecH265 \<noteq> codecH264"
  "codecH265 \<noteq> codecPCMA" "codecH265 \<noteq> codecOPUS" "codecPCMA \<noteq> codecH264" "codecPCMA \<noteq> codecH265"
  "codecPCMA \<noteq> codecOPUS" "codecOPUS \<noteq> codecH264" "codecOPUS \<noteq> codecH265" "codecOPUS \<noteq> codecPCMA"
  by (simp_all add: miss_consts)

subsection \<open>The probe\<close>

record media_codec =
  mcName :: string
  mcRate :: u32
  mcChannels :: nat
  mcFmtp :: string

datatype media_kind = KindVideo | KindAudio
datatype direction = Recvonly | Sendonly

type_synonym media = "media_kind \<times> direction \<times> media_codec"

datatype 'e probe_result =
    ProbeOk "media list"
  | ProbeNoAudio
  | ProbeNoVideo
  | ProbeFail "'e miss_error"
  | ProbePanic

text \<open>
  One packet: the codecs known after it, or \<open>None\<close> when the NAL type lies out of the buffer's
  range.
\<close>

definition probePacket ::
  "(bytes \<Rightarrow> media_codec) \<Rightarrow> (bytes \<Rightarrow> media_codec) \<Rightarrow> packet \<Rightarrow>
   media_codec option \<Rightarrow> media_codec option \<Rightarrow> (media_codec option \<times> media_codec option) option" where
  "probePacket codec264 codec265 pkt v a =
     (if CodecID pkt = codecH264 then
        (if v = None then
           (let buf = EncodeToAVCC (Payload pkt)
            in case h264NALUType buf of
                 None \<Rightarrow> None
               | Some t \<Rightarrow> Some (if t = 7 then Some (codec264 buf) else v, a))
         else Some (v, a))
      else if CodecID pkt = codecH265 then
        (if v = None then
           (let buf = EncodeToAVCC (Payload pkt)
            in case h265NALUType buf of
                 None \<Rightarrow> None
               | Some t \<Rightarrow> Some (if t = 32 then Some (codec265 buf) else v, a))
         else Some (v, a))
      else if CodecID pkt = codecPCMA then
        Some (v, if a = None
                 then Some \<lparr>mcName = ''PCMA'', mcRate = SampleRate pkt, mcChannels = 0, mcFmtp = []\<rparr>
                 else a)
      else if CodecID pkt = codecOPUS then
        Some (v, if a = None
                 then Some \<lparr>mcName = ''OPUS'', mcRate = 48000, mcChannels = 2, mcFmtp = []\<rparr>
                 else a)
      else Some (v, a))"

definition probeMedias :: "media_codec \<Rightarrow> media_codec option \<Rightarrow> media list" where
  "probeMedias v a =
     (KindVideo, Recvonly, v) #
     (case a of None \<Rightarrow> [] | Some c \<Rightarrow> [(KindAudio, Recvonly, c), (KindAudio, Sendonly, c)])"

text \<open>The loop, one reading of the clock per round; \<open>None\<close> while \<open>ReadPacket\<close> waits.\<close>

fun probe ::
  "('s, 'e) miss_conn \<Rightarrow> cipher \<Rightarrow> client \<Rightarrow> (bytes \<Rightarrow> media_codec) \<Rightarrow> (bytes \<Rightarrow> media_codec) \<Rightarrow> bool \<Rightarrow>
   u64 list \<Rightarrow> 's \<Rightarrow> media_codec option \<Rightarrow> media_codec option \<Rightarrow> ('s \<times> 'e probe_result) option" where
  "probe io nc c c4 c5 audio [] s v a = None"
| "probe io nc c c4 c5 audio (now # nows) s v a =
     (case missReadPacket io nc c now s of
        None \<Rightarrow> None
      | Some (s1, Inl e) \<Rightarrow>
          Some (s1, if v \<noteq> None then ProbeNoAudio else if a \<noteq> None then ProbeNoVideo else ProbeFail e)
      | Some (s1, Inr pkt) \<Rightarrow>
          (case probePacket c4 c5 pkt v a of
             None \<Rightarrow> Some (s1, ProbePanic)
           | Some (v1, a1) \<Rightarrow>
               (case v1 of
                  Some vc \<Rightarrow> if a1 \<noteq> None \<or> \<not> audio then Some (s1, ProbeOk (probeMedias vc a1))
                             else probe io nc c c4 c5 audio nows s1 v1 a1
                | None \<Rightarrow> probe io nc c c4 c5 audio nows s1 v1 a1)))"

subsection \<open>The producer's loop\<close>

record producer_st =
  videoSeq :: u16
  audioSeq :: u16
  audioTS :: u32
  videoTS :: normalizer
  recvBytes :: nat

definition producer_init :: "u32 \<Rightarrow> producer_st" where
  "producer_init fps =
     \<lparr>videoSeq = 0, audioSeq = 0, audioTS = 0, videoTS = new_normalizer fps, recvBytes = 0\<rparr>"

text \<open>One packet: the codec name the receivers are searched for, and the RTP packet, if any.\<close>

definition audioPacket :: "producer_st \<Rightarrow> bytes \<Rightarrow> rtp_packet" where
  "audioPacket st pl =
     \<lparr>rtpVersion = 2, rtpMarker = True, rtpSeq = audioSeq st, rtpTS = audioTS st, rtpPayload = pl\<rparr>"

definition producerStep :: "producer_st \<Rightarrow> packet \<Rightarrow> producer_st \<times> string \<times> rtp_packet option" where
  "producerStep st0 pkt =
     (let st = st0\<lparr>recvBytes := recvBytes st0 + length (Payload pkt)\<rparr> in
      if CodecID pkt = codecH264 \<or> CodecID pkt = codecH265 then
        (case normalize (videoTS st) (Timestamp pkt) of
           (n, ts) \<Rightarrow>
             (st\<lparr>videoSeq := videoSeq st + 1, videoTS := n\<rparr>,
              if CodecID pkt = codecH264 then ''H264'' else ''H265'',
              Some \<lparr>rtpVersion = 0, rtpMarker = False, rtpSeq = videoSeq st, rtpTS = ts,
                    rtpPayload = EncodeToAVCC (Payload pkt)\<rparr>))
      else if CodecID pkt = codecPCMA then
        (st\<lparr>audioSeq := audioSeq st + 1, audioTS := audioTS st + of_nat (length (Payload pkt))\<rparr>,
         ''PCMA'', Some (audioPacket st (Payload pkt)))
      else if CodecID pkt = codecOPUS then
        (st\<lparr>audioSeq := audioSeq st + 1, audioTS := audioTS st + opusPacketSamples (Payload pkt)\<rparr>,
         ''OPUS'', Some (audioPacket st (Payload pkt)))
      else (st, [], None))"

text \<open>The first receiver with that codec name gets the packet.\<close>

definition receiver_of :: "string list \<Rightarrow> string \<Rightarrow> nat option" where
  "receiver_of names name = map_option fst (find (\<lambda>(i, n). n = name) (enumerate 0 names))"

fun producerLoop ::
  "('s, 'e) miss_conn \<Rightarrow> cipher \<Rightarrow> client \<Rightarrow> string list \<Rightarrow> u64 list \<Rightarrow> 's \<Rightarrow> producer_st \<Rightarrow>
   ('s \<times> producer_st \<times> (nat \<times> rtp_packet option) list \<times> 'e miss_error option)" where
  "producerLoop io nc c names [] s st = (s, st, [], None)"
| "producerLoop io nc c names (now # nows) s st =
     (case missReadPacket io nc c now s of
        None \<Rightarrow> (s, st, [], None)
      | Some (s1, Inl e) \<Rightarrow> (s1, st, [], Some e)
      | Some (s1, Inr pkt) \<Rightarrow>
          (case producerStep st pkt of
             (st1, name, rtp) \<Rightarrow>
               (case producerLoop io nc c names nows s1 st1 of
                  (s2, st2, outs, e) \<Rightarrow>
                    (s2, st2, (case receiver_of names name of
                                 Some i \<Rightarrow> (i, rtp) # outs | None \<Rightarrow> outs), e))))"

subsection \<open>Sound to the camera\<close>

text \<open>The handlers collect bytes and write them in chunks of one size.\<close>

definition pcmChunk :: nat where "pcmChunk = 640"
definition pcmaChunk :: nat where "pcmaChunk = 320"

function cutChunks :: "nat \<Rightarrow> bytes \<Rightarrow> bytes list \<times> bytes" where
  "cutChunks sz buf =
     (if sz \<noteq> 0 \<and> length buf \<ge> sz then
        (case cutChunks sz (drop sz buf) of (cs, rest) \<Rightarrow> (take sz buf # cs, rest))
      else ([], buf))"
  by pat_completeness auto
termination by (relation "measure (\<lambda>(sz, buf). length buf)") auto

declare cutChunks.simps [simp del]

definition chunkHandler :: "nat \<Rightarrow> bytes \<Rightarrow> bytes \<Rightarrow> bytes \<times> bytes list" where
  "chunkHandler sz buf samples =
     (case cutChunks sz (buf @ samples) of (cs, rest) \<Rightarrow> (rest, cs))"

text \<open>The Opus handler joins two packets; Go's nil buffer is \<open>None\<close>, a panic is the outer \<open>None\<close>.\<close>

definition opusHandler :: "bytes option \<Rightarrow> bytes \<Rightarrow> (bytes option \<times> bytes list) option" where
  "opusHandler buf pl =
     (case buf of
        None \<Rightarrow> Some (Some pl, [])
      | Some b \<Rightarrow> (case JoinFrames b pl of None \<Rightarrow> None | Some j \<Rightarrow> Some (None, [j])))"

text \<open>Which handler \<open>AddTrack\<close> installs for a track, by the codec's name and the model.\<close>

datatype track_handler = HPcm | HPcma | HOpusJoin | HOpus | HNone

definition trackHandler :: "client \<Rightarrow> string \<Rightarrow> track_handler" where
  "trackHandler c name =
     (if name = ''PCMA'' then (if SpeakerCodec c = codecPCM then HPcm else HPcma)
      else if name = ''OPUS'' then (if SpeakerCodec c = codecOPUS then HOpusJoin else HOpus)
      else HNone)"

subsection \<open>Frame durations\<close>

lemma opus_toc_split:
  fixes b :: u8
  obtains k where "k < 32" "drop_bit 3 b = of_nat k"
proof
  have "unat b < 2 ^ 8" using unsigned_less [of b] by simp
  then show "unat (drop_bit 3 b) < 32" by (simp add: drop_bit_eq_div unat_div less_mult_imp_div_less)
qed simp

definition frame_samples :: "u8 \<Rightarrow> u32" where
  "frame_samples config =
     (if config < 12 then [480, 960, 1920, 2880] ! unat (config AND 3)
      else if config < 16 then [480, 960] ! unat (config AND 1)
      else [120, 240, 480, 960] ! unat (config AND 3))"

lemma frame_samples_header:
  assumes "k < 32"
  shows "120 \<le> unat (frame_samples (of_nat k)) \<and> unat (frame_samples (of_nat k)) \<le> 2880 \<and>
    int (unat (frame_samples (of_nat k))) * 1000000 = 48 * parseFrameSize (of_nat k)"
proof -
  have u: "[0..<32] = [0, 1, 2, 3, 4, 5, 6, 7, 8, 9, 10, 11, 12, 13, 14, 15, 16, 17, 18, 19, 20,
      21, 22, 23, 24, 25, 26, 27, 28, 29, 30, 31]" by code_simp
  have "list_all (\<lambda>k. 120 \<le> unat (frame_samples (of_nat k)) \<and>
      unat (frame_samples (of_nat k)) \<le> 2880 \<and>
      int (unat (frame_samples (of_nat k))) * 1000000 = 48 * parseFrameSize (of_nat k)) [0..<32]"
    unfolding u by (simp add: frame_samples_def parseFrameSize_def)
  with assms show ?thesis by (simp only: list_all_iff) simp
qed

lemma opusPacketSamples_view:
  "opusPacketSamples (b0 # rest) =
     (if b0 AND 3 = 3 \<and> rest = [] then 1920
      else let frames = (if b0 AND 3 = 0 then 1 else if b0 AND 3 = 3 then ucast (hd rest AND 0x3F) else 2);
               samples = frame_samples (drop_bit 3 b0) * frames
           in if frames = 0 \<or> samples > 5760 then 1920 else samples)"
  by (simp add: opusPacketSamples_def frame_samples_def opusDefaultSamples_def opusClockRate_def Let_def)

lemma samples_range:
  assumes "120 \<le> unat f" "unat f \<le> 2880" "unat n < 64" "n \<noteq> 0"
  shows "unat (f * n :: u32) = unat f * unat n" "120 \<le> unat f * unat n"
proof -
  have "unat f * unat n \<le> 2880 * 63" using assms by (intro mult_mono) simp_all
  then show "unat (f * n) = unat f * unat n" by (simp add: unat_word_ariths)
  have "1 \<le> unat n" using assms(4) by (simp add: Suc_leI unat_gt_0)
  then have "120 * 1 \<le> unat f * unat n" using assms(1) by (intro mult_mono) simp_all
  then show "120 \<le> unat f * unat n" by simp
qed

lemma frame_count_small:
  fixes b :: u8
  shows "unat (ucast (b AND 0x3F) :: u32) < 64"
proof -
  have "b AND 0x3F = b mod 64"
    using take_bit_eq_mask [of 6 b] by (simp add: mask_eq_exp_minus_1 take_bit_eq_mod)
  then have "unat (b AND 0x3F) < 64" by (simp add: unat_mod)
  then show ?thesis by (simp add: unsigned_ucast_eq take_bit_nat_eq_self)
qed

lemma opus_samples_bounds:
  "120 \<le> unat (opusPacketSamples pl) \<and> unat (opusPacketSamples pl) \<le> 5760"
proof (cases pl)
  case Nil
  then show ?thesis by (simp add: opusPacketSamples_def opusDefaultSamples_def opusClockRate_def)
next
  case (Cons b0 rest)
  obtain k where k: "k < 32" "drop_bit 3 b0 = of_nat k" by (rule opus_toc_split)
  note f = frame_samples_header [OF k(1)]
  define n :: u32 where "n = (if b0 AND 3 = 0 then 1 else if b0 AND 3 = 3 then ucast (hd rest AND 0x3F) else 2)"
  have n: "unat n < 64" using frame_count_small by (simp add: n_def)
  have o: "opusPacketSamples pl = (if b0 AND 3 = 3 \<and> rest = [] then 1920
      else if n = 0 \<or> frame_samples (of_nat k) * n > 5760 then 1920 else frame_samples (of_nat k) * n)"
    unfolding Cons opusPacketSamples_view n_def k(2) Let_def by (rule refl)
  show ?thesis
    using samples_range [of "frame_samples (of_nat k)" n] f n
    by (auto simp: o word_less_nat_alt not_less)
qed

lemma opus_samples_header:
  assumes "UnmarshalHeader pl = Some h" "opusCount h \<noteq> 0xFF"
  shows "int (unat (opusPacketSamples pl)) * 1000000 = 48 * opusFrameSize h * int (unat (opusCount h))"
proof -
  from assms(1) obtain b0 rest where pl: "pl = b0 # rest" by (auto simp: UnmarshalHeader_def split: list.splits)
  obtain k where k: "k < 32" "drop_bit 3 b0 = of_nat k" by (rule opus_toc_split)
  note f = frame_samples_header [OF k(1)]
  have h: "opusFrameSize h = parseFrameSize (of_nat k)" "opusCount h = parseFrames (b0 AND 3)"
    using assms(1) by (auto simp: pl UnmarshalHeader_def k(2) Let_def)
  with assms(2) have c: "b0 AND 3 = 0 \<or> b0 AND 3 = 1 \<or> b0 AND 3 = 2"
    by (auto simp: parseFrames_def split: if_splits)
  then have n3: "b0 AND 3 \<noteq> 3" by auto
  define n :: u32 where "n = (if b0 AND 3 = 0 then 1 else 2)"
  have n: "n \<noteq> 0" "unat n \<le> 2" "int (unat n) = int (unat (opusCount h))"
    using c by (auto simp: n_def h parseFrames_def)
  have o: "opusPacketSamples pl = (if frame_samples (of_nat k) * n > 5760 then 1920 else frame_samples (of_nat k) * n)"
    unfolding pl opusPacketSamples_view using n3 n(1) by (simp add: Let_def n_def k(2))
  have u: "unat (frame_samples (of_nat k) * n) = unat (frame_samples (of_nat k)) * unat n"
    using samples_range(1) [of "frame_samples (of_nat k)" n] f n by simp
  have "unat (frame_samples (of_nat k)) * unat n \<le> 2880 * 2" using f n by (intro mult_mono) simp_all
  then have "unat (opusPacketSamples pl) = unat (frame_samples (of_nat k)) * unat n"
    using u by (simp add: o word_less_nat_alt)
  then have "int (unat (opusPacketSamples pl)) * 1000000
      = int (unat (frame_samples (of_nat k))) * 1000000 * int (unat n)" by simp
  then show ?thesis using f n(3) h(1) by simp
qed

subsection \<open>Steady timestamps\<close>

fun normalizeAll :: "normalizer \<Rightarrow> u64 list \<Rightarrow> u32 list" where
  "normalizeAll n [] = []"
| "normalizeAll n (s # ss) = (case normalize n s of (n', t) \<Rightarrow> t # normalizeAll n' ss)"

text \<open>
  A gap of \<open>g\<close> milliseconds is that of \<open>k\<close> frames: none for packets of the same frame, else
  \<open>k\<close> frame intervals up to half an interval of jitter.
\<close>

definition frame_gap :: "nat \<Rightarrow> nat \<Rightarrow> nat \<Rightarrow> bool" where
  "frame_gap fps g k \<longleftrightarrow> (g = 0 \<and> k = 0) \<or>
     (0 < g \<and> 1 \<le> k \<and> 1000 * k < g * fps + 500 \<and> g * fps < 1000 * k + 500)"

fun camera_times :: "nat \<Rightarrow> (nat \<times> nat) list \<Rightarrow> nat list" where
  "camera_times s [] = [s]"
| "camera_times s ((g, k) # gks) = s # camera_times (s + g) gks"

fun rtp_times :: "nat \<Rightarrow> u32 \<Rightarrow> (nat \<times> nat) list \<Rightarrow> u32 list" where
  "rtp_times fps t [] = [t]"
| "rtp_times fps t ((g, k) # gks) = t # rtp_times fps (t + of_nat (k * 90000 div fps)) gks"

lemma unat_of_nat_64: "n < 2 ^ 64 \<Longrightarrow> unat (of_nat n :: u64) = n"
  by (simp add: unsigned_of_nat take_bit_nat_eq_self)

lemma of_nat_div_64:
  assumes "a < 2 ^ 64" "b < 2 ^ 64"
  shows "(of_nat a :: u64) div of_nat b = of_nat (a div b)"
proof (rule word_eq_iff_unsigned [where ?'a = nat, THEN iffD2])
  have "a div b < 2 ^ 64" using assms(1) div_le_dividend le_less_trans by blast
  then show "unat ((of_nat a :: u64) div of_nat b) = unat (of_nat (a div b) :: u64)"
    using assms by (simp only: unat_div unat_of_nat_64)
qed

lemma of_nat_less_64:
  "a < 2 ^ 64 \<Longrightarrow> b < 2 ^ 64 \<Longrightarrow> (of_nat a :: u64) < of_nat b \<longleftrightarrow> a < b"
  by (simp only: word_less_nat_alt unat_of_nat_64)

lemma of_nat_eq_64: "a < 2 ^ 64 \<Longrightarrow> b < 2 ^ 64 \<Longrightarrow> (of_nat a :: u64) = of_nat b \<longleftrightarrow> a = b"
  by (metis unat_of_nat_64)

lemma ucast_of_nat_32: "(ucast (of_nat n :: u64) :: u32) = of_nat n"
  by (simp only: unsigned_of_nat word_of_nat_eq_iff take_bit_take_bit) simp

lemma normalize_gap:
  assumes g: "frame_gap fps g k" and fps: "1 \<le> fps" "fps \<le> 120" and s: "s + g < 2 ^ 40"
    and n: "n = \<lparr>nFps = of_nat fps, nStarted = True, nSource = of_nat s, nTimestamp = t\<rparr>"
  shows "normalize n (of_nat (s + g)) =
    (n\<lparr>nSource := of_nat (s + g), nTimestamp := t + of_nat (k * 90000 div fps)\<rparr>,
     t + of_nat (k * 90000 div fps))"
proof -
  have lim: "s < 2 ^ 64" "s + g < 2 ^ 64" "fps < 2 ^ 64" "(0 :: nat) < 2 ^ 64" using s fps by simp_all
  have fps0: "(of_nat fps :: u64) \<noteq> 0" using of_nat_eq_64 [of fps 0] lim fps by simp
  have gf: "g * fps \<le> 2 ^ 40 * 120" using s fps by (intro mult_mono) simp_all
  show ?thesis
  proof (cases "g = 0")
    case True
    then have "k = 0" using g by (simp add: frame_gap_def)
    with True fps0 n show ?thesis by (simp add: normalize_def)
  next
    case False
    then have k: "1 \<le> k" "1000 * k < g * fps + 500" "g * fps < 1000 * k + 500"
      using g by (auto simp: frame_gap_def)
    have later: "(of_nat s :: u64) < of_nat (s + g)"
      using of_nat_less_64 [of s "s + g"] lim False by simp
    have "(of_nat (s + g) - of_nat s :: u64) * of_nat fps + 500 = of_nat (g * fps + 500)" by simp
    then have f: "((of_nat (s + g) - of_nat s :: u64) * of_nat fps + 500) div 1000 = of_nat k"
    proof -
      assume e: "(of_nat (s + g) - of_nat s :: u64) * of_nat fps + 500 = of_nat (g * fps + 500)"
      have "(1000 :: u64) = of_nat 1000" by simp
      then have "((of_nat (s + g) - of_nat s :: u64) * of_nat fps + 500) div 1000
          = of_nat ((g * fps + 500) div 1000)"
        unfolding e using gf by (simp only:) (rule of_nat_div_64, simp_all)
      moreover have "(g * fps + 500) div 1000 = k" using k(2,3) by linarith
      ultimately show ?thesis by simp
    qed
    have kb: "k * 90000 < 2 ^ 64" using k(2) gf by simp
    have k0: "(of_nat k :: u64) \<noteq> 0" using of_nat_eq_64 [of k 0] kb k(1) lim by simp
    have r: "(of_nat k * videoClockRate div of_nat fps :: u64) = of_nat (k * 90000 div fps)"
    proof -
      have "(of_nat k * videoClockRate :: u64) = of_nat (k * 90000)" by (simp add: videoClockRate_def)
      then show ?thesis using of_nat_div_64 [OF kb lim(3)] by (simp only:)
    qed
    have "(of_nat (s + g) :: u64) \<noteq> of_nat s" using later by auto
    then show ?thesis
      unfolding n normalize_def Let_def
      using fps0 later k0 by (simp only: normalizer.simps f r ucast_of_nat_32 if_False if_True simp_thms)
  qed
qed

lemma times_head:
  "camera_times s gks = s # tl (camera_times s gks)" "rtp_times fps t gks = t # tl (rtp_times fps t gks)"
  by (cases gks; force)+

lemma normalizeAll_gaps:
  assumes "\<forall>(g, k) \<in> set gks. frame_gap fps g k" "1 \<le> fps" "fps \<le> 120"
    and "s + sum_list (map fst gks) < 2 ^ 40"
  shows "normalizeAll \<lparr>nFps = of_nat fps, nStarted = True, nSource = of_nat s, nTimestamp = t\<rparr>
      (map of_nat (tl (camera_times s gks))) = tl (rtp_times fps t gks)"
  using assms(1,4)
proof (induction gks arbitrary: s t)
  case (Cons gk gks)
  obtain g k where gk: "gk = (g, k)" by (cases gk)
  let ?n = "\<lambda>s t. \<lparr>nFps = of_nat fps, nStarted = True, nSource = of_nat s, nTimestamp = t\<rparr> :: normalizer"
  let ?t = "t + of_nat (k * 90000 div fps)"
  have "normalize (?n s t) (of_nat (s + g)) = (?n (s + g) ?t, ?t)"
    using normalize_gap [of fps g k s "?n s t" t] Cons.prems assms(2,3) gk by simp
  moreover have "normalizeAll (?n (s + g) ?t) (map of_nat (tl (camera_times (s + g) gks)))
      = tl (rtp_times fps ?t gks)"
    using Cons.prems gk by (intro Cons.IH) simp_all
  moreover have "(map of_nat (camera_times (s + g) gks) :: u64 list) =
      of_nat (s + g) # map of_nat (tl (camera_times (s + g) gks))"
    by (subst times_head(1)) simp
  ultimately have "normalizeAll (?n s t) (map of_nat (camera_times (s + g) gks)) = ?t # tl (rtp_times fps ?t gks)"
    by simp
  also have "\<dots> = rtp_times fps ?t gks" by (rule times_head(2) [symmetric])
  finally show ?case using gk by simp
qed simp

subsection \<open>Chunks\<close>

lemma cutChunks_append:
  "0 < sz \<Longrightarrow> cutChunks sz (a @ b) =
    (case cutChunks sz a of (cs, r) \<Rightarrow> case cutChunks sz (r @ b) of (ds, r') \<Rightarrow> (cs @ ds, r'))"
proof (induction sz a rule: cutChunks.induct)
  case (1 sz a)
  show ?case
  proof (cases "sz \<le> length a")
    case True
    have "cutChunks sz (a @ b) = (case cutChunks sz (drop sz a @ b) of (cs, r) \<Rightarrow> (take sz a # cs, r))"
      using True 1(2) by (subst cutChunks.simps) simp
    then show ?thesis
      using True 1 by (simp add: cutChunks.simps [of sz a] split: prod.splits)
  next
    case False
    then show ?thesis by (simp add: cutChunks.simps [of sz a])
  qed
qed

lemma cutChunks_result:
  assumes "0 < sz" "cutChunks sz buf = (cs, rest)"
  shows "concat cs @ rest = buf \<and> (\<forall>c \<in> set cs. length c = sz) \<and> length rest < sz"
  using assms
proof (induction sz buf arbitrary: cs rest rule: cutChunks.induct)
  case (1 sz buf)
  show ?case
  proof (cases "sz \<le> length buf")
    case True
    obtain ds r where d: "cutChunks sz (drop sz buf) = (ds, r)" by (cases "cutChunks sz (drop sz buf)")
    then have cs: "cs = take sz buf # ds" "rest = r"
      using 1(2,3) True by (simp_all add: cutChunks.simps [of sz buf])
    have "concat ds @ r = drop sz buf \<and> (\<forall>c \<in> set ds. length c = sz) \<and> length r < sz"
      using 1(1) [OF _ 1(2) d] 1(2) True by simp
    then show ?thesis using True by (simp add: cs)
  next
    case False
    then show ?thesis using 1(3) by (simp add: cutChunks.simps [of sz buf])
  qed
qed

fun feedChunks :: "nat \<Rightarrow> bytes \<Rightarrow> bytes list \<Rightarrow> bytes \<times> bytes list" where
  "feedChunks sz buf [] = (buf, [])"
| "feedChunks sz buf (x # xs) =
     (case chunkHandler sz buf x of (buf', cs) \<Rightarrow>
      case feedChunks sz buf' xs of (buf'', ds) \<Rightarrow> (buf'', cs @ ds))"

lemma feedChunks_cut:
  assumes "0 < sz" "length buf < sz"
  shows "feedChunks sz buf xs = prod.swap (cutChunks sz (buf @ concat xs))"
  using assms(2)
proof (induction xs arbitrary: buf)
  case Nil
  then show ?case by (simp add: cutChunks.simps)
next
  case (Cons x xs)
  obtain cs r where c: "cutChunks sz (buf @ x) = (cs, r)" by (cases "cutChunks sz (buf @ x)")
  have r: "length r < sz" using cutChunks_result [OF assms(1) c] by simp
  show ?case
    using Cons.IH [OF r] cutChunks_append [OF assms(1), of "buf @ x" "concat xs"]
    by (simp add: chunkHandler_def c split: prod.splits)
qed

subsection \<open>Sequences of RTP packets\<close>

fun producerRun :: "producer_st \<Rightarrow> packet list \<Rightarrow> (string \<times> rtp_packet option) list" where
  "producerRun st [] = []"
| "producerRun st (p # ps) =
     (case producerStep st p of (st', name, rtp) \<Rightarrow> (name, rtp) # producerRun st' ps)"

definition deliveries :: "string list \<Rightarrow> (string \<times> rtp_packet option) list \<Rightarrow> (nat \<times> rtp_packet option) list" where
  "deliveries names outs =
     List.map_filter (\<lambda>(name, rtp). map_option (\<lambda>i. (i, rtp)) (receiver_of names name)) outs"

lemma producerLoop_run:
  "producerLoop io nc c names nows s st = (s', st', outs, e) \<Longrightarrow>
   \<exists>ps. length ps \<le> length nows \<and> outs = deliveries names (producerRun st ps)"
proof (induction io nc c names nows s st arbitrary: s' st' outs e rule: producerLoop.induct)
  case (1 io nc c names s st)
  then show ?case by (intro exI [of _ "[]"]) (simp add: deliveries_def map_filter_simps)
next
  case (2 io nc c names now nows s st)
  have nil: ?case if "outs = []"
    using that by (intro exI [of _ "[]"]) (simp add: deliveries_def map_filter_simps)
  show ?case
  proof (cases "missReadPacket io nc c now s")
    case None
    then show ?thesis using 2(2) nil by simp
  next
    case (Some r)
    obtain s1 x where r: "r = (s1, x)" by (cases r)
    show ?thesis
    proof (cases x)
      case (Inl e1)
      then show ?thesis using 2(2) nil Some r by simp
    next
      case (Inr pkt)
      obtain st1 name rtp where p: "producerStep st pkt = (st1, name, rtp)" by (cases "producerStep st pkt")
      obtain s2 st2 outs2 e2 where l: "producerLoop io nc c names nows s1 st1 = (s2, st2, outs2, e2)"
        by (cases "producerLoop io nc c names nows s1 st1")
      from 2(1) [OF Some r [symmetric] Inr p [symmetric] refl l]
      obtain ps where ps: "length ps \<le> length nows" "outs2 = deliveries names (producerRun st1 ps)"
        using r by auto
      have "outs = (case receiver_of names name of Some i \<Rightarrow> (i, rtp) # outs2 | None \<Rightarrow> outs2)"
        using 2(2) Some r Inr p l by simp
      then have "outs = deliveries names (producerRun st (pkt # ps))"
        using ps(2) p by (simp add: deliveries_def map_filter_simps split: option.splits)
      then show ?thesis using ps(1) by (intro exI [of _ "pkt # ps"]) simp
    qed
  qed
qed

subsection \<open>Sequence numbers and audio time\<close>

definition is_video :: "string \<times> rtp_packet option \<Rightarrow> bool" where
  "is_video o1 \<longleftrightarrow> fst o1 = ''H264'' \<or> fst o1 = ''H265''"

definition is_audio :: "string \<times> rtp_packet option \<Rightarrow> bool" where
  "is_audio o1 \<longleftrightarrow> fst o1 = ''PCMA'' \<or> fst o1 = ''OPUS''"

text \<open>How much time a sound packet takes, at the clock of its codec.\<close>

definition duration :: "string \<times> rtp_packet option \<Rightarrow> u32" where
  "duration o1 =
     (case snd o1 of
        None \<Rightarrow> 0
      | Some r \<Rightarrow> if fst o1 = ''PCMA'' then of_nat (length (rtpPayload r)) else opusPacketSamples (rtpPayload r))"

text \<open>Consecutive sequence numbers, and timestamps that are the sum of the durations before.\<close>

fun seq_run :: "u16 \<Rightarrow> (string \<times> rtp_packet option) list \<Rightarrow> bool" where
  "seq_run n [] = True"
| "seq_run n ((_, r) # rs) = (case r of None \<Rightarrow> False | Some p \<Rightarrow> rtpSeq p = n \<and> seq_run (n + 1) rs)"

fun time_run :: "u32 \<Rightarrow> (string \<times> rtp_packet option) list \<Rightarrow> bool" where
  "time_run t [] = True"
| "time_run t ((nm, r) # rs) =
     (case r of None \<Rightarrow> False | Some p \<Rightarrow> rtpTS p = t \<and> time_run (t + duration (nm, r)) rs)"

lemma producerRun_runs:
  "seq_run (videoSeq st) (filter is_video (producerRun st ps)) \<and>
   seq_run (audioSeq st) (filter is_audio (producerRun st ps)) \<and>
   time_run (audioTS st) (filter is_audio (producerRun st ps)) \<and>
   (\<forall>o1 \<in> set (producerRun st ps). fst o1 \<noteq> [] \<longrightarrow> is_video o1 \<or> is_audio o1)"
proof (induction ps arbitrary: st)
  case (Cons p ps)
  obtain st' nm r where s: "producerStep st p = (st', nm, r)" by (cases "producerStep st p")
  note view = s [unfolded producerStep_def Let_def]
  obtain n t where n: "normalize (videoTS st) (Timestamp p) = (n, t)"
    by (cases "normalize (videoTS st) (Timestamp p)")
  consider (video) "nm = ''H264'' \<or> nm = ''H265''" "\<exists>q. r = Some q \<and> rtpSeq q = videoSeq st"
      "videoSeq st' = videoSeq st + 1" "audioSeq st' = audioSeq st" "audioTS st' = audioTS st"
    | (audio) "nm = ''PCMA'' \<or> nm = ''OPUS''" "\<exists>q. r = Some q \<and> rtpSeq q = audioSeq st \<and> rtpTS q = audioTS st"
      "audioSeq st' = audioSeq st + 1" "audioTS st' = audioTS st + duration (nm, r)" "videoSeq st' = videoSeq st"
    | (other) "nm = []" "videoSeq st' = videoSeq st" "audioSeq st' = audioSeq st" "audioTS st' = audioTS st"
  proof (cases "CodecID p = codecH264 \<or> CodecID p = codecH265")
    case True
    then show ?thesis using view n by (intro video) auto
  next
    case no: False
    show ?thesis
    proof (cases "CodecID p = codecPCMA \<or> CodecID p = codecOPUS")
      case True
      then show ?thesis using view no by (intro audio) (auto simp: audioPacket_def duration_def)
    next
      case False
      then show ?thesis using view no by (intro other) auto
    qed
  qed
  then show ?case
  proof cases
    case video
    then have "is_video (nm, r)" "\<not> is_audio (nm, r)" by (auto simp: is_video_def is_audio_def)
    with video Cons.IH [of st'] show ?thesis by (elim exE conjE) (simp add: s)
  next
    case audio
    then have "\<not> is_video (nm, r)" "is_audio (nm, r)" by (auto simp: is_video_def is_audio_def)
    with audio Cons.IH [of st'] show ?thesis by (elim exE conjE) (simp add: s)
  next
    case other
    then have "\<not> is_video (nm, r)" "\<not> is_audio (nm, r)" by (auto simp: is_video_def is_audio_def)
    with other Cons.IH [of st'] show ?thesis by (simp add: s)
  qed
qed simp

lemma parseFPS_range: "parseFPS s = Some f \<Longrightarrow> f \<noteq> 0 \<Longrightarrow> 1 \<le> unat f \<and> unat f \<le> 120"
proof -
  assume p: "parseFPS s = Some f" "f \<noteq> 0"
  then obtain n where "n \<noteq> 0" "\<not> n > 120" "f = of_nat n"
    by (auto simp: parseFPS_def split: if_splits option.splits)
  then have n: "1 \<le> n" "n \<le> 120" "f = of_nat n" by simp_all
  then have "unat f = n" by (simp add: unsigned_of_nat take_bit_nat_eq_self)
  with n show ?thesis by simp
qed

subsection \<open>Results\<close>

text \<open>
  Claim C24. With a frame rate from the URL, camera times that jitter by up to half a frame
  interval, that repeat for the packets of one frame and that skip \<open>k - 1\<close> lost frames become
  RTP timestamps without jitter: each packet's timestamp is the one before plus exactly \<open>k\<close>
  frame intervals at 90 kHz, starting at the camera's time; no intermediate value overflows for
  camera clocks below \<open>2^40\<close> milliseconds.
\<close>

theorem miss_steady_timestamps:
  assumes "parseFPS txt = Some f" "f \<noteq> 0"
    and "\<forall>(g, k) \<in> set gks. frame_gap (unat f) g k"
    and "s + sum_list (map fst gks) < 2 ^ 40"
  shows "normalizeAll (new_normalizer f) (map of_nat (camera_times s gks))
    = rtp_times (unat f) (of_nat (s * 90)) gks"
proof -
  note fps = parseFPS_range [OF assms(1,2)]
  have u: "(ucast f :: u64) = of_nat (unat f)" by (simp add: unsigned_ucast_eq)
  have f0: "(of_nat (unat f) :: u64) \<noteq> 0" using of_nat_eq_64 [of "unat f" 0] fps by simp
  have "(of_nat s * videoClockRate :: u64) = of_nat (s * 90000)" "(1000 :: u64) = of_nat 1000"
    by (simp_all add: videoClockRate_def)
  moreover have "s * 90000 < 2 ^ 64" "(1000 :: nat) < 2 ^ 64" using assms(4) by simp_all
  ultimately have "of_nat s * videoClockRate div 1000 = (of_nat (s * 90000 div 1000) :: u64)"
    using of_nat_div_64 by metis
  then have t: "TimeToRTP (of_nat s) videoClockRate = of_nat (s * 90)"
    by (simp only: TimeToRTP_def ucast_of_nat_32) (simp add: div_mult2_eq [of _ 1000 1, symmetric])
  have n0: "normalize (new_normalizer f) (of_nat s) =
      (\<lparr>nFps = of_nat (unat f), nStarted = True, nSource = of_nat s, nTimestamp = of_nat (s * 90)\<rparr>,
       of_nat (s * 90))"
    using f0 by (simp add: normalize_def new_normalizer_def Let_def u t del: of_nat_unat)
  have "normalizeAll (new_normalizer f) (map of_nat (camera_times s gks)) =
      of_nat (s * 90) # normalizeAll \<lparr>nFps = of_nat (unat f), nStarted = True, nSource = of_nat s,
        nTimestamp = of_nat (s * 90)\<rparr> (map of_nat (tl (camera_times s gks)))"
    by (subst times_head(1)) (simp only: list.map normalizeAll.simps n0 prod.case)
  also have "\<dots> = of_nat (s * 90) # tl (rtp_times (unat f) (of_nat (s * 90)) gks)"
    using normalizeAll_gaps [OF assms(3) _ _ assms(4)] fps by simp
  finally show ?thesis by (simp only: times_head(2) [symmetric])
qed

theorem miss_steady_timestamps_witness:
  "normalizeAll (new_normalizer 25) (map of_nat (camera_times 1000 [(0, 0), (39, 1), (42, 1), (81, 2)]))
    = [90000, 90000, 93600, 97200, 104400]"
proof -
  have p: "parseFPS ''25'' = Some 25"
    by (simp add: parseFPS_def parse_uint_def digit_val_def)
  show ?thesis
    using miss_steady_timestamps [OF p, of "[(0, 0), (39, 1), (42, 1), (81, 2)]" 1000]
    by (simp add: frame_gap_def)
qed

text \<open>
  The duration computed for an Opus packet is between 2.5 and 120 ms whatever its bytes,
  and for the codes with one or two frames it is the frame size times the number of frames that
  \<open>pkg/opus\<close> reads from the same header, at 48 kHz.
\<close>

lemma miss_opus_samples:
  "120 \<le> unat (opusPacketSamples pl) \<and> unat (opusPacketSamples pl) \<le> 5760 \<and>
   (\<forall>h. UnmarshalHeader pl = Some h \<longrightarrow> opusCount h \<noteq> 0xFF \<longrightarrow>
     int (unat (opusPacketSamples pl)) * 1000000 = 48 * opusFrameSize h * int (unat (opusCount h)))"
  using opus_samples_bounds [of pl] opus_samples_header [of pl] by blast

text \<open>
  Sound for the camera is cut into chunks of exactly 40 ms, in order and without a gap:
  what was written and what is still held back is what came in, less than a chunk is held back,
  and how the incoming sound was cut into packets makes no difference.
\<close>

lemma miss_backchannel_chunks:
  assumes "sz = pcmChunk \<or> sz = pcmaChunk" "feedChunks sz [] xs = (rest, cs)"
  shows "concat cs @ rest = concat xs \<and> (\<forall>c \<in> set cs. length c = sz) \<and> length rest < sz \<and>
    (\<forall>ys. concat ys = concat xs \<longrightarrow> feedChunks sz [] ys = (rest, cs))"
proof -
  have sz: "0 < sz" "length [] < sz" using assms(1) by (auto simp: pcmChunk_def pcmaChunk_def)
  have c: "cutChunks sz (concat xs) = (cs, rest)"
    using assms(2) feedChunks_cut [OF sz, of xs] by (cases "cutChunks sz (concat xs)") simp
  show ?thesis
    using cutChunks_result [OF sz(1) c] c by (simp add: feedChunks_cut [OF sz])
qed


text \<open>A connection whose media channel holds one encrypted sound packet.\<close>

definition demo_media :: cs2_link where
  "demo_media = demo_link\<lparr>linkConn := setChannel (newConn True) 2 ((newDataChannel 250 100 32)
     \<lparr>popBuf := [audioHeader 1027 1234 [] @ replicate 8 1 @ [5, 7, 5]]\<rparr>)\<rparr>"


text \<open>
  The probe and malformed video: as long as no video codec is known, a packet of an Annex
  B stream panics exactly when the stream has no unit besides delimiters (an empty payload for
  one), because the NAL type is read at a fixed offset of an empty buffer; every other packet is
  safe, and one whose first unit is an H.264 SPS or an H.265 VPS gives the video codec.
\<close>

lemma miss_probe_packet:
  assumes "CodecID pkt = codecH264 \<or> CodecID pkt = codecH265"
    and "Payload pkt = annexb_stream us" "\<forall>(l, n) \<in> set us. clean n \<and> small n"
  shows "(probePacket c4 c5 pkt None a = None \<longleftrightarrow> wanted us = []) \<and>
    (\<forall>n ns. wanted us = n # ns \<longrightarrow> CodecID pkt = codecH264 \<longrightarrow> hd n AND 0x1F = 7 \<longrightarrow>
      probePacket c4 c5 pkt None a = Some (Some (c4 (avcc_units (wanted us))), a)) \<and>
    (\<forall>n ns. wanted us = n # ns \<longrightarrow> CodecID pkt = codecH265 \<longrightarrow> drop_bit 1 (hd n) AND 0x3F = 32 \<longrightarrow>
      probePacket c4 c5 pkt None a = Some (Some (c5 (avcc_units (wanted us))), a))"
proof -
  have e: "EncodeToAVCC (Payload pkt) = avcc_units (wanted us)"
    unfolding assms(2) using assms(3) by (intro EncodeToAVCC_stream) auto
  show ?thesis
  proof (cases "wanted us")
    case Nil
    then show ?thesis
      using assms(1) by (auto simp: probePacket_def e h264NALUType_def h265NALUType_def)
  next
    case (Cons n ns)
    then have "n \<in> set (wanted us)" by simp
    then have "n \<noteq> []" using assms(3) by (auto simp: wanted_def clean_def)
    then have t: "h264NALUType (avcc_units (n # ns)) = Some (hd n AND 0x1F)"
      "h265NALUType (avcc_units (n # ns)) = Some (drop_bit 1 (hd n) AND 0x3F)"
      by (simp_all add: NALUType_unit)
    show ?thesis
      using assms(1) by (auto simp: probePacket_def e t Cons Let_def simp del: avcc_units_simps)
  qed
qed

end
