(* ===== verification/PtzLease.thy ===== *)
theory PtzLease
  imports Prelude
begin

section \<open>Shared PTZ connections\<close>

text \<open>
  Models \<open>ptzCamera\<close> of \<open>internal/xiaomi/ptz_connection.go\<close>: the requests that share one camera
  connection (a lease), the goroutine that connects, the keepalive timers, the commands that a
  stop cancels, and the gate that serialises movements.

  Each section under the mutex is one function on the state; the steps of the requests, of the
  goroutines and of the timers interleave in any order. Channels are numbers: \<open>ready\<close> is the
  current one, \<open>closedCh\<close> those that were closed. \<open>opened\<close> counts the leases that \<open>connect\<close> gave
  (they are numbered), \<open>closedLeases\<close> is the history of the calls of \<open>lease.close\<close>, \<open>connecting\<close>
  the number of goroutines in \<open>connect\<close>, \<open>timers\<close> the epochs of the timer functions that may still
  run, a stopped timer whose function already waits for the mutex included. \<open>panicked\<close> records a
  nil dereference or the close of a nil or closed channel. \<open>commands\<close> are the keys of the map of
  cancel functions and \<open>cancelled\<close> those that were called; \<open>gate\<close> tells whether the channel that
  serialises movements is full. The 64-bit \<open>epoch\<close> is a natural
  number: it would take \<open>2^64\<close> requests to wrap.
\<close>

subsection \<open>The state and the sections under the mutex\<close>

record ptzCamera =
  ready :: "nat option"
  closedCh :: "nat list"
  nextCh :: nat
  lease :: "nat option"
  leaseErr :: bool
  users :: int
  timer :: bool
  epoch :: nat
  timers :: "nat list"
  commands :: "nat list"
  next_id :: nat
  cancelled :: "nat list"
  gate :: bool
  connecting :: nat
  opened :: nat
  closedLeases :: "nat list"
  panicked :: bool

definition newPTZCamera :: ptzCamera where
  "newPTZCamera =
     \<lparr>ready = None, closedCh = [], nextCh = 0, lease = None, leaseErr = False, users = 0,
      timer = False, epoch = 0, timers = [], commands = [], next_id = 0, cancelled = [],
      gate = False, connecting = 0, opened = 0, closedLeases = [],
      panicked = False\<rparr>"

definition clearLocked :: "ptzCamera \<Rightarrow> ptzCamera" where
  "clearLocked c =
     (case lease c of
        Some l \<Rightarrow> c\<lparr>closedLeases := closedLeases c @ [l]\<rparr>
      | None \<Rightarrow> c)\<lparr>lease := None, leaseErr := False, ready := None, timer := False\<rparr>"

text \<open>
  The first section of \<open>acquire\<close>: the state and the channel to wait on. \<open>stopped\<close> are the timer
  functions that \<open>timer.Stop\<close> could still prevent.
\<close>

definition acquireEnter :: "nat list \<Rightarrow> ptzCamera \<Rightarrow> ptzCamera \<times> nat" where
  "acquireEnter stopped c =
     (let c1 = c\<lparr>users := users c + 1, epoch := epoch c + 1\<rparr>;
          c2 = (if timer c1
                then c1\<lparr>timer := False, timers := filter (\<lambda>e. e \<notin> set stopped) (timers c1)\<rparr>
                else c1);
          c3 = (case ready c2 of
                  Some _ \<Rightarrow> c2
                | None \<Rightarrow> c2\<lparr>ready := Some (nextCh c2), nextCh := nextCh c2 + 1,
                             connecting := connecting c2 + 1\<rparr>)
      in (c3, the (ready c3)))"

text \<open>The end of the connecting goroutine; \<open>ok\<close> tells whether \<open>connect\<close> gave a lease.\<close>

definition connectDone :: "bool \<Rightarrow> ptzCamera \<Rightarrow> ptzCamera" where
  "connectDone ok c =
     (let c1 = c\<lparr>connecting := connecting c - 1,
                 lease := (if ok then Some (opened c) else None), leaseErr := \<not> ok,
                 opened := (if ok then opened c + 1 else opened c)\<rparr>
      in case ready c1 of
           None \<Rightarrow> c1\<lparr>panicked := True\<rparr>
         | Some r \<Rightarrow>
             if r \<in> set (closedCh c1) then c1\<lparr>panicked := True\<rparr>
             else
               let c2 = c1\<lparr>closedCh := closedCh c1 @ [r]\<rparr>
               in if users c2 = 0 then clearLocked c2 else c2)"

text \<open>
  The second section of \<open>acquire\<close>: \<open>available\<close> tells whether the lease still has a controller,
  \<open>live\<close> whether the request is still alive. The result is whether the request got the lease.
\<close>

definition acquireCheck :: "bool \<Rightarrow> bool \<Rightarrow> ptzCamera \<Rightarrow> ptzCamera \<times> bool" where
  "acquireCheck available live c =
     (if leaseErr c then (c, False)
      else case lease c of
        None \<Rightarrow> (c\<lparr>panicked := True\<rparr>, False)
      | Some _ \<Rightarrow> (c, available \<and> live))"

definition release :: "bool \<Rightarrow> ptzCamera \<Rightarrow> ptzCamera" where
  "release keep c =
     (let c1 = c\<lparr>users := users c - 1\<rparr> in
      if users c1 \<noteq> 0 then c1
      else case ready c1 of
        None \<Rightarrow> c1
      | Some r \<Rightarrow>
          if r \<in> set (closedCh c1) then
            (if \<not> keep \<or> leaseErr c1 then clearLocked c1
             else c1\<lparr>timer := True, timers := timers c1 @ [epoch c1]\<rparr>)
          else c1)"

definition timerFire :: "nat \<Rightarrow> ptzCamera \<Rightarrow> ptzCamera" where
  "timerFire e c =
     (let c1 = c\<lparr>timers := remove1 e (timers c)\<rparr> in
      if users c1 = 0 \<and> epoch c1 = e then clearLocked c1 else c1)"

text \<open>The context of a movement, its end, the cancellation of all of them, and the gate.\<close>

definition command :: "ptzCamera \<Rightarrow> ptzCamera \<times> nat" where
  "command c =
     (let i = next_id c + 1 in (c\<lparr>next_id := i, commands := commands c @ [i]\<rparr>, i))"

definition commandDone :: "nat \<Rightarrow> ptzCamera \<Rightarrow> ptzCamera" where
  "commandDone i c =
     c\<lparr>cancelled := cancelled c @ [i], commands := filter (\<lambda>j. j \<noteq> i) (commands c)\<rparr>"

definition cancelCommands :: "ptzCamera \<Rightarrow> ptzCamera" where
  "cancelCommands c = c\<lparr>cancelled := cancelled c @ commands c\<rparr>"

definition unlock :: "ptzCamera \<Rightarrow> ptzCamera" where
  "unlock c = c\<lparr>gate := False\<rparr>"

subsection \<open>Requests and interleaving\<close>

text \<open>
  Where a request of \<open>apiPTZ\<close> is. A movement: before \<open>acquire\<close>, in its select on the channel it
  read, behind it, at \<open>lock\<close> with the lease, in the gate before the test of the context, moving,
  about to call \<open>release\<close>, about to call \<open>done\<close>, finished. A stop: at \<open>lock\<close>, in the gate before
  the test, sending the stop, finished. A request is numbered by its command; a stop has number 0.
\<close>

datatype stage = AtAcquire | AtSelect nat | AtCheck | AtLock | InGate | Moving | AtRelease bool | AtDone
  | StopLock | StopGate | Stopping | Finished

type_synonym request = "nat \<times> stage"
type_synonym ptz_sys = "ptzCamera \<times> request list"

text \<open>
  One action of one request. \<open>live\<close> is \<open>ctx.Err() == nil\<close> for its context: a context that was
  cancelled through \<open>commands\<close> is never live, any other may be done at any time (the client left,
  or the time is over).
\<close>

inductive request_step :: "ptzCamera \<Rightarrow> nat \<Rightarrow> stage \<Rightarrow> ptzCamera \<Rightarrow> stage \<Rightarrow> bool" where
  dead: "request_step c i AtAcquire c AtDone"
| enter: "i \<notin> set (cancelled c) \<Longrightarrow> acquireEnter stopped c = (c', r) \<Longrightarrow>
    request_step c i AtAcquire c' (AtSelect r)"
| cancel: "request_step c i (AtSelect r) c (AtRelease False)"
| wake: "r \<in> set (closedCh c) \<Longrightarrow> request_step c i (AtSelect r) c AtCheck"
| check: "live \<longrightarrow> i \<notin> set (cancelled c) \<Longrightarrow> acquireCheck available live c = (c', got) \<Longrightarrow>
    request_step c i AtCheck c' (if got then AtLock else AtRelease False)"
| gate_in: "\<not> gate c \<Longrightarrow> request_step c i AtLock (c\<lparr>gate := True\<rparr>) InGate"
| gate_no: "request_step c i AtLock c (AtRelease True)"
| gate_ok: "i \<notin> set (cancelled c) \<Longrightarrow> request_step c i InGate c Moving"
| gate_back: "request_step c i InGate (unlock c) (AtRelease True)"
| moved: "request_step c i Moving (unlock c) (AtRelease True)"
| leave: "request_step c i (AtRelease keep) (release keep c) AtDone"
| finish: "request_step c i AtDone (commandDone i c) Finished"
| stop_in: "\<not> gate c \<Longrightarrow> request_step c i StopLock (c\<lparr>gate := True\<rparr>) StopGate"
| stop_no: "request_step c i StopLock c Finished"
| stop_ok: "request_step c i StopGate c Stopping"
| stop_back: "request_step c i StopGate (unlock c) Finished"
| stopped: "request_step c i Stopping (unlock c) Finished"

inductive ptz_step :: "ptz_sys \<Rightarrow> ptz_sys \<Rightarrow> bool" where
  begin_move: "command c = (c', i) \<Longrightarrow> ptz_step (c, qs) (c', qs @ [(i, AtAcquire)])"
| begin_stop: "ptz_step (c, qs) (cancelCommands c, qs @ [(0, StopLock)])"
| act: "k < length qs \<Longrightarrow> qs ! k = (i, q) \<Longrightarrow> request_step c i q c' q' \<Longrightarrow>
    ptz_step (c, qs) (c', qs[k := (i, q')])"
| connected: "0 < connecting c \<Longrightarrow> ptz_step (c, qs) (connectDone ok c, qs)"
| fire: "e \<in> set (timers c) \<Longrightarrow> ptz_step (c, qs) (timerFire e c, qs)"

inductive ptz_reach :: "ptz_sys \<Rightarrow> bool" where
  start: "ptz_reach (newPTZCamera, [])"
| step: "ptz_reach s \<Longrightarrow> ptz_step s t \<Longrightarrow> ptz_reach t"

subsection \<open>The invariant of the lease\<close>

definition is_ready :: "ptzCamera \<Rightarrow> bool" where
  "is_ready c \<longleftrightarrow> (\<exists>r. ready c = Some r \<and> r \<in> set (closedCh c))"

definition chan_inv :: "ptzCamera \<Rightarrow> bool" where
  "chan_inv c \<longleftrightarrow>
     \<not> panicked c \<and> (\<forall>r \<in> set (closedCh c). r < nextCh c) \<and> (\<forall>r. ready c = Some r \<longrightarrow> r < nextCh c) \<and>
     connecting c = (if ready c \<noteq> None \<and> \<not> is_ready c then 1 else 0)"

definition close_inv :: "ptzCamera \<Rightarrow> bool" where
  "close_inv c \<longleftrightarrow>
     (if is_ready c then lease c \<noteq> None \<or> leaseErr c else lease c = None \<and> \<not> leaseErr c) \<and>
     distinct (closedLeases c) \<and>
     set (closedLeases c) \<union> set_option (lease c) = {..<opened c} \<and>
     set (closedLeases c) \<inter> set_option (lease c) = {}"

definition timer_inv :: "ptzCamera \<Rightarrow> bool" where
  "timer_inv c \<longleftrightarrow>
     0 \<le> users c \<and> (\<forall>e \<in> set (timers c). e \<le> epoch c) \<and>
     (epoch c \<in> set (timers c) \<longrightarrow> users c = 0 \<and> (is_ready c \<or> ready c = None)) \<and>
     (users c = 0 \<longrightarrow> is_ready c \<longrightarrow> epoch c \<in> set (timers c)) \<and>
     (0 < users c \<longrightarrow> ready c \<noteq> None)"

definition lease_inv :: "ptzCamera \<Rightarrow> bool" where
  "lease_inv c \<longleftrightarrow> chan_inv c \<and> close_inv c \<and> timer_inv c"

definition uses :: "stage \<Rightarrow> bool" where
  "uses q \<longleftrightarrow> (case q of AtSelect r \<Rightarrow> True | AtCheck \<Rightarrow> True | AtLock \<Rightarrow> True | InGate \<Rightarrow> True
     | Moving \<Rightarrow> True | AtRelease k \<Rightarrow> True | _ \<Rightarrow> False)"

definition in_gate :: "stage \<Rightarrow> bool" where
  "in_gate q \<longleftrightarrow> q \<in> {InGate, Moving, StopGate, Stopping}"

definition leased :: "ptzCamera \<Rightarrow> bool" where
  "leased c \<longleftrightarrow> is_ready c \<and> lease c \<noteq> None \<and> \<not> leaseErr c"

fun request_inv :: "ptzCamera \<Rightarrow> stage \<Rightarrow> bool" where
  "request_inv c (AtSelect r) = (ready c = Some r)"
| "request_inv c AtCheck = is_ready c"
| "request_inv c AtLock = leased c"
| "request_inv c InGate = leased c"
| "request_inv c Moving = leased c"
| "request_inv c (AtRelease keep) = (keep \<longrightarrow> leased c)"
| "request_inv c _ = True"

text \<open>What a step must leave alone for the requests that use the lease.\<close>

definition keeps :: "ptzCamera \<Rightarrow> ptzCamera \<Rightarrow> bool" where
  "keeps c c' \<longleftrightarrow>
     (ready c \<noteq> None \<longrightarrow> ready c' = ready c) \<and> set (closedCh c) \<subseteq> set (closedCh c') \<and>
     (is_ready c \<longrightarrow> lease c' = lease c \<and> leaseErr c' = leaseErr c)"

lemmas inv_defs = lease_inv_def chan_inv_def close_inv_def timer_inv_def

lemma keeps_refl [simp]: "keeps c c"
  by (simp add: keeps_def)

lemma keeps_ready: "keeps c c' \<Longrightarrow> is_ready c \<Longrightarrow> is_ready c'"
  by (auto simp: keeps_def is_ready_def)

lemma keeps_request: "keeps c c' \<Longrightarrow> request_inv c q \<Longrightarrow> request_inv c' q"
  using keeps_ready [of c c'] by (cases q) (auto simp: keeps_def leased_def)

lemma is_ready_eq: "ready c' = ready c \<Longrightarrow> closedCh c' = closedCh c \<Longrightarrow> is_ready c' = is_ready c"
  by (simp add: is_ready_def)

lemma is_ready_Some: "ready c = Some r \<Longrightarrow> is_ready c \<longleftrightarrow> r \<in> set (closedCh c)"
  by (simp add: is_ready_def)

lemma is_ready_None: "ready c = None \<Longrightarrow> \<not> is_ready c"
  by (simp add: is_ready_def)

text \<open>A record that differs only in the gate and the commands.\<close>

definition same_lease :: "ptzCamera \<Rightarrow> ptzCamera \<Rightarrow> bool" where
  "same_lease c c' \<longleftrightarrow>
     c' = c\<lparr>commands := commands c', next_id := next_id c', cancelled := cancelled c', gate := gate c'\<rparr>"

lemma same_leaseD:
  assumes "same_lease c c'"
  shows "lease_inv c' = lease_inv c" "keeps c c'" "users c' = users c" "request_inv c' q = request_inv c q"
    "is_ready c' = is_ready c" "connecting c' = connecting c"
proof -
  from assms obtain a b d e where c': "c' = c\<lparr>commands := a, next_id := b, cancelled := d, gate := e\<rparr>"
    unfolding same_lease_def by blast
  have r: "is_ready (c\<lparr>commands := a, next_id := b, cancelled := d, gate := e\<rparr>) = is_ready c"
    by (rule is_ready_eq) simp_all
  show "lease_inv c' = lease_inv c" "keeps c c'" "users c' = users c" "is_ready c' = is_ready c"
    "connecting c' = connecting c"
    by (simp_all add: c' r inv_defs keeps_def)
  show "request_inv c' q = request_inv c q"
    by (cases q) (simp_all add: c' r leased_def)
qed

lemma same_lease_leased: "same_lease c c' \<Longrightarrow> leased c' = leased c"
  using same_leaseD(4) [of c c' AtLock] by simp

lemma same_lease_ops [simp]: "same_lease c (c\<lparr>gate := g\<rparr>)" "same_lease c (unlock c)"
    "same_lease c (commandDone i c)" "same_lease c (cancelCommands c)"
  by (simp_all add: same_lease_def unlock_def commandDone_def cancelCommands_def)

lemma command_lease: "command c = (c', i) \<Longrightarrow> same_lease c c'"
  by (auto simp: command_def same_lease_def Let_def)

lemma acquireEnter_inv:
  assumes "lease_inv c" "acquireEnter st c = (c', r)"
  shows "lease_inv c' \<and> keeps c c' \<and> users c' = users c + 1 \<and> ready c' = Some r"
proof (cases "ready c")
  case None
  have f: "users c' = users c + 1" "epoch c' = Suc (epoch c)" "set (timers c') \<subseteq> set (timers c)"
    "ready c' = Some (nextCh c)" "r = nextCh c" "nextCh c' = Suc (nextCh c)" "connecting c' = Suc (connecting c)"
    "closedCh c' = closedCh c" "lease c' = lease c" "leaseErr c' = leaseErr c" "opened c' = opened c"
    "closedLeases c' = closedLeases c" "panicked c' = panicked c"
    using assms(2) None by (auto simp: acquireEnter_def Let_def split: if_splits)
  have "nextCh c \<notin> set (closedCh c)" using assms(1) by (auto simp: inv_defs)
  then have r: "\<not> is_ready c'" "\<not> is_ready c" by (simp_all add: f is_ready_Some is_ready_None None)
  have "\<forall>e \<in> set (timers c'). e < epoch c'" using assms(1) f(2,3)
    by (metis lease_inv_def timer_inv_def less_Suc_eq_le subsetD)
  then have "epoch c' \<notin> set (timers c')" "\<forall>e \<in> set (timers c'). e \<le> epoch c'" by auto
  moreover have "chan_inv c'"
    using assms(1) r None by (auto simp: lease_inv_def chan_inv_def f(4-8,13))
  moreover have "close_inv c'" "0 \<le> users c"
    using assms(1) r by (auto simp: inv_defs f(9-12))
  ultimately have "lease_inv c'" by (simp add: lease_inv_def timer_inv_def f r)
  then show ?thesis using assms(1) by (simp add: keeps_def f r None)
next
  case (Some x)
  have f: "users c' = users c + 1" "epoch c' = Suc (epoch c)" "set (timers c') \<subseteq> set (timers c)"
    "ready c' = ready c" "r = x" "nextCh c' = nextCh c" "connecting c' = connecting c"
    "closedCh c' = closedCh c" "lease c' = lease c" "leaseErr c' = leaseErr c" "opened c' = opened c"
    "closedLeases c' = closedLeases c" "panicked c' = panicked c"
    using assms(2) Some by (auto simp: acquireEnter_def Let_def split: if_splits)
  have r: "is_ready c' = is_ready c" by (rule is_ready_eq) (simp_all add: f)
  have "\<forall>e \<in> set (timers c'). e < epoch c'" using assms(1) f(2,3)
    by (metis lease_inv_def timer_inv_def less_Suc_eq_le subsetD)
  then have "epoch c' \<notin> set (timers c')" "\<forall>e \<in> set (timers c'). e \<le> epoch c'" by auto
  moreover have "chan_inv c'" "close_inv c'" "0 \<le> users c"
    using assms(1) by (auto simp: inv_defs f r)
  ultimately have "lease_inv c'" by (simp add: lease_inv_def timer_inv_def f Some)
  then show ?thesis by (simp add: keeps_def f Some)
qed

lemma clearLocked_inv:
  assumes "chan_inv c" "close_inv c" "connecting c = 0" "users c = 0" "\<forall>e \<in> set (timers c). e \<le> epoch c"
  shows "lease_inv (clearLocked c)"
proof -
  have r: "\<not> is_ready (clearLocked c)" by (simp add: is_ready_None clearLocked_def)
  have "close_inv (clearLocked c)"
    using assms(2) r by (cases "lease c") (auto simp: clearLocked_def close_inv_def)
  moreover have "chan_inv (clearLocked c)" "timer_inv (clearLocked c)"
    using assms(1,3,4,5) r
    by (cases "lease c"; auto simp: clearLocked_def chan_inv_def timer_inv_def)+
  ultimately show ?thesis by (simp add: lease_inv_def)
qed

lemma clearLocked_users [simp]: "users (clearLocked c) = users c"
  by (simp add: clearLocked_def split: option.split)

lemma acquireCheck_inv:
  assumes "lease_inv c" "is_ready c" "acquireCheck av live c = (c', got)"
  shows "c' = c \<and> (got \<longrightarrow> leased c \<and> live)"
  using assms by (auto simp: acquireCheck_def leased_def lease_inv_def close_inv_def
      split: if_splits option.splits)

lemma connectDone_inv:
  assumes "lease_inv c" "0 < connecting c"
  shows "lease_inv (connectDone ok c) \<and> users (connectDone ok c) = users c \<and>
    (users c \<noteq> 0 \<longrightarrow> keeps c (connectDone ok c))"
proof -
  from assms have nr: "\<not> is_ready c" and "connecting c = 1" "ready c \<noteq> None"
    by (auto simp: inv_defs split: if_splits)
  then obtain r where r: "ready c = Some r" "r \<notin> set (closedCh c)" by (auto simp: is_ready_def)
  have e: "epoch c \<notin> set (timers c)" "lease c = None" "\<not> leaseErr c"
    using assms(1) nr r by (auto simp: inv_defs)
  define d where "d = c\<lparr>connecting := 0, lease := (if ok then Some (opened c) else None), leaseErr := \<not> ok,
    opened := (if ok then opened c + 1 else opened c), closedCh := closedCh c @ [r]\<rparr>"
  have rd: "is_ready d" by (simp add: d_def is_ready_def r)
  have c': "connectDone ok c = (if users c = 0 then clearLocked d else d)"
    using \<open>connecting c = 1\<close> r by (simp add: connectDone_def d_def Let_def)
  have ch: "chan_inv d" using assms(1) rd r by (auto simp: d_def inv_defs)
  have cl: "close_inv d" using assms(1) rd e(2) by (auto simp: d_def inv_defs nr)
  have ti: "\<forall>e \<in> set (timers d). e \<le> epoch d" using assms(1) by (simp add: d_def inv_defs)
  have "users c \<noteq> 0 \<Longrightarrow> timer_inv d"
    using assms(1) e(1) ti by (simp add: d_def timer_inv_def lease_inv_def r)
  moreover have "keeps c d" by (auto simp: keeps_def d_def nr)
  moreover have "users c = 0 \<Longrightarrow> lease_inv (clearLocked d)"
    using ch cl ti by (intro clearLocked_inv) (simp_all add: d_def)
  moreover have "users d = users c" by (simp add: d_def)
  ultimately show ?thesis using ch cl by (simp add: c' lease_inv_def)
qed

lemma release_inv:
  assumes "lease_inv c" "0 < users c" "keep \<longrightarrow> leased c"
  shows "lease_inv (release keep c) \<and> users (release keep c) = users c - 1 \<and>
    (users c \<noteq> 1 \<longrightarrow> keeps c (release keep c))"
proof -
  define d where "d = c\<lparr>users := users c - 1\<rparr>"
  have rd: "is_ready d = is_ready c" by (rule is_ready_eq) (simp_all add: d_def)
  have d: "chan_inv d" "close_inv d" "\<forall>e \<in> set (timers d). e \<le> epoch d" "epoch d \<notin> set (timers d)"
      "ready d \<noteq> None"
    using assms(1,2) rd by (auto simp: d_def inv_defs)
  then obtain r where r: "ready d = Some r" by blast
  have c': "release keep c = (if users d \<noteq> 0 then d
      else if is_ready d then (if \<not> keep \<or> leaseErr d then clearLocked d
             else d\<lparr>timer := True, timers := timers d @ [epoch d]\<rparr>)
      else d)"
    by (simp add: release_def d_def [symmetric] Let_def r is_ready_Some)
  have k: "keeps c d" using rd by (simp add: keeps_def d_def)
  have n: "lease_inv d" if "users d \<noteq> 0 \<or> \<not> is_ready d"
    using that d assms(2) by (auto simp: lease_inv_def timer_inv_def d_def)
  have cl: "lease_inv (clearLocked d)" if "users d = 0" "is_ready d"
    using d that by (intro clearLocked_inv) (auto simp: chan_inv_def)
  have t: "lease_inv (d\<lparr>timer := True, timers := timers d @ [epoch d]\<rparr>)"
    if "users d = 0" "is_ready d"
  proof -
    have "is_ready (d\<lparr>timer := True, timers := timers d @ [epoch d]\<rparr>)"
      using that(2) by (simp add: is_ready_def)
    then show ?thesis using d that by (simp add: inv_defs)
  qed
  have u: "users d = users c - 1" by (simp add: d_def)
  show ?thesis using n cl t k by (simp add: c' u)
qed

lemma timerFire_inv:
  assumes "lease_inv c" "e \<in> set (timers c)"
  shows "lease_inv (timerFire e c) \<and> users (timerFire e c) = users c \<and>
    (users c \<noteq> 0 \<longrightarrow> keeps c (timerFire e c))"
proof -
  define d where "d = c\<lparr>timers := remove1 e (timers c)\<rparr>"
  have rd: "is_ready d = is_ready c" by (rule is_ready_eq) (simp_all add: d_def)
  have s: "set (timers d) \<subseteq> set (timers c)" by (simp add: d_def set_remove1_subset)
  have c': "timerFire e c = (if users d = 0 \<and> epoch d = e then clearLocked d else d)"
    by (simp add: timerFire_def d_def Let_def)
  have d: "chan_inv d" "close_inv d" using assms(1) rd by (auto simp: d_def inv_defs)
  have t: "\<forall>x \<in> set (timers d). x \<le> epoch d" using assms(1) s by (auto simp: d_def inv_defs)
  have "lease_inv (clearLocked d)" if "users d = 0" "epoch d = e"
    using d t that assms by (intro clearLocked_inv) (auto simp: d_def inv_defs split: if_splits)
  moreover have "lease_inv d" if "\<not> (users d = 0 \<and> epoch d = e)"
  proof -
    have "epoch c \<in> set (timers d) \<longleftrightarrow> epoch c \<in> set (timers c)" if "users c = 0"
      using \<open>\<not> (users d = 0 \<and> epoch d = e)\<close> that by (simp add: d_def)
    then have "timer_inv d"
      using assms(1) t s rd by (auto simp: timer_inv_def lease_inv_def d_def)
    with d show ?thesis by (simp add: lease_inv_def)
  qed
  moreover have "keeps c d" "users d = users c" using rd by (simp_all add: keeps_def d_def)
  ultimately show ?thesis by (auto simp: c')
qed

inductive_cases request_stepE: "request_step c i q c' q'"

lemma request_step_inv:
  assumes "request_step c i q c' q'" "lease_inv c" "request_inv c q" "uses q \<longrightarrow> 0 < users c"
  shows "lease_inv c' \<and> request_inv c' q' \<and> users c' = users c - of_bool (uses q) + of_bool (uses q') \<and>
    (users c \<noteq> of_bool (uses q) \<longrightarrow> keeps c c')"
  using assms
proof (cases rule: request_step.cases)
  case (enter st r)
  with acquireEnter_inv [OF assms(2), of st c' r] show ?thesis by (simp add: uses_def)
next
  case (check live av got)
  with acquireCheck_inv [OF assms(2), of av live c' got] assms(2,3) show ?thesis by (auto simp: uses_def)
next
  case (leave keep)
  with release_inv [OF assms(2), of keep] assms(3,4) show ?thesis by (simp add: uses_def)
next
  case (wake r)
  with assms(2,3) show ?thesis by (auto simp: uses_def is_ready_def)
qed (use assms in \<open>simp_all add: uses_def same_leaseD [OF same_lease_ops(1)] same_leaseD [OF same_lease_ops(2)]
  same_leaseD [OF same_lease_ops(3)] same_lease_leased [OF same_lease_ops(1)]
  same_lease_leased [OF same_lease_ops(2)]\<close>)

subsection \<open>The invariant of the whole\<close>

fun tally :: "(stage \<Rightarrow> bool) \<Rightarrow> request list \<Rightarrow> int" where
  "tally P [] = 0"
| "tally P (q # qs) = of_bool (P (snd q)) + tally P qs"

lemma tally_append [simp]: "tally P (qs @ rs) = tally P qs + tally P rs"
  by (induction qs) simp_all

lemma tally_update: "k < length qs \<Longrightarrow> tally P (qs[k := x]) = tally P qs - of_bool (P (snd (qs ! k))) + of_bool (P (snd x))"
  by (induction qs arbitrary: k) (auto simp: nth_Cons split: nat.split)

lemma tally_nonneg: "0 \<le> tally P qs"
  by (induction qs) auto

lemma tally_mem: "q \<in> set qs \<Longrightarrow> P (snd q) \<Longrightarrow> 1 \<le> tally P qs"
  using tally_nonneg [of P] by (induction qs) (auto simp: add_increasing)

lemma tally_two:
  assumes "k < length qs" "j < length qs" "j \<noteq> k" "P (snd (qs ! k))" "P (snd (qs ! j))" "\<not> P Finished"
  shows "2 \<le> tally P qs"
proof -
  have "qs ! j \<in> set (qs[k := (0, Finished)])"
    using assms by (metis length_list_update nth_list_update_neq nth_mem)
  from tally_mem [OF this, of P] assms show ?thesis
    using tally_update [of k qs P "(0, Finished)"] by (simp split: if_splits)
qed

definition running :: "stage \<Rightarrow> bool" where
  "running q \<longleftrightarrow> q = AtAcquire \<or> uses q \<or> q = AtDone"

definition command_inv :: "ptz_sys \<Rightarrow> bool" where
  "command_inv s \<longleftrightarrow> (case s of (c, qs) \<Rightarrow>
     (\<forall>(i, q) \<in> set qs. i \<le> next_id c \<and> (running q \<longrightarrow> 0 < i \<and> i \<in> set (commands c))) \<and>
     (\<forall>j < length qs. \<forall>k < length qs. fst (qs ! j) = fst (qs ! k) \<longrightarrow> 0 < fst (qs ! j) \<longrightarrow> j = k))"

definition ptz_inv :: "ptz_sys \<Rightarrow> bool" where
  "ptz_inv s \<longleftrightarrow> (case s of (c, qs) \<Rightarrow>
     lease_inv c \<and> users c = tally uses qs \<and> of_bool (gate c) = tally in_gate qs \<and>
     (\<forall>q \<in> set qs. request_inv c (snd q)) \<and> command_inv s)"

lemma set_update_other:
  assumes "x \<in> set (qs[k := y])" "x \<noteq> y" "k < length qs"
  obtains j where "j < length qs" "j \<noteq> k" "x = qs ! j"
  using assms by (metis in_set_conv_nth length_list_update nth_list_update_eq nth_list_update_neq)

lemma request_step_gate:
  assumes "request_step c i q c' q'"
  shows "in_gate q \<longrightarrow> gate c \<Longrightarrow> of_bool (gate c') = of_bool (gate c) - of_bool (in_gate q) + (of_bool (in_gate q') :: int)"
    and "next_id c' = next_id c" and "set (commands c') = (if q = AtDone then set (commands c) - {i} else set (commands c))"
    and "set (cancelled c') = (if q = AtDone then insert i (set (cancelled c)) else set (cancelled c))"
    and "running q' \<longrightarrow> running q" and "q' = Moving \<longrightarrow> i \<notin> set (cancelled c)"
  using assms
  by (cases rule: request_step.cases;
      auto simp: in_gate_def unlock_def commandDone_def running_def uses_def acquireEnter_def acquireCheck_def
        release_def clearLocked_def Let_def split: if_splits option.splits)+

lemma command_inv_act:
  assumes "command_inv (c, qs)" "k < length qs" "qs ! k = (i, q)" "request_step c i q c' q'"
  shows "command_inv (c', qs[k := (i, q')])"
proof -
  note g = request_step_gate [OF assms(4)]
  have "i \<le> next_id c" "running q \<longrightarrow> 0 < i \<and> i \<in> set (commands c)"
    using assms(1-3) nth_mem [of k qs] by (auto simp: command_inv_def)
  have "j \<le> next_id c' \<and> (running p \<longrightarrow> 0 < j \<and> j \<in> set (commands c'))"
    if m: "(j, p) \<in> set (qs[k := (i, q')])" for j p
  proof (cases "(j, p) = (i, q')")
    case True
    have "q = AtDone \<longrightarrow> \<not> running q'"
      using assms(4) by (cases rule: request_step.cases) (auto simp: running_def uses_def)
    with True show ?thesis using g(2,3,5) \<open>i \<le> next_id c\<close> \<open>running q \<longrightarrow> _\<close> by auto
  next
    case False
    from set_update_other [OF m this assms(2)] obtain l where
      l: "l < length qs" "l \<noteq> k" "(j, p) = qs ! l" .
    then have jp: "j \<le> next_id c" "running p \<longrightarrow> 0 < j \<and> j \<in> set (commands c)"
      using assms(1) nth_mem [OF l(1)] unfolding l(3) [symmetric] by (auto simp: command_inv_def)
    have d: "fst (qs ! l) = fst (qs ! k) \<Longrightarrow> 0 < fst (qs ! l) \<Longrightarrow> l = k"
      using assms(1,2) l(1) by (simp add: command_inv_def)
    have "running p \<Longrightarrow> j \<noteq> i"
      using d l(2) jp(2) assms(3) unfolding l(3) [symmetric] by auto
    with jp g(2,3) show ?thesis by auto
  qed
  moreover have "fst (qs[k := (i, q')] ! j) = fst (qs ! j)" for j
    using assms(2,3) by (cases "j = k") simp_all
  ultimately show ?thesis using assms(1) by (auto simp: command_inv_def)
qed

lemma command_inv_cong:
  assumes "command_inv (c, qs)" "next_id c' = next_id c" "commands c' = commands c"
  shows "command_inv (c', qs)"
  using assms by (simp add: command_inv_def)

lemma other_ops [simp]:
  "commands (connectDone ok c) = commands c" "next_id (connectDone ok c) = next_id c"
  "cancelled (connectDone ok c) = cancelled c" "gate (connectDone ok c) = gate c"
  "commands (timerFire e c) = commands c" "next_id (timerFire e c) = next_id c"
  "cancelled (timerFire e c) = cancelled c" "gate (timerFire e c) = gate c"
  by (simp_all add: connectDone_def timerFire_def clearLocked_def Let_def split: option.split)

lemma keeps_all:
  assumes "\<forall>q \<in> set qs. request_inv c (snd q)" "users c = tally uses qs" "users c \<noteq> 0 \<longrightarrow> keeps c c'"
  shows "\<forall>q \<in> set qs. request_inv c' (snd q)"
proof
  fix q assume q: "q \<in> set qs"
  show "request_inv c' (snd q)"
  proof (cases "uses (snd q)")
    case True
    with tally_mem [OF q, of uses] assms q show ?thesis by (auto intro: keeps_request)
  next
    case False
    then show ?thesis by (cases "snd q") (simp_all add: uses_def)
  qed
qed

lemma ptz_step_act:
  assumes "ptz_inv (c, qs)" "k < length qs" "qs ! k = (i, q)" "request_step c i q c' q'"
  shows "ptz_inv (c', qs[k := (i, q')])"
proof -
  have inv: "lease_inv c" "users c = tally uses qs" "of_bool (gate c) = tally in_gate qs"
    "\<forall>q \<in> set qs. request_inv c (snd q)" "command_inv (c, qs)"
    using assms(1) by (simp_all add: ptz_inv_def)
  have m: "(i, q) \<in> set qs" using assms(2,3) nth_mem by metis
  have q: "request_inv c q" using inv(4) m by fastforce
  have u: "uses q \<longrightarrow> 0 < users c" using tally_mem [OF m, of uses] inv(2) by auto
  have g: "in_gate q \<longrightarrow> gate c" using tally_mem [OF m, of in_gate] inv(3) by (cases "gate c") auto
  from request_step_inv [OF assms(4) inv(1) q u] have s: "lease_inv c'" "request_inv c' q'"
    "users c' = users c - of_bool (uses q) + of_bool (uses q')"
    "users c \<noteq> of_bool (uses q) \<longrightarrow> keeps c c'" by simp_all
  have "request_inv c' (snd x)" if x: "x \<in> set (qs[k := (i, q')])" for x
  proof (cases "x = (i, q')")
    case False
    from set_update_other [OF x this assms(2)] obtain l where l: "l < length qs" "l \<noteq> k" "x = qs ! l" .
    show ?thesis
    proof (cases "uses (snd x)")
      case True
      have "2 \<le> tally uses qs" if "uses q"
        using tally_two [OF assms(2) l(1,2), of uses] that True l(3) assms(3) by (simp add: uses_def)
      moreover have "1 \<le> tally uses qs" using tally_mem [of x qs uses] True l by simp
      ultimately have "users c \<noteq> of_bool (uses q)" using inv(2) by auto
      with s(4) inv(4) l show ?thesis by (auto intro: keeps_request)
    next
      case False
      then show ?thesis by (cases "snd x") (simp_all add: uses_def)
    qed
  qed (simp add: s(2))
  moreover have "command_inv (c', qs[k := (i, q')])" using command_inv_act [OF inv(5) assms(2-4)] .
  ultimately show ?thesis using s(1,3) inv(2,3) assms(2,3) request_step_gate(1) [OF assms(4)] g
    by (simp add: ptz_inv_def tally_update)
qed

lemma ptz_step_inv:
  assumes "ptz_step s t" "ptz_inv s"
  shows "ptz_inv t"
  using assms
proof (cases rule: ptz_step.cases)
  case (begin_move c c' i qs)
  have sl: "same_lease c c'" using command_lease [OF begin_move(3)] .
  have c: "gate c' = gate c" "next_id c' = Suc (next_id c)" "i = Suc (next_id c)" "commands c' = commands c @ [i]"
    using begin_move(3) by (auto simp: command_def Let_def)
  have "command_inv (c', qs @ [(i, AtAcquire)])"
  proof -
    have old: "\<forall>(j, q) \<in> set qs. j \<le> next_id c \<and> (running q \<longrightarrow> 0 < j \<and> j \<in> set (commands c))"
      and d: "\<forall>j < length qs. \<forall>k < length qs. fst (qs ! j) = fst (qs ! k) \<longrightarrow> 0 < fst (qs ! j) \<longrightarrow> j = k"
      using assms(2) begin_move(1) by (simp_all add: ptz_inv_def command_inv_def)
    have "fst (qs ! j) \<noteq> i" if "j < length qs" for j
      using bspec [OF old nth_mem [OF that]] c(3) by (simp add: case_prod_unfold)
    with d have "j < Suc (length qs) \<Longrightarrow> k < Suc (length qs) \<Longrightarrow>
        fst ((qs @ [(i, AtAcquire)]) ! j) = fst ((qs @ [(i, AtAcquire)]) ! k) \<Longrightarrow>
        0 < fst ((qs @ [(i, AtAcquire)]) ! j) \<Longrightarrow> j = k" for j k
      by (auto simp: nth_append less_Suc_eq split: if_splits)
    with old show ?thesis by (auto simp: command_inv_def c)
  qed
  then show ?thesis using assms(2) begin_move(1,2) c(1)
    by (auto simp: ptz_inv_def same_leaseD [OF sl] uses_def in_gate_def)
next
  case (begin_stop c qs)
  have "command_inv (cancelCommands c, qs @ [(0, StopLock)])"
    using assms(2) begin_stop(1)
    by (auto simp: ptz_inv_def command_inv_def cancelCommands_def running_def uses_def nth_append
        less_Suc_eq)
  then show ?thesis using assms(2) begin_stop
    by (auto simp: ptz_inv_def same_leaseD [OF same_lease_ops(4)] uses_def in_gate_def)
      (simp_all add: cancelCommands_def)
next
  case (act k qs i q c c' q')
  then show ?thesis using ptz_step_act assms(2) by simp
next
  case (connected c qs ok)
  then show ?thesis using connectDone_inv [of c ok] keeps_all [of qs c] assms(2)
    by (auto simp: ptz_inv_def intro: command_inv_cong)
next
  case (fire e c qs)
  then show ?thesis using timerFire_inv [of c e] keeps_all [of qs c] assms(2)
    by (auto simp: ptz_inv_def intro: command_inv_cong)
qed

lemma ptz_reach_inv: "ptz_reach s \<Longrightarrow> ptz_inv s"
proof (induction rule: ptz_reach.induct)
  case start
  show ?case
    by (simp add: ptz_inv_def command_inv_def newPTZCamera_def inv_defs is_ready_def)
qed (rule ptz_step_inv)

definition stopped_at :: "nat \<Rightarrow> ptz_sys \<Rightarrow> bool" where
  "stopped_at k s \<longleftrightarrow> (case s of (c, qs) \<Rightarrow>
     k < length qs \<and> snd (qs ! k) \<noteq> Moving \<and>
     (fst (qs ! k) \<in> set (cancelled c) \<or> \<not> running (snd (qs ! k))))"

lemma stopped_at_step:
  assumes "ptz_step s t" "stopped_at k s"
  shows "stopped_at k t"
  using assms
proof (cases rule: ptz_step.cases)
  case (act j qs i q c c' q')
  note g = request_step_gate(4-6) [OF act(5)]
  show ?thesis
  proof (cases "j = k")
    case True
    have "q' \<noteq> Moving" using g(2,3) assms(2) act True by (auto simp: stopped_at_def running_def uses_def)
    with True act g assms(2) show ?thesis by (auto simp: stopped_at_def)
  qed (use act g assms(2) in \<open>auto simp: stopped_at_def\<close>)
qed (auto simp: stopped_at_def nth_append command_def cancelCommands_def Let_def)

lemma stopped_at_steps: "ptz_step\<^sup>*\<^sup>* s t \<Longrightarrow> stopped_at k s \<Longrightarrow> stopped_at k t"
  by (induction rule: rtranclp_induct) (auto intro: stopped_at_step)

subsection \<open>Properties\<close>

text \<open>Two interleaved movements, the second in the gate of the first: a state to apply the theorems at.\<close>

definition demo_camera :: ptzCamera where
  "demo_camera = newPTZCamera\<lparr>ready := Some 0, closedCh := [0], nextCh := 1, lease := Some 0, users := 2,
     epoch := 2, commands := [1, 2], next_id := 2, gate := True, opened := 1\<rparr>"

lemma demo_reach: "ptz_reach (demo_camera, [(1, Moving), (2, AtSelect 0)])"
proof -
  let ?c1 = "newPTZCamera\<lparr>commands := [1], next_id := 1\<rparr>"
  let ?c2 = "newPTZCamera\<lparr>commands := [1, 2], next_id := 2\<rparr>"
  let ?c3 = "?c2\<lparr>ready := Some 0, nextCh := 1, users := 1, epoch := 1, connecting := 1\<rparr>"
  let ?c4 = "?c3\<lparr>users := 2, epoch := 2\<rparr>"
  let ?c5 = "?c4\<lparr>connecting := 0, closedCh := [0], lease := Some 0, opened := 1\<rparr>"
  have "ptz_reach (?c1, [(1, AtAcquire)])"
    using ptz_reach.step [OF ptz_reach.start ptz_step.begin_move [of _ ?c1 1]]
    by (simp add: command_def newPTZCamera_def)
  then have "ptz_reach (?c2, [(1, AtAcquire), (2, AtAcquire)])"
    using ptz_reach.step ptz_step.begin_move [of ?c1 ?c2 2 "[(1, AtAcquire)]"]
    by (simp add: command_def newPTZCamera_def)
  then have "ptz_reach (?c3, [(1, AtSelect 0), (2, AtAcquire)])"
    using ptz_reach.step ptz_step.act [of 0 "[(1, AtAcquire), (2, AtAcquire)]" 1 AtAcquire ?c2 ?c3 "AtSelect 0"]
      request_step.enter [of 1 ?c2 "[]" ?c3 0]
    by (simp add: acquireEnter_def newPTZCamera_def)
  then have "ptz_reach (?c4, [(1, AtSelect 0), (2, AtSelect 0)])"
    using ptz_reach.step ptz_step.act [of 1 "[(1, AtSelect 0), (2, AtAcquire)]" 2 AtAcquire ?c3 ?c4 "AtSelect 0"]
      request_step.enter [of 2 ?c3 "[]" ?c4 0]
    by (simp add: acquireEnter_def newPTZCamera_def)
  then have "ptz_reach (?c5, [(1, AtSelect 0), (2, AtSelect 0)])"
    using ptz_reach.step ptz_step.connected [of ?c4 "[(1, AtSelect 0), (2, AtSelect 0)]" True]
    by (simp add: connectDone_def newPTZCamera_def)
  then have "ptz_reach (?c5, [(1, AtCheck), (2, AtSelect 0)])"
    using ptz_reach.step ptz_step.act [of 0 "[(1, AtSelect 0), (2, AtSelect 0)]" 1 "AtSelect 0" ?c5 ?c5 AtCheck]
      request_step.wake [of 0 ?c5 1]
    by simp
  then have "ptz_reach (?c5, [(1, AtLock), (2, AtSelect 0)])"
    using ptz_reach.step ptz_step.act [of 0 "[(1, AtCheck), (2, AtSelect 0)]" 1 AtCheck ?c5 ?c5 AtLock]
      request_step.check [of True 1 ?c5 True ?c5 True]
    by (simp add: acquireCheck_def newPTZCamera_def)
  then have "ptz_reach (demo_camera, [(1, InGate), (2, AtSelect 0)])"
    using ptz_reach.step ptz_step.act [of 0 "[(1, AtLock), (2, AtSelect 0)]" 1 AtLock ?c5 demo_camera InGate]
      request_step.gate_in [of ?c5 1]
    by (simp add: demo_camera_def newPTZCamera_def)
  then show ?thesis
    using ptz_reach.step ptz_step.act [of 0 "[(1, InGate), (2, AtSelect 0)]" 1 InGate demo_camera demo_camera Moving]
      request_step.gate_ok [of 1 demo_camera]
    by (simp add: demo_camera_def newPTZCamera_def)
qed

text \<open>
  At any time at most one request is in the gate, and the gate is full while one is in it.
\<close>

lemma ptz_gate_excludes:
  assumes "ptz_reach (c, qs)" "j < length qs" "k < length qs" "in_gate (snd (qs ! j))" "in_gate (snd (qs ! k))"
  shows "j = k \<and> gate c"
proof -
  from ptz_reach_inv [OF assms(1)] have g: "of_bool (gate c) = tally in_gate qs"
    by (simp add: ptz_inv_def)
  have "gate c" using tally_mem [OF nth_mem [OF assms(2)], of in_gate] assms(4) g by (cases "gate c") auto
  moreover have "j = k"
    using tally_two [OF assms(3,2) _ assms(5,4)] g in_gate_def [of Finished] by (cases "gate c") auto
  ultimately show ?thesis by simp
qed

text \<open>
  Claim C1. The lease is shared safely, in every interleaving of movements, stops, connections,
  time-outs and cancellations: nothing is dereferenced when nil and no channel is closed twice; at
  most one connection is attempted at a time; each lease that was opened is either the current one
  or was closed, exactly once; and a request between \<open>acquire\<close> and \<open>release\<close> (waiting for the
  gate or moving) holds the current lease, which is not closed. Movements and stops exclude each
  other: at most one request is in the gate, and the gate is full while one is in it, so a stop is
  never sent while another request moves the camera and \<open>unlock\<close> never blocks.
\<close>

theorem ptz_lease_safe:
  assumes "ptz_reach (c, qs)"
  shows "\<not> panicked c \<and> connecting c \<le> 1 \<and> distinct (closedLeases c) \<and>
    set (closedLeases c) \<union> set_option (lease c) = {..<opened c} \<and>
    (\<forall>(i, q) \<in> set qs. q \<in> {AtLock, InGate, Moving} \<longrightarrow>
       (\<exists>l. lease c = Some l \<and> l \<notin> set (closedLeases c))) \<and>
    (\<forall>j k. j < length qs \<longrightarrow> k < length qs \<longrightarrow> in_gate (snd (qs ! j)) \<longrightarrow> in_gate (snd (qs ! k)) \<longrightarrow>
       j = k \<and> gate c)"
proof -
  from ptz_reach_inv [OF assms] have i: "lease_inv c" "\<forall>q \<in> set qs. request_inv c (snd q)"
    by (simp_all add: ptz_inv_def)
  have "leased c" if "(j, q) \<in> set qs" "q \<in> {AtLock, InGate, Moving}" for j q
    using bspec [OF i(2) that(1)] that(2) by auto
  moreover have "\<exists>l. lease c = Some l \<and> l \<notin> set (closedLeases c)" if "leased c"
    using that i(1) by (auto simp: leased_def lease_inv_def close_inv_def)
  moreover have "\<not> panicked c \<and> connecting c \<le> 1 \<and> distinct (closedLeases c) \<and>
      set (closedLeases c) \<union> set_option (lease c) = {..<opened c}"
    using i(1) by (auto simp: lease_inv_def close_inv_def chan_inv_def simp del: Un_iff)
  ultimately show ?thesis using ptz_gate_excludes [OF assms] by blast
qed

theorem ptz_lease_safe_witness:
  "lease demo_camera = Some 0 \<and> 0 \<notin> set (closedLeases demo_camera) \<and> \<not> panicked demo_camera \<and> gate demo_camera"
  using ptz_lease_safe [OF demo_reach] by (auto simp: demo_camera_def)

text \<open>
  Claim C3. No connection leaks: when no movement is between \<open>acquire\<close> and \<open>release\<close>, either the
  connecting goroutine still runs, and its end closes what it opens, or all leases are closed, or
  the timer of the keepalive is pending, and when it fires all leases are closed and the camera is
  as new.
\<close>

theorem ptz_no_leak:
  assumes "ptz_reach (c, qs)" "\<forall>(i, q) \<in> set qs. \<not> uses q"
  shows "users c = 0 \<and>
    (if connecting c = 1 then
       (\<forall>ok. lease (connectDone ok c) = None \<and> ready (connectDone ok c) = None \<and>
          set (closedLeases (connectDone ok c)) = {..<opened (connectDone ok c)})
     else if ready c = None then lease c = None \<and> set (closedLeases c) = {..<opened c}
     else epoch c \<in> set (timers c) \<and> ready (timerFire (epoch c) c) = None \<and>
          lease (timerFire (epoch c) c) = None \<and>
          set (closedLeases (timerFire (epoch c) c)) = {..<opened (timerFire (epoch c) c)})"
proof -
  have z: "tally uses qs = 0" using assms(2) by (induction qs) auto
  with ptz_reach_inv [OF assms(1)] have i: "lease_inv c" "users c = 0" by (simp_all add: ptz_inv_def)
  have all: "set (closedLeases d) = {..<opened d}" if "lease_inv d" "lease d = None" for d
    using that by (auto simp: lease_inv_def close_inv_def simp del: Un_iff)
  have clear: "lease (clearLocked d) = None" "ready (clearLocked d) = None" for d
    by (simp_all add: clearLocked_def split: option.split)
  consider "connecting c = 1" | "connecting c \<noteq> 1" "ready c = None" | "connecting c \<noteq> 1" "is_ready c"
    using i(1) by (auto simp: inv_defs split: if_splits)
  then show ?thesis
  proof cases
    case 1
    then obtain r where "ready c = Some r" "r \<notin> set (closedCh c)"
      using i(1) by (auto simp: inv_defs is_ready_def split: if_splits)
    then have "lease (connectDone ok c) = None" "ready (connectDone ok c) = None" for ok
      using i(2) by (simp_all add: connectDone_def Let_def clear)
    with all connectDone_inv [OF i(1)] 1 i(2) show ?thesis by simp
  next
    case 2
    then have "lease c = None" using i(1) by (auto simp: inv_defs is_ready_None)
    with 2 i all show ?thesis by simp
  next
    case 3
    then have t: "epoch c \<in> set (timers c)" using i by (simp add: inv_defs)
    moreover have "lease (timerFire (epoch c) c) = None" "ready (timerFire (epoch c) c) = None"
      using i(2) by (simp_all add: timerFire_def Let_def clear)
    ultimately show ?thesis
      using all timerFire_inv [OF i(1) t] 3 i(2) by (auto simp: is_ready_None)
  qed
qed

theorem ptz_no_leak_witness:
  "users newPTZCamera = 0 \<and> set (closedLeases newPTZCamera) = {..<opened newPTZCamera}"
  using ptz_no_leak [OF ptz_reach.start] by (simp add: newPTZCamera_def)

text \<open>
  Claim C2. A stop wins over the movements that are not under way: whatever happens after a stop
  called \<open>cancelCommands\<close>, a movement that had begun before it, and was still connecting or
  waiting for the gate, never moves the camera.
\<close>

theorem ptz_stop_wins:
  assumes "ptz_reach (c, qs)" "ptz_step\<^sup>*\<^sup>* (cancelCommands c, qs @ [(0, StopLock)]) (c', qs')"
    "k < length qs" "snd (qs ! k) \<noteq> Moving"
  shows "snd (qs' ! k) \<noteq> Moving"
proof -
  have "(case qs ! k of (i, q) \<Rightarrow> running q \<longrightarrow> i \<in> set (commands c))"
    using ptz_reach_inv [OF assms(1)] nth_mem [OF assms(3)] by (auto simp: ptz_inv_def command_inv_def)
  then have "stopped_at k (cancelCommands c, qs @ [(0, StopLock)])"
    using assms(3,4) by (auto simp: stopped_at_def nth_append cancelCommands_def split: prod.splits)
  from stopped_at_steps [OF assms(2) this] show ?thesis by (simp add: stopped_at_def)
qed

theorem ptz_stop_wins_witness:
  "snd ([(1, Moving), (2, AtRelease False), (0, StopLock)] ! 1) \<noteq> Moving"
proof -
  let ?c = "cancelCommands demo_camera"
  have "ptz_step (?c, [(1, Moving), (2, AtSelect 0)] @ [(0, StopLock)])
      (?c, [(1, Moving), (2, AtRelease False), (0, StopLock)])"
    using ptz_step.act [of 1 "[(1, Moving), (2, AtSelect 0), (0, StopLock)]" 2 "AtSelect 0" ?c ?c "AtRelease False"]
      request_step.cancel by simp
  then have "ptz_step\<^sup>*\<^sup>* (?c, [(1, Moving), (2, AtSelect 0)] @ [(0, StopLock)])
      (?c, [(1, Moving), (2, AtRelease False), (0, StopLock)])" by (rule r_into_rtranclp)
  from ptz_stop_wins [OF demo_reach this, of 1] show ?thesis by simp
qed

end
