(* ===== verification/GoWeb.thy ===== *)
theory GoWeb
  imports GoText
begin

section \<open>Texts of the web: addresses, queries, Base64\<close>

text \<open>
  What the sources use of Go's \<open>net/url\<close> and \<open>encoding/base64\<close>. An address is a record of its
  parts: the parser \<open>url.Parse\<close> itself is a parameter of the definitions that call it. A query
  is the list of its pairs in the order of the text (\<open>Get\<close> takes the first). The standard Base64
  alphabet is coded and decoded as \<open>base64.StdEncoding\<close> does: the decoder skips line ends, wants
  full quads, and takes padding only at the end.
\<close>

subsection \<open>Addresses and queries\<close>

type_synonym query = "(string \<times> string) list"

record go_url =
  url_scheme :: string
  url_user :: "(string \<times> string) option"
  url_host :: string
  url_path :: string
  url_query :: query

definition query_get :: "query \<Rightarrow> string \<Rightarrow> string" where
  "query_get q k = (case map_of q k of Some v \<Rightarrow> v | None \<Rightarrow> [])"

definition query_set :: "string \<Rightarrow> string \<Rightarrow> query \<Rightarrow> query" where
  "query_set k v q = filter (\<lambda>(k', _). k' \<noteq> k) q @ [(k, v)]"

lemma query_get_Nil [simp]: "query_get [] k = []"
  by (simp add: query_get_def)

lemma query_get_Cons [simp]: "query_get ((k, v) # q) k' = (if k = k' then v else query_get q k')"
  by (simp add: query_get_def)

lemma query_get_append_other: "map_of q k = None \<Longrightarrow> query_get (q @ r) k = query_get r k"
  by (simp add: query_get_def map_add_def)

lemma query_get_set: "query_get (query_set k v q) k' = (if k' = k then v else query_get q k')"
proof -
  have "map_of (filter (\<lambda>(x, _). x \<noteq> k) q) k' = (if k' = k then None else map_of q k')"
    by (induction q) auto
  then show ?thesis by (simp add: query_get_def query_set_def map_add_def split: option.split)
qed

text \<open>\<open>strings.HasPrefix\<close>.\<close>

definition has_prefix :: "string \<Rightarrow> string \<Rightarrow> bool" where
  "has_prefix s p \<longleftrightarrow> take (length p) s = p"

subsection \<open>Base64\<close>

definition b64_char :: "nat \<Rightarrow> char" where
  "b64_char n =
     (if n < 26 then char_of (65 + n) else if n < 52 then char_of (71 + n)
      else if n < 62 then char_of (n - 4) else if n = 62 then CHR ''+'' else CHR ''/'')"

definition b64_val :: "char \<Rightarrow> nat option" where
  "b64_val c =
     (let n = of_char c :: nat in
      if 65 \<le> n \<and> n \<le> 90 then Some (n - 65) else if 97 \<le> n \<and> n \<le> 122 then Some (n - 71)
      else if 48 \<le> n \<and> n \<le> 57 then Some (n + 4)
      else if c = CHR ''+'' then Some 62 else if c = CHR ''/'' then Some 63 else None)"

definition byte_val :: "char \<Rightarrow> nat" where
  "byte_val c = of_char c"

fun b64_encode :: "string \<Rightarrow> string" where
  "b64_encode (a # b # c # s) =
     [b64_char (byte_val a div 4), b64_char (byte_val a mod 4 * 16 + byte_val b div 16),
      b64_char (byte_val b mod 16 * 4 + byte_val c div 64), b64_char (byte_val c mod 64)] @ b64_encode s"
| "b64_encode [a, b] =
     [b64_char (byte_val a div 4), b64_char (byte_val a mod 4 * 16 + byte_val b div 16),
      b64_char (byte_val b mod 16 * 4), CHR ''='']"
| "b64_encode [a] =
     [b64_char (byte_val a div 4), b64_char (byte_val a mod 4 * 16), CHR ''='', CHR ''='']"
| "b64_encode [] = []"

fun b64_quads :: "string \<Rightarrow> string option" where
  "b64_quads [] = Some []"
| "b64_quads (a # b # c # d # s) =
     (case (b64_val a, b64_val b) of
        (Some x, Some y) \<Rightarrow>
          (if c = CHR ''='' then
             if d = CHR ''='' \<and> s = [] then Some [char_of (x * 4 + y div 16)] else None
           else case b64_val c of
             None \<Rightarrow> None
           | Some z \<Rightarrow>
               if d = CHR ''='' then
                 if s = [] then Some [char_of (x * 4 + y div 16), char_of (y mod 16 * 16 + z div 4)]
                 else None
               else (case b64_val d of
                 None \<Rightarrow> None
               | Some w \<Rightarrow>
                   map_option (\<lambda>r. [char_of (x * 4 + y div 16), char_of (y mod 16 * 16 + z div 4),
                       char_of (z mod 4 * 64 + w)] @ r) (b64_quads s)))
      | _ \<Rightarrow> None)"
| "b64_quads _ = None"

definition b64_decode :: "string \<Rightarrow> string option" where
  "b64_decode s = b64_quads (filter (\<lambda>c. c \<noteq> CHR 0x0A \<and> c \<noteq> CHR 0x0D) s)"

lemma b64_val_char [simp]: "n < 64 \<Longrightarrow> b64_val (b64_char n) = Some n"
  by (auto simp: b64_char_def b64_val_def Let_def)

lemma b64_char_not [simp]: "n < 64 \<Longrightarrow> b64_char n \<noteq> CHR ''=''" "n < 64 \<Longrightarrow> b64_char n \<noteq> CHR 0x0A"
    "n < 64 \<Longrightarrow> b64_char n \<noteq> CHR 0x0D"
  using b64_val_char [of n] by (force simp: b64_val_def Let_def)+

lemma byte_val_less [simp]: "byte_val c < 256"
  by (simp add: byte_val_def)

lemma char_of_byte_val [simp]: "char_of (byte_val c) = c"
  by (simp add: byte_val_def)

lemma b64_bounds [simp]:
  "byte_val a div 4 < 64" "byte_val a mod 4 * 16 < 64" "byte_val b mod 16 * 4 < 64"
  "byte_val a mod 4 * 16 + byte_val b div 16 < 64" "byte_val b mod 16 * 4 + byte_val c div 64 < 64"
  using byte_val_less [of a] byte_val_less [of b] byte_val_less [of c]
    mod_less_divisor [of 4 "byte_val a"] mod_less_divisor [of 16 "byte_val b"]
  by linarith+

lemma byte_digits [simp]:
  "byte_val b div 16 div 16 = 0" "byte_val b div 16 mod 16 = byte_val b div 16"
  "byte_val c div 64 div 4 = 0" "byte_val c div 64 mod 4 = byte_val c div 64"
proof -
  have "byte_val b div 16 < 16" "byte_val c div 64 < 4"
    using byte_val_less [of b] byte_val_less [of c] by linarith+
  then show "byte_val b div 16 div 16 = 0" "byte_val b div 16 mod 16 = byte_val b div 16"
    "byte_val c div 64 div 4 = 0" "byte_val c div 64 mod 4 = byte_val c div 64" by simp_all
qed

lemma b64_quads_encode: "b64_quads (b64_encode s) = Some s"
  by (induction s rule: b64_encode.induct) simp_all

lemma b64_encode_chars: "c \<in> set (b64_encode s) \<Longrightarrow> c \<noteq> CHR 0x0A \<and> c \<noteq> CHR 0x0D"
  by (induction s rule: b64_encode.induct) auto

lemma b64_decode_encode [simp]: "b64_decode (b64_encode s) = Some s"
proof -
  have "filter (\<lambda>c. c \<noteq> CHR 0x0A \<and> c \<noteq> CHR 0x0D) (b64_encode s) = b64_encode s"
    by (rule filter_True) (blast dest: b64_encode_chars)
  then show ?thesis by (simp only: b64_decode_def b64_quads_encode)
qed

end
