(* ===== verification/Ptz.thy ===== *)
theory Ptz
  imports GoWeb
begin

section \<open>The PTZ and preset handlers\<close>

text \<open>
  Models \<open>internal/xiaomi/ptz.go\<close> and \<open>presets.go\<close>, and \<open>ptzStream\<close> of \<open>ptz_connection.go\<close>:
  finding the camera of a stream, a timed movement, the handlers of \<open>/api/xiaomi/ptz\<close> and
  \<open>/api/xiaomi/presets\<close>, and the list of presets of the cloud. A handler is a function of the
  request and of what the world answers; its result is the reply and the list of the actions on
  the camera in their order. The shared connection behind \<open>acquire\<close>, \<open>lock\<close> and
  \<open>cancelCommands\<close> is the theory \<open>PtzLease\<close>. Durations are in milliseconds.

  \<open>url.Parse\<close>, \<open>strconv.Quote\<close>, the JSON decoders and the table of printable runes are the fields
  of a parameter.
\<close>

record miotResult =
  mcode :: int
  mvalue :: string

record preset_area =
  area_index :: "int option"
  area_location :: "int option"
  area_name :: string

record go_lib =
  parse_url :: "string \<Rightarrow> go_url option"
  go_quote :: "string \<Rightarrow> string"
  json_text :: "string \<Rightarrow> string option"
  json_areas :: "string \<Rightarrow> preset_area list option"
  json_results :: "string \<Rightarrow> miotResult list option"
  json_response :: "string \<Rightarrow> miotResult list option"
  printable :: "string \<Rightarrow> bool"

subsection \<open>Streams\<close>

text \<open>
  A stream: the addresses of its producers, and its current connections, each with the number of
  its controller when it implements \<open>directionSetter\<close>. The table of streams is a list in the order
  in which Go visits the map.
\<close>

record ptz_streams =
  sources :: "string list"
  connections :: "nat option list"

type_synonym stream_table = "(string \<times> ptz_streams) list"

fun cameraDID :: "go_lib \<Rightarrow> string list \<Rightarrow> string" where
  "cameraDID lib [] = []"
| "cameraDID lib (s # ss) =
     (case parse_url lib s of
        Some u \<Rightarrow> if url_scheme u = ''xiaomi'' then query_get (url_query u) ''did'' else cameraDID lib ss
      | None \<Rightarrow> cameraDID lib ss)"

fun firstController :: "nat option list \<Rightarrow> nat option" where
  "firstController [] = None"
| "firstController (c # cs) = (case c of Some n \<Rightarrow> Some n | None \<Rightarrow> firstController cs)"

definition connectedPTZ :: "ptz_streams option \<Rightarrow> nat option" where
  "connectedPTZ s = (case s of None \<Rightarrow> None | Some st \<Rightarrow> firstController (connections st))"

datatype stream_error = StreamNotFound | NotXiaomi | NoCredentials

definition ptzStream :: "go_lib \<Rightarrow> stream_table \<Rightarrow> string \<Rightarrow> stream_error + ptz_streams \<times> string" where
  "ptzStream lib table src =
     (case map_of table src of
        None \<Rightarrow> Inl StreamNotFound
      | Some st \<Rightarrow>
          let did = cameraDID lib (sources st) in
          if did = [] then Inl NotXiaomi
          else if connectedPTZ (Some st) = None then
            (case find (\<lambda>(name, s). cameraDID lib (sources s) = did \<and> connectedPTZ (map_of table name) \<noteq> None) table of
               Some (name, _) \<Rightarrow> Inr (the (map_of table name), did)
             | None \<Rightarrow> Inr (st, did))
          else Inr (st, did))"

subsection \<open>A timed movement\<close>

definition ptzOperations :: "string \<Rightarrow> int option" where
  "ptzOperations = map_of [(''stop'', 0), (''left'', 1), (''right'', 2), (''up'', 3), (''down'', 4)]"

definition ptzDefaultDuration :: int where
  "ptzDefaultDuration = 300"

definition ptzMaxDuration :: int where
  "ptzMaxDuration = 2000"

definition parsePTZDuration :: "string \<Rightarrow> int \<Rightarrow> int option" where
  "parsePTZDuration v op =
     (if op = 0 then Some 0
      else if v = [] then Some ptzDefaultDuration
      else case atoi v of
        None \<Rightarrow> None
      | Some ms \<Rightarrow> if ms < 1 \<or> ms > ptzMaxDuration then None else Some ms)"

text \<open>
  One turn of the loop: whether the context is done, whether \<open>SetDirection\<close> fails, and what the
  select takes. The result is the list of the operations sent and the error; it is \<open>None\<close> when the
  turns run out before the loop ends.
\<close>

datatype select_event = TimerFired | Tick | CtxDone
datatype move_error = MoveDead | MoveFailed | StopFailed | MoveCanceled

record move_turn =
  dead :: bool
  move_fails :: bool
  selected :: select_event

fun moveLoop :: "int \<Rightarrow> move_turn list \<Rightarrow> (int list \<times> move_error option) option" where
  "moveLoop op [] = None"
| "moveLoop op (t # ts) =
     (if dead t then Some ([], Some MoveDead)
      else if move_fails t then Some ([op], Some MoveFailed)
      else case selected t of
        TimerFired \<Rightarrow> Some ([op], None)
      | Tick \<Rightarrow> map_option (\<lambda>(sent, e). (op # sent, e)) (moveLoop op ts)
      | CtxDone \<Rightarrow> Some ([op], Some MoveCanceled))"

definition runPTZ :: "bool \<Rightarrow> bool \<Rightarrow> int \<Rightarrow> move_turn list \<Rightarrow> (int list \<times> move_error option) option" where
  "runPTZ ctx_dead stop_fails op ts =
     (if ctx_dead then Some ([], Some MoveDead)
      else if op = 0 then Some ([0], if stop_fails then Some StopFailed else None)
      else map_option (\<lambda>(sent, e). (sent @ [0], if e = None \<and> stop_fails then Some StopFailed else e))
             (moveLoop op ts))"

subsection \<open>The handler of movements\<close>

datatype ptz_action = CancelCommands string | Lock string | Unlock string | Send nat int
  | Command string | Done string | Acquire string | Release string

datatype ptz_reply = HttpError nat string | Moved string string int

text \<open>
  What the world answers: the streams, whether \<open>lock\<close> fails, the controller that is connected once a
  stop is in the gate, the controller that \<open>acquire\<close> gives, and what happens in \<open>runPTZ\<close>. The names
  of the cameras in the actions are their device numbers.
\<close>

record ptz_world =
  stream_tab :: stream_table
  lock_fails :: bool
  stop_controller :: "nat option"
  acquired :: "nat option"
  ctx_dead :: bool
  stop_fails :: bool
  turns :: "move_turn list"

definition stopCamera :: "ptz_world \<Rightarrow> string \<Rightarrow> bool \<times> ptz_action list" where
  "stopCamera w did =
     (if lock_fails w then (False, [CancelCommands did])
      else case stop_controller w of
        None \<Rightarrow> (True, [CancelCommands did, Lock did, Unlock did])
      | Some n \<Rightarrow> (\<not> stop_fails w, [CancelCommands did, Lock did, Send n 0, Unlock did]))"

definition moveCamera :: "ptz_world \<Rightarrow> string \<Rightarrow> int \<Rightarrow> (bool \<times> ptz_action list) option" where
  "moveCamera w did op =
     (case acquired w of
        None \<Rightarrow> Some (False, [Command did, Acquire did, Done did])
      | Some n \<Rightarrow>
          if lock_fails w then Some (False, [Command did, Acquire did, Release did, Done did])
          else map_option (\<lambda>(sent, e).
            (e = None, [Command did, Acquire did, Lock did] @ map (Send n) sent @ [Unlock did, Release did, Done did]))
            (runPTZ (ctx_dead w) (stop_fails w) op (turns w)))"

definition apiPTZ :: "go_lib \<Rightarrow> ptz_world \<Rightarrow> string \<Rightarrow> query \<Rightarrow> (ptz_reply \<times> ptz_action list) option" where
  "apiPTZ lib w meth q =
     (if meth \<noteq> ''POST'' then Some (HttpError 405 ''method not allowed'', [])
      else let src = query_get q ''src'' in
      if src = [] then Some (HttpError 400 ''src is required'', [])
      else case ptzOperations (query_get q ''direction'') of
        None \<Rightarrow> Some (HttpError 400 ''direction must be stop, left, right, up or down'', [])
      | Some op \<Rightarrow>
      (case parsePTZDuration (query_get q ''duration'') op of
        None \<Rightarrow> Some (HttpError 400 ''duration must be between 1 and 2000 milliseconds'', [])
      | Some ms \<Rightarrow>
      (case ptzStream lib (stream_tab w) src of
        Inl StreamNotFound \<Rightarrow> Some (HttpError 400 ''Xiaomi PTZ stream not found'', [])
      | Inl _ \<Rightarrow> Some (HttpError 400 ''PTZ stream is not a Xiaomi camera'', [])
      | Inr (st, did) \<Rightarrow>
          map_option (\<lambda>(ok, acts).
            (if ok then Moved src (query_get q ''direction'') ms
             else HttpError 502 ''Xiaomi PTZ connection or movement failed'', acts))
            (if op = 0 then Some (stopCamera w did) else moveCamera w did op))))"

subsection \<open>Presets\<close>

record xiaomiPreset =
  Token :: string
  Name :: string

record cameraCloud =
  cloud_did :: string
  cloud_userID :: string
  cloud_region :: string

datatype preset_error = BadProperty | BadList | BadLocation | CloudFailed string | EmptyResponse
  | BadResponse | DiscoveryRejected | PresetRejected int

fun parseCameraCloud :: "go_lib \<Rightarrow> string list \<Rightarrow> string \<Rightarrow> cameraCloud option" where
  "parseCameraCloud lib [] did = None"
| "parseCameraCloud lib (s # ss) did =
     (case parse_url lib s of
        None \<Rightarrow> parseCameraCloud lib ss did
      | Some u \<Rightarrow>
          (case url_user u of
             None \<Rightarrow> parseCameraCloud lib ss did
           | Some (user, pass) \<Rightarrow>
               if url_scheme u \<noteq> ''xiaomi'' \<or> query_get (url_query u) ''did'' \<noteq> did
               then parseCameraCloud lib ss did
               else Some \<lparr>cloud_did = did, cloud_userID = user, cloud_region = pass\<rparr>))"

fun firstCloud :: "go_lib \<Rightarrow> string \<Rightarrow> string \<Rightarrow> stream_table \<Rightarrow> cameraCloud option" where
  "firstCloud lib src did [] = None"
| "firstCloud lib src did ((name, st) # rest) =
     (if name \<noteq> src \<and> cameraDID lib (sources st) = did then
        (case parseCameraCloud lib (sources st) did of
           Some c \<Rightarrow> Some c
         | None \<Rightarrow> firstCloud lib src did rest)
      else firstCloud lib src did rest)"

definition findCameraCloud :: "go_lib \<Rightarrow> stream_table \<Rightarrow> string \<Rightarrow> stream_error + cameraCloud" where
  "findCameraCloud lib table src =
     (case map_of table src of
        None \<Rightarrow> Inl StreamNotFound
      | Some st \<Rightarrow>
          let did = cameraDID lib (sources st) in
          if did = [] then Inl NotXiaomi
          else case parseCameraCloud lib (sources st) did of
            Some c \<Rightarrow> Inr c
          | None \<Rightarrow>
              (case firstCloud lib src did table of
                 Some c \<Rightarrow> Inr c
               | None \<Rightarrow> Inl NoCredentials))"

definition presetName :: "go_lib \<Rightarrow> string \<Rightarrow> string" where
  "presetName lib name =
     (case b64_decode name of
        Some d \<Rightarrow> if d \<noteq> [] \<and> printable lib d then d else name
      | None \<Rightarrow> name)"

definition areaLocation :: "preset_area \<Rightarrow> int option" where
  "areaLocation a = (case area_location a of None \<Rightarrow> area_index a | Some l \<Rightarrow> Some l)"

fun presetLoop :: "go_lib \<Rightarrow> int list \<Rightarrow> preset_area list \<Rightarrow> preset_error + xiaomiPreset list" where
  "presetLoop lib seen [] = Inr []"
| "presetLoop lib seen (a # as) =
     (case areaLocation a of
        None \<Rightarrow> Inl BadLocation
      | Some l \<Rightarrow>
          if l < 0 \<or> l > 64 \<or> l \<in> set seen then Inl BadLocation
          else case presetLoop lib (l # seen) as of
            Inl e \<Rightarrow> Inl e
          | Inr ps \<Rightarrow> Inr (\<lparr>Token = dec_int l, Name = presetName lib (area_name a)\<rparr> # ps))"

definition parseCameraPresets :: "go_lib \<Rightarrow> string \<Rightarrow> preset_error + xiaomiPreset list" where
  "parseCameraPresets lib v =
     (case json_text lib v of
        None \<Rightarrow> Inl BadProperty
      | Some encoded \<Rightarrow>
          (case json_areas lib encoded of
             None \<Rightarrow> Inl BadList
           | Some areas \<Rightarrow> presetLoop lib [] areas))"

definition hasPreset :: "xiaomiPreset list \<Rightarrow> string \<Rightarrow> bool" where
  "hasPreset ps token = list_ex (\<lambda>p. Token p = token) ps"

definition decodeMIoTResults :: "go_lib \<Rightarrow> string \<Rightarrow> preset_error + miotResult list" where
  "decodeMIoTResults lib data =
     (let d = trim_space data in
      if d = [] then Inl EmptyResponse
      else case (if hd d = CHR ''['' then json_results lib d else json_response lib d) of
        Some rs \<Rightarrow> Inr rs
      | None \<Rightarrow> Inl BadResponse)"

text \<open>A request to the cloud: user, region, path and parameters.\<close>

type_synonym cloud_call = "string \<times> string \<times> string \<times> string"
type_synonym cloud_fun = "cloud_call \<Rightarrow> string + string"

definition getParams :: "go_lib \<Rightarrow> cameraCloud \<Rightarrow> string" where
  "getParams lib c = ''{\"params\":[{\"did\":'' @ go_quote lib (cloud_did c) @ '',\"siid\":10,\"piid\":1}]}''"

definition setParams :: "go_lib \<Rightarrow> cameraCloud \<Rightarrow> int \<Rightarrow> string" where
  "setParams lib c l =
     ''{\"params\":[{\"did\":'' @ go_quote lib (cloud_did c) @ '',\"siid\":10,\"piid\":2,\"value\":'' @ dec_int l @ ''}]}''"

definition getCall :: "go_lib \<Rightarrow> cameraCloud \<Rightarrow> cloud_call" where
  "getCall lib c = (cloud_userID c, cloud_region c, ''/miotspec/prop/get'', getParams lib c)"

definition setCall :: "go_lib \<Rightarrow> cameraCloud \<Rightarrow> int \<Rightarrow> cloud_call" where
  "setCall lib c l = (cloud_userID c, cloud_region c, ''/miotspec/prop/set'', setParams lib c l)"

definition getCameraPresets :: "go_lib \<Rightarrow> cloud_fun \<Rightarrow> cameraCloud \<Rightarrow> preset_error + xiaomiPreset list" where
  "getCameraPresets lib cloud c =
     (case cloud (getCall lib c) of
        Inl e \<Rightarrow> Inl (CloudFailed e)
      | Inr res \<Rightarrow>
          (case decodeMIoTResults lib res of
             Inl e \<Rightarrow> Inl e
           | Inr [] \<Rightarrow> Inl DiscoveryRejected
           | Inr (r # _) \<Rightarrow> if mcode r \<noteq> 0 then Inl DiscoveryRejected else parseCameraPresets lib (mvalue r)))"

definition gotoCameraPreset :: "go_lib \<Rightarrow> cloud_fun \<Rightarrow> cameraCloud \<Rightarrow> int \<Rightarrow> preset_error option" where
  "gotoCameraPreset lib cloud c l =
     (case cloud (setCall lib c l) of
        Inl e \<Rightarrow> Some (CloudFailed e)
      | Inr res \<Rightarrow>
          (case decodeMIoTResults lib res of
             Inl e \<Rightarrow> Some e
           | Inr [] \<Rightarrow> Some (PresetRejected l)
           | Inr (r # _) \<Rightarrow> if mcode r \<noteq> 0 then Some (PresetRejected l) else None))"

text \<open>The reply of the handler, and the calls of the cloud in their order.\<close>

datatype preset_reply = MethodNotAllowed | SrcRequired | NoCamera stream_error | BadToken
  | NotDiscovered | CloudError preset_error | PresetList "xiaomiPreset list" | Went string string

fun reply_status :: "preset_reply \<Rightarrow> nat" where
  "reply_status MethodNotAllowed = 405"
| "reply_status SrcRequired = 400"
| "reply_status (NoCamera e) = 400"
| "reply_status BadToken = 400"
| "reply_status NotDiscovered = 400"
| "reply_status (CloudError e) = 502"
| "reply_status (PresetList ps) = 200"
| "reply_status (Went src token) = 200"

definition apiPresets ::
  "go_lib \<Rightarrow> cloud_fun \<Rightarrow> stream_table \<Rightarrow> string \<Rightarrow> query \<Rightarrow> preset_reply \<times> cloud_call list" where
  "apiPresets lib cloud table meth q =
     (if meth \<noteq> ''GET'' \<and> meth \<noteq> ''POST'' then (MethodNotAllowed, [])
      else let src = query_get q ''src'' in
      if src = [] then (SrcRequired, [])
      else case findCameraCloud lib table src of
        Inl e \<Rightarrow> (NoCamera e, [])
      | Inr c \<Rightarrow>
      if meth = ''GET'' then
        (case getCameraPresets lib cloud c of
           Inl e \<Rightarrow> (CloudError e, [getCall lib c])
         | Inr ps \<Rightarrow> (PresetList ps, [getCall lib c]))
      else let token = query_get q ''token'' in
      case atoi token of
        None \<Rightarrow> (BadToken, [])
      | Some l \<Rightarrow>
      if l < 0 \<or> l > 64 then (BadToken, [])
      else case getCameraPresets lib cloud c of
        Inl e \<Rightarrow> (CloudError e, [getCall lib c])
      | Inr ps \<Rightarrow>
          if \<not> hasPreset ps token then (NotDiscovered, [getCall lib c])
          else case gotoCameraPreset lib cloud c l of
            Some e \<Rightarrow> (CloudError e, [getCall lib c, setCall lib c l])
          | None \<Rightarrow> (Went src token, [getCall lib c, setCall lib c l]))"

subsection \<open>Lemmas\<close>

lemma parsePTZDuration_bounds:
  "parsePTZDuration v op = Some ms \<Longrightarrow> if op = 0 then ms = 0 else 1 \<le> ms \<and> ms \<le> 2000"
  by (auto simp: parsePTZDuration_def ptzDefaultDuration_def ptzMaxDuration_def
      split: if_splits option.splits)

definition ends_move :: "move_turn \<Rightarrow> bool" where
  "ends_move t \<longleftrightarrow> dead t \<or> move_fails t \<or> selected t \<noteq> Tick"

definition turn_error :: "move_turn \<Rightarrow> move_error option" where
  "turn_error t =
     (if dead t then Some MoveDead else if move_fails t then Some MoveFailed
      else if selected t = TimerFired then None else Some MoveCanceled)"

lemma moveLoop_ticks:
  "list_all (\<lambda>t. \<not> ends_move t) ts \<Longrightarrow>
   moveLoop op (ts @ us) = map_option (\<lambda>(sent, e). (replicate (length ts) op @ sent, e)) (moveLoop op us)"
proof (induction ts)
  case Nil
  then show ?case by (cases "moveLoop op us") auto
next
  case (Cons t ts)
  then show ?case by (cases "moveLoop op us") (auto simp: ends_move_def)
qed

lemma moveLoop_end:
  "ends_move t \<Longrightarrow> moveLoop op (t # us) = Some (if dead t then [] else [op], turn_error t)"
  by (cases "selected t") (auto simp: ends_move_def turn_error_def)

lemma moveLoop_none: "list_all (\<lambda>t. \<not> ends_move t) ts \<Longrightarrow> moveLoop op ts = None"
  using moveLoop_ticks [of ts op "[]"] by simp

lemma moveLoop_sent:
  "moveLoop op ts = Some (sent, e) \<Longrightarrow> \<exists>m. sent = replicate m op \<and> (e = None \<longrightarrow> 0 < m)"
proof (induction ts arbitrary: sent)
  case (Cons t ts)
  show ?case
  proof (cases "ends_move t")
    case True
    with Cons.prems moveLoop_end [OF True, of op ts] show ?thesis
      by (intro exI [of _ "if dead t then 0 else 1"]) (auto simp: turn_error_def)
  next
    case False
    with Cons.prems obtain s' where s': "moveLoop op ts = Some (s', e)" "sent = op # s'"
      by (auto simp: ends_move_def)
    from Cons.IH [OF s'(1)] obtain m where "s' = replicate m op" by auto
    with s' show ?thesis by (intro exI [of _ "Suc m"]) simp
  qed
qed simp

lemma runPTZ_sent:
  assumes "runPTZ d sf op ts = Some (sent, e)" "op \<noteq> 0"
  shows "sent = [] \<and> e \<noteq> None \<or> (\<exists>m. sent = replicate m op @ [0] \<and> (e = None \<longrightarrow> 0 < m))"
proof (cases d)
  case False
  with assms obtain s' e' where r: "moveLoop op ts = Some (s', e')" "sent = s' @ [0]" "e = None \<longrightarrow> e' = None"
    by (auto simp: runPTZ_def split: if_splits)
  from moveLoop_sent [OF r(1)] r(2,3) show ?thesis by blast
qed (use assms in \<open>auto simp: runPTZ_def\<close>)

definition gate_section :: "string \<Rightarrow> int \<Rightarrow> ptz_action list \<Rightarrow> bool" where
  "gate_section did op acts \<longleftrightarrow>
     (\<exists>n m. acts \<in> {[], [Lock did, Unlock did],
        [Lock did] @ replicate m (Send n op) @ [Send n 0, Unlock did]})"

lemma gate_sections: "gate_section did op []" "gate_section did op [Lock did, Unlock did]"
    "gate_section did op ([Lock did] @ replicate m (Send n op) @ [Send n 0, Unlock did])"
  by (auto simp: gate_section_def)

lemma moveCamera_acts:
  assumes "moveCamera w did op = Some (ok, acts)" "op \<noteq> 0"
  shows "acts = [Command did, Acquire did, Done did] \<and> \<not> ok \<or>
    (\<exists>g. gate_section did op g \<and> acts = [Command did, Acquire did] @ g @ [Release did, Done did] \<and>
       (ok \<longrightarrow> (\<exists>n m. acquired w = Some n \<and> g = [Lock did] @ replicate (Suc m) (Send n op) @ [Send n 0, Unlock did])))"
proof (cases "acquired w")
  case (Some n)
  show ?thesis
  proof (cases "lock_fails w")
    case True
    with assms Some have "acts = [Command did, Acquire did] @ [] @ [Release did, Done did]" "\<not> ok"
      by (auto simp: moveCamera_def)
    with gate_sections(1) [of did op] show ?thesis by blast
  next
    case False
    with assms(1) Some obtain sent e where
      r: "runPTZ (ctx_dead w) (stop_fails w) op (turns w) = Some (sent, e)" and ok: "ok = (e = None)"
      and acts: "acts = [Command did, Acquire did] @ ([Lock did] @ map (Send n) sent @ [Unlock did]) @ [Release did, Done did]"
      by (auto simp: moveCamera_def)
    from runPTZ_sent [OF r assms(2)] consider "sent = []" "e \<noteq> None"
      | m where "sent = replicate m op @ [0]" "e = None \<longrightarrow> 0 < m" by blast
    then show ?thesis
    proof cases
      case 1
      with acts ok have "acts = [Command did, Acquire did] @ [Lock did, Unlock did] @ [Release did, Done did]" "\<not> ok"
        by auto
      with gate_sections(2) [of did op] show ?thesis by blast
    next
      case (2 m)
      let ?g = "[Lock did] @ replicate m (Send n op) @ [Send n 0, Unlock did]"
      have "acts = [Command did, Acquire did] @ ?g @ [Release did, Done did]"
        using acts 2(1) by (simp add: map_replicate_const)
      moreover have "ok \<Longrightarrow> \<exists>k. m = Suc k" using 2(2) ok by (cases m) auto
      ultimately show ?thesis using gate_sections(3) [of did op m n] Some by blast
    qed
  qed
qed (use assms in \<open>auto simp: moveCamera_def\<close>)

lemma presetLoop_iff:
  "presetLoop lib seen as = Inr ps \<longleftrightarrow>
     (\<forall>a \<in> set as. \<exists>l. areaLocation a = Some l \<and> 0 \<le> l \<and> l \<le> 64 \<and> l \<notin> set seen) \<and>
     distinct (map areaLocation as) \<and>
     ps = map (\<lambda>a. \<lparr>Token = dec_int (the (areaLocation a)), Name = presetName lib (area_name a)\<rparr>) as"
proof (induction as arbitrary: seen ps)
  case (Cons a as)
  show ?case
  proof (cases "areaLocation a")
    case (Some l)
    have "(\<forall>b \<in> set as. \<exists>k. areaLocation b = Some k \<and> 0 \<le> k \<and> k \<le> 64 \<and> k \<notin> set (l # seen)) \<longleftrightarrow>
        (\<forall>b \<in> set as. \<exists>k. areaLocation b = Some k \<and> 0 \<le> k \<and> k \<le> 64 \<and> k \<notin> set seen) \<and>
        Some l \<notin> areaLocation ` set as"
      by force
    with Cons.IH [of "l # seen"] Cons.IH [of "l # seen"
        "map (\<lambda>a. \<lparr>Token = dec_int (the (areaLocation a)), Name = presetName lib (area_name a)\<rparr>) as"] Some
    show ?thesis by (cases "presetLoop lib (l # seen) as") (auto simp: image_iff)
  qed simp
qed auto

lemma atoi_dec_int: "0 \<le> l \<Longrightarrow> l \<le> 64 \<Longrightarrow> atoi (dec_int l) = Some l"
  using atoi_dec_nat [of "nat l"] by (simp add: dec_int_def)

lemma parseCameraPresets_tokens:
  assumes "parseCameraPresets lib v = Inr ps" "hasPreset ps token" "atoi token = Some l"
  shows "token = dec_int l \<and> 0 \<le> l \<and> l \<le> 64"
proof -
  from assms(1) obtain as where "presetLoop lib [] as = Inr ps"
    by (auto simp: parseCameraPresets_def split: option.splits)
  then have ps: "\<forall>a \<in> set as. \<exists>l. areaLocation a = Some l \<and> 0 \<le> l \<and> l \<le> 64"
      "ps = map (\<lambda>a. \<lparr>Token = dec_int (the (areaLocation a)), Name = presetName lib (area_name a)\<rparr>) as"
    by (simp_all add: presetLoop_iff)
  with assms(2) obtain a where "a \<in> set as" "token = dec_int (the (areaLocation a))"
    by (auto simp: hasPreset_def list_ex_iff)
  with ps(1) assms(3) show ?thesis by (auto simp: atoi_dec_int)
qed

subsection \<open>Properties\<close>

text \<open>
  Claim C4. A timed movement repeats its operation once per turn and always ends with a stop,
  however it ends: after any number of ticks, a turn that ends the loop (the context is done, the
  command failed, the timer fired) is followed by \<open>SetDirection(0)\<close> as the last command. It
  succeeds only when the timer ended it and the stop was accepted; the error of the movement wins
  over that of the stop. A context that is done before the start sends nothing.
\<close>

theorem ptz_movement_stops:
  assumes "op \<noteq> 0" "list_all (\<lambda>t. \<not> ends_move t) ticks" "ends_move t"
  shows "runPTZ False sf op (ticks @ t # rest) =
      Some (replicate (length ticks + (if dead t then 0 else 1)) op @ [0],
            if turn_error t = None \<and> sf then Some StopFailed else turn_error t) \<and>
    runPTZ True sf op ts = Some ([], Some MoveDead)"
proof -
  have "moveLoop op (ticks @ t # rest) =
      Some (replicate (length ticks) op @ (if dead t then [] else [op]), turn_error t)"
    using moveLoop_ticks [OF assms(2), of op "t # rest"] moveLoop_end [OF assms(3), of op rest] by simp
  then show ?thesis using assms(1) by (simp add: runPTZ_def replicate_add)
qed

theorem ptz_movement_stops_witness:
  "runPTZ False False 3 [\<lparr>dead = False, move_fails = False, selected = Tick\<rparr>,
     \<lparr>dead = False, move_fails = False, selected = TimerFired\<rparr>] = Some ([3, 3, 0], None)"
  using ptz_movement_stops [of 3 "[\<lparr>dead = False, move_fails = False, selected = Tick\<rparr>]"
      "\<lparr>dead = False, move_fails = False, selected = TimerFired\<rparr>" False "[]"]
  by (simp add: ends_move_def turn_error_def)

text \<open>
  Claim C5. The handler of movements. A request refused with 405 or 400 touches no camera. A stop
  never registers a command and never acquires a connection. A movement acquires first, moves only
  between \<open>lock\<close> and \<open>unlock\<close>, and the commands it sends there, when there are any, end with a stop;
  it releases what it acquired and ends its command, whatever failed. The reply is a success
  only for a POST of a known direction; then a movement was sent at least once, was stopped, and
  its duration is within 1 and 2000 milliseconds.
\<close>

theorem ptz_handler:
  assumes "apiPTZ lib w meth q = Some (reply, acts)"
  shows "(\<forall>code msg. reply = HttpError code msg \<longrightarrow> code \<in> {400, 405} \<and> acts = [] \<or> code = 502) \<and>
    (ptzOperations (query_get q ''direction'') = Some 0 \<longrightarrow> (\<forall>did. Command did \<notin> set acts \<and> Acquire did \<notin> set acts)) \<and>
    (\<forall>op. ptzOperations (query_get q ''direction'') = Some op \<and> op \<noteq> 0 \<and> acts \<noteq> [] \<longrightarrow>
       (\<exists>did. acts = [Command did, Acquire did, Done did] \<or>
          (\<exists>g. gate_section did op g \<and> acts = [Command did, Acquire did] @ g @ [Release did, Done did]))) \<and>
    (\<forall>src dir ms. reply = Moved src dir ms \<longrightarrow> meth = ''POST'' \<and> (\<exists>op. ptzOperations dir = Some op \<and>
       (if op = 0 then ms = 0
        else 1 \<le> ms \<and> ms \<le> 2000 \<and> (\<exists>n. acquired w = Some n \<and> Send n op \<in> set acts \<and> Send n 0 \<in> set acts))))"
proof -
  define op' where "op' = ptzOperations (query_get q ''direction'')"
  show ?thesis
  proof (cases "acts = [] \<and> (\<exists>code msg. reply = HttpError code msg \<and> code \<in> {400, 405})")
    case True
    then show ?thesis by auto
  next
    case False
    with assms obtain op ms st did ok where
      s: "meth = ''POST''" "op' = Some op" "parsePTZDuration (query_get q ''duration'') op = Some ms"
      "(if op = 0 then Some (stopCamera w did) else moveCamera w did op) = Some (ok, acts)"
      "reply = (if ok then Moved (query_get q ''src'') (query_get q ''direction'') ms
        else HttpError 502 ''Xiaomi PTZ connection or movement failed'')"
      unfolding apiPTZ_def op'_def
      by (auto simp: Let_def split: if_splits option.splits sum.splits stream_error.splits)
    show ?thesis
    proof (cases "op = 0")
      case True
      with s have "(\<forall>did. Command did \<notin> set acts \<and> Acquire did \<notin> set acts)" "ms = 0"
        using parsePTZDuration_bounds [OF s(3)] by (auto simp: stopCamera_def split: if_splits option.splits)
      with s True show ?thesis unfolding op'_def by auto
    next
      case False
      with s(4) have m: "moveCamera w did op = Some (ok, acts)" by simp
      have b: "1 \<le> ms \<and> ms \<le> 2000" using parsePTZDuration_bounds [OF s(3)] False by simp
      note a = moveCamera_acts [OF m False]
      have sent: "\<exists>n. acquired w = Some n \<and> Send n op \<in> set acts \<and> Send n 0 \<in> set acts" if "ok"
        using a that by force
      from a have shape: "\<exists>did. acts = [Command did, Acquire did, Done did] \<or>
          (\<exists>g. gate_section did op g \<and> acts = [Command did, Acquire did] @ g @ [Release did, Done did])"
        by blast
      show ?thesis using s(1,2,5) b sent shape False unfolding op'_def by auto
    qed
  qed
qed

definition demo_lib :: go_lib where
  "demo_lib = \<lparr>parse_url = (\<lambda>s. if s = ''xiaomi://1:cn@10.0.0.2?did=77''
       then Some \<lparr>url_scheme = ''xiaomi'', url_user = Some (''1'', ''cn''), url_host = ''10.0.0.2'', url_path = [],
         url_query = [(''did'', ''77'')]\<rparr> else None),
     go_quote = (\<lambda>s. CHR 0x22 # s @ [CHR 0x22]), json_text = Some,
     json_areas = (\<lambda>s. if s = ''A'' then Some [\<lparr>area_index = Some 1, area_location = Some 7, area_name = ''Door''\<rparr>] else None),
     json_results = (\<lambda>s. if s = ''[A]'' then Some [\<lparr>mcode = 0, mvalue = ''A''\<rparr>] else None),
     json_response = (\<lambda>s. Some []), printable = (\<lambda>s. False)\<rparr>"

definition demo_table :: stream_table where
  "demo_table = [(''cam'', \<lparr>sources = [''xiaomi://1:cn@10.0.0.2?did=77''], connections = [None, Some 4]\<rparr>)]"

definition demo_world :: ptz_world where
  "demo_world = \<lparr>stream_tab = demo_table, lock_fails = False, stop_controller = Some 4, acquired = Some 4,
     ctx_dead = False, stop_fails = False, turns = [\<lparr>dead = False, move_fails = False, selected = TimerFired\<rparr>]\<rparr>"

lemmas demo_run = demo_lib_def demo_table_def demo_world_def apiPTZ_def ptzOperations_def
  parsePTZDuration_def ptzMaxDuration_def atoi_def digit_val_def ptzStream_def connectedPTZ_def
  moveCamera_def runPTZ_def apiPresets_def findCameraCloud_def getCameraPresets_def getCall_def
  decodeMIoTResults_def parseCameraPresets_def areaLocation_def hasPreset_def dec_int_def
  digit_char_def setCall_def gotoCameraPreset_def

theorem ptz_handler_witness:
  "apiPTZ demo_lib demo_world ''POST'' [(''src'', ''cam''), (''direction'', ''left''), (''duration'', ''50'')] =
     Some (Moved ''cam'' ''left'' 50,
       [Command ''77'', Acquire ''77'', Lock ''77'', Send 4 1, Send 4 0, Unlock ''77'', Release ''77'', Done ''77'']) \<and>
   (\<exists>op. ptzOperations ''left'' = Some op \<and> op \<noteq> 0)"
proof -
  have e: "apiPTZ demo_lib demo_world ''POST'' [(''src'', ''cam''), (''direction'', ''left''), (''duration'', ''50'')] =
     Some (Moved ''cam'' ''left'' 50,
       [Command ''77'', Acquire ''77'', Lock ''77'', Send 4 1, Send 4 0, Unlock ''77'', Release ''77'', Done ''77''])"
    by (simp add: demo_run Let_def)
  from ptz_handler [OF e] e show ?thesis by (auto simp: ptzOperations_def)
qed

text \<open>
  The list of presets is taken whole or not at all: it is accepted exactly when every
  area has a location (or else an index) within 0 and 64 and no two have the same, and then it has
  one preset per area, in their order, whose token is the canonical decimal of that location.
\<close>

lemma ptz_preset_list:
  "presetLoop lib [] as = Inr ps \<longleftrightarrow>
     (\<forall>a \<in> set as. \<exists>l. areaLocation a = Some l \<and> 0 \<le> l \<and> l \<le> 64) \<and> distinct (map areaLocation as) \<and>
     ps = map (\<lambda>a. \<lparr>Token = dec_int (the (areaLocation a)), Name = presetName lib (area_name a)\<rparr>) as"
  by (simp add: presetLoop_iff)

text \<open>
  Claim C6. A camera is only sent to a preset that it has. The handler of presets asks the cloud
  for the list first; it asks to go to a location only for a POST whose token is the canonical
  decimal of that location, within 0 and 64, and is in the list that the cloud just gave; requests
  refused with 405, or with 400 before the list is known, make no call at all. A success of a POST
  means that the cloud accepted the call.
\<close>

theorem ptz_goto_discovered:
  assumes "apiPresets lib cloud tab meth q = (reply, calls)"
  shows "(reply \<in> {MethodNotAllowed, SrcRequired, BadToken} \<or> (\<exists>e. reply = NoCamera e) \<longrightarrow> calls = []) \<and>
    (calls = [] \<or> (\<exists>c. findCameraCloud lib tab (query_get q ''src'') = Inr c \<and>
       (calls = [getCall lib c] \<or>
        (\<exists>l ps. calls = [getCall lib c, setCall lib c l] \<and> meth = ''POST'' \<and>
           query_get q ''token'' = dec_int l \<and> 0 \<le> l \<and> l \<le> 64 \<and>
           getCameraPresets lib cloud c = Inr ps \<and> hasPreset ps (dec_int l) \<and>
           (reply_status reply = 200 \<longrightarrow> gotoCameraPreset lib cloud c l = None)))))"
proof (cases "calls = []")
  case False
  with assms obtain c where c: "findCameraCloud lib tab (query_get q ''src'') = Inr c"
    by (auto simp: apiPresets_def Let_def split: if_splits sum.splits)
  show ?thesis
  proof (cases "calls = [getCall lib c]")
    case True
    with assms c show ?thesis
      by (auto simp: apiPresets_def Let_def split: if_splits sum.splits option.splits)
  next
    case no: False
    note step = assms [unfolded apiPresets_def Let_def]
    have m: "meth = ''POST''" using step c False no by (auto split: if_splits sum.splits)
    obtain l where l: "atoi (query_get q ''token'') = Some l"
      using step c False no by (cases "atoi (query_get q ''token'')") (auto split: if_splits sum.splits)
    obtain ps where ps: "getCameraPresets lib cloud c = Inr ps"
      using step c False no l by (cases "getCameraPresets lib cloud c") (auto split: if_splits)
    have p: "calls = [getCall lib c, setCall lib c l]" "hasPreset ps (query_get q ''token'')"
      "reply_status reply = 200 \<longrightarrow> gotoCameraPreset lib cloud c l = None"
      "reply \<notin> {MethodNotAllowed, SrcRequired, BadToken}" "\<not> (\<exists>e. reply = NoCamera e)"
      using step c False no l ps m by (auto split: if_splits option.splits)
    obtain v where "parseCameraPresets lib v = Inr ps"
      using ps by (auto simp: getCameraPresets_def split: sum.splits list.splits if_splits)
    from parseCameraPresets_tokens [OF this p(2) l] p(2) have
      t: "query_get q ''token'' = dec_int l" "0 \<le> l" "l \<le> 64" "hasPreset ps (dec_int l)" by auto
    show ?thesis using c m p(1,3,4,5) ps t by blast
  qed
qed simp

theorem ptz_goto_discovered_witness:
  "apiPresets demo_lib (\<lambda>(u, r, path, ps). Inr ''[A]'') demo_table ''POST'' [(''src'', ''cam''), (''token'', ''7'')] =
     (Went ''cam'' ''7'', [getCall demo_lib \<lparr>cloud_did = ''77'', cloud_userID = ''1'', cloud_region = ''cn''\<rparr>,
        setCall demo_lib \<lparr>cloud_did = ''77'', cloud_userID = ''1'', cloud_region = ''cn''\<rparr> 7]) \<and>
   (\<exists>l. ''7'' = dec_int l \<and> 0 \<le> l \<and> l \<le> 64)"
proof -
  have seven: "dec_nat 7 = ''7''" by code_simp
  have trim: "trim_space ''[A]'' = ''[A]''" by (rule trim_space_plain) (simp add: plain_def visible_def)
  have e: "apiPresets demo_lib (\<lambda>(u, r, path, ps). Inr ''[A]'') demo_table ''POST'' [(''src'', ''cam''), (''token'', ''7'')] =
     (Went ''cam'' ''7'', [getCall demo_lib \<lparr>cloud_did = ''77'', cloud_userID = ''1'', cloud_region = ''cn''\<rparr>,
        setCall demo_lib \<lparr>cloud_did = ''77'', cloud_userID = ''1'', cloud_region = ''cn''\<rparr> 7])"
    using trim seven by (simp add: demo_run Let_def)
  from ptz_goto_discovered [OF e] e show ?thesis by auto
qed

end
