(* ===== verification/OnvifConfig.thy ===== *)
theory OnvifConfig
  imports GoWeb
begin

section \<open>Configuration of the ONVIF bridge\<close>

text \<open>
  Models \<open>cmd/xiaomi-onvif/profile.go\<close> and the mappings of \<open>main.go\<close>: the video profile of each
  camera out of the defaults and the overrides of the command line, \<open>parseCameraMapping\<close>, the flags
  that collect the mappings, and the address that \<open>main\<close> gives for the stream of a camera. A Go map
  is a partial function; an error is a value of \<open>config_error\<close>.
\<close>

record videoProfile =
  width :: int
  height :: int
  fps :: int
  codec :: string

datatype config_error = InvalidProfile | InvalidDefaults | MissingName | MissingListen
  | InvalidMapping config_error | ProfileSyntax | UnknownCamera string | DuplicateProfile string
  | FieldSyntax | DuplicateField string | UnknownField string | NotInteger string
  | InvalidCameraProfile string | CameraSyntax

definition valid_profile :: "videoProfile \<Rightarrow> bool" where
  "valid_profile p \<longleftrightarrow>
     \<not> (width p < 1 \<or> height p < 1 \<or> fps p < 1 \<or> fps p > 120 \<or> codec p \<noteq> ''H264'' \<and> codec p \<noteq> ''H265'')"

subsection \<open>Mappings\<close>

definition cameraFlagSet :: "string list \<Rightarrow> string \<Rightarrow> config_error + string list" where
  "cameraFlagSet f v = (if \<not> contains v ''='' then Inl CameraSyntax else Inr (f @ [v]))"

definition parseCameraMapping :: "string \<Rightarrow> config_error + string \<times> string \<times> string" where
  "parseCameraMapping value =
     (case cut CHR ''='' value of
        None \<Rightarrow> Inl MissingName
      | Some (n, raw) \<Rightarrow>
          let name = trim_space n;
              parts = split2 CHR '','' raw;
              listen = trim_space (hd parts)
          in if name = [] \<or> listen = [] then Inl MissingListen
             else let stream = (if length parts = 2 then trim_space (parts ! 1) else [])
                  in Inr (name, listen, if stream = [] then name @ ''_4k'' else stream))"

text \<open>The address of the stream in \<open>main\<close>.\<close>

definition streamURL :: "string \<Rightarrow> string \<Rightarrow> string" where
  "streamURL rtspBase stream =
     (if contains stream ''://'' then stream
      else trim_right_char CHR ''/'' rtspBase @ ''/'' @ trim_left_char CHR ''/'' stream)"

subsection \<open>Profiles\<close>

fun cameraDefaults :: "videoProfile \<Rightarrow> (string \<rightharpoonup> videoProfile) \<Rightarrow> string list \<Rightarrow>
    config_error + (string \<rightharpoonup> videoProfile)" where
  "cameraDefaults d m [] = Inr m"
| "cameraDefaults d m (c # cs) =
     (case parseCameraMapping c of
        Inl e \<Rightarrow> Inl (InvalidMapping e)
      | Inr (name, _, _) \<Rightarrow> cameraDefaults d (m(name \<mapsto> d)) cs)"

fun applyFields :: "string list \<Rightarrow> string list \<Rightarrow> videoProfile \<Rightarrow> config_error + videoProfile" where
  "applyFields keys [] p = Inr p"
| "applyFields keys (f # fs) p =
     (case cut CHR ''='' f of
        None \<Rightarrow> Inl FieldSyntax
      | Some (k0, v0) \<Rightarrow>
          let k = trim_space k0; v = trim_space v0 in
          if v = [] then Inl FieldSyntax
          else if k \<in> set keys then Inl (DuplicateField k)
          else if k = ''codec'' then applyFields (k # keys) fs (p\<lparr>codec := to_upper v\<rparr>)
          else if k \<notin> {''width'', ''height'', ''fps''} then Inl (UnknownField k)
          else case atoi v of
            None \<Rightarrow> Inl (NotInteger k)
          | Some n \<Rightarrow>
              applyFields (k # keys) fs
                (if k = ''width'' then p\<lparr>width := n\<rparr> else if k = ''height'' then p\<lparr>height := n\<rparr>
                 else p\<lparr>fps := n\<rparr>))"

fun applyOverrides :: "string list \<Rightarrow> string list \<Rightarrow> (string \<rightharpoonup> videoProfile) \<Rightarrow>
    config_error + (string \<rightharpoonup> videoProfile)" where
  "applyOverrides seen [] m = Inr m"
| "applyOverrides seen (ov # ovs) m =
     (case cut CHR ''='' ov of
        None \<Rightarrow> Inl ProfileSyntax
      | Some (n, settings) \<Rightarrow>
          let name = trim_space n in
          if name = [] \<or> settings = [] then Inl ProfileSyntax
          else case m name of
            None \<Rightarrow> Inl (UnknownCamera name)
          | Some p \<Rightarrow>
              if name \<in> set seen then Inl (DuplicateProfile name)
              else case applyFields [] (split_on CHR '','' settings) p of
                Inl e \<Rightarrow> Inl e
              | Inr p' \<Rightarrow>
                  if \<not> valid_profile p' then Inl (InvalidCameraProfile name)
                  else applyOverrides (name # seen) ovs (m(name \<mapsto> p')))"

definition resolveCameraProfiles :: "string list \<Rightarrow> string list \<Rightarrow> videoProfile \<Rightarrow>
    config_error + (string \<rightharpoonup> videoProfile)" where
  "resolveCameraProfiles cameras overrides defaults =
     (let d = defaults\<lparr>codec := to_upper (trim_space (codec defaults))\<rparr> in
      if \<not> valid_profile d then Inl InvalidDefaults
      else case cameraDefaults d Map.empty cameras of
        Inl e \<Rightarrow> Inl e
      | Inr m \<Rightarrow> applyOverrides [] overrides m)"

subsection \<open>Lemmas\<close>

text \<open>The name that a mapping or an override is about, and the keys that the fields set.\<close>

definition mapping_name :: "string \<Rightarrow> string" where
  "mapping_name v = (case cut CHR ''='' v of Some (n, _) \<Rightarrow> trim_space n | None \<Rightarrow> [])"

definition override_fields :: "string \<Rightarrow> string list" where
  "override_fields v = (case cut CHR ''='' v of Some (_, fs) \<Rightarrow> split_on CHR '','' fs | None \<Rightarrow> [])"

lemma parseCameraMapping_name: "parseCameraMapping v = Inr (n, l, s) \<Longrightarrow> n = mapping_name v"
  by (auto simp: parseCameraMapping_def mapping_name_def Let_def split: option.splits if_splits)

lemma cameraDefaults_map:
  "cameraDefaults d m cs = Inr m' \<Longrightarrow>
   m' = (\<lambda>n. if n \<in> mapping_name ` set cs then Some d else m n)"
proof (induction cs arbitrary: m)
  case (Cons c cs)
  then obtain n l s where "parseCameraMapping c = Inr (n, l, s)" "cameraDefaults d (m(n \<mapsto> d)) cs = Inr m'"
    by (auto split: sum.splits)
  with Cons.IH parseCameraMapping_name show ?case by fastforce
qed simp

lemma applyFields_other:
  "applyFields keys fs p = Inr p' \<Longrightarrow>
   (''width'' \<notin> mapping_name ` set fs \<longrightarrow> width p' = width p) \<and>
   (''height'' \<notin> mapping_name ` set fs \<longrightarrow> height p' = height p) \<and>
   (''fps'' \<notin> mapping_name ` set fs \<longrightarrow> fps p' = fps p) \<and>
   (''codec'' \<notin> mapping_name ` set fs \<longrightarrow> codec p' = codec p) \<and>
   distinct (map mapping_name fs) \<and> set (map mapping_name fs) \<inter> set keys = {}"
proof (induction keys fs p rule: applyFields.induct)
  case (2 keys f fs p)
  then obtain k0 v0 where c: "cut CHR ''='' f = Some (k0, v0)" by (auto split: option.splits)
  define k where "k = trim_space k0"
  have n: "mapping_name f = k" by (simp add: mapping_name_def c k_def)
  from 2(3) c have v: "trim_space v0 \<noteq> []" "k \<notin> set keys"
    by (auto simp: k_def Let_def split: if_splits)
  show ?case
  proof (cases "k = ''codec''")
    case True
    with 2(3) c v have "applyFields (k # keys) fs (p\<lparr>codec := to_upper (trim_space v0)\<rparr>) = Inr p'"
      by (simp add: k_def Let_def)
    from 2(1) [OF c refl refl refl v(1) _ _ this [unfolded k_def]] True v n show ?thesis
      by (simp add: k_def)
  next
    case False
    with 2(3) c v obtain a where a: "atoi (trim_space v0) = Some a" "k \<in> {''width'', ''height'', ''fps''}"
      by (auto simp: k_def Let_def split: if_splits option.splits)
    with 2(3) c v False have "applyFields (k # keys) fs
        (if k = ''width'' then p\<lparr>width := a\<rparr> else if k = ''height'' then p\<lparr>height := a\<rparr> else p\<lparr>fps := a\<rparr>) = Inr p'"
      unfolding k_def Let_def by (cases "trim_space k0 = ''width''"; cases "trim_space k0 = ''height''"; simp)
    from 2(2) [OF c refl refl refl v(1) _ _ _ a(1) this [unfolded k_def]] a False v n show ?thesis
      by (auto simp: k_def)
  qed
qed simp

lemma applyOverrides_spec:
  assumes "applyOverrides seen ovs m = Inr m'"
  shows "distinct (map mapping_name ovs) \<and> set (map mapping_name ovs) \<inter> set seen = {} \<and>
    (\<forall>n. n \<notin> mapping_name ` set ovs \<longrightarrow> m' n = m n) \<and>
    (\<forall>ov \<in> set ovs. \<exists>p p'. m (mapping_name ov) = Some p \<and> m' (mapping_name ov) = Some p' \<and>
       applyFields [] (override_fields ov) p = Inr p' \<and> valid_profile p')"
  using assms
proof (induction ovs arbitrary: seen m)
  case (Cons ov ovs)
  from Cons.prems obtain n0 st where c: "cut CHR ''='' ov = Some (n0, st)" by (auto split: option.splits)
  define n where "n = trim_space n0"
  have mn: "mapping_name ov = n" "override_fields ov = split_on CHR '','' st"
    by (simp_all add: mapping_name_def override_fields_def c n_def)
  from Cons.prems c obtain p p' where p: "m n = Some p" "n \<notin> set seen"
    "applyFields [] (split_on CHR '','' st) p = Inr p'" "valid_profile p'"
    "applyOverrides (n # seen) ovs (m(n \<mapsto> p')) = Inr m'"
    by (auto simp: n_def Let_def split: if_splits option.splits sum.splits)
  from Cons.IH [OF p(5)] have ih: "distinct (map mapping_name ovs)" "n \<notin> mapping_name ` set ovs"
    "set (map mapping_name ovs) \<inter> set seen = {}"
    "\<forall>k. k \<notin> mapping_name ` set ovs \<longrightarrow> m' k = (m(n \<mapsto> p')) k"
    "\<forall>o' \<in> set ovs. \<exists>q q'. (m(n \<mapsto> p')) (mapping_name o') = Some q \<and> m' (mapping_name o') = Some q' \<and>
       applyFields [] (override_fields o') q = Inr q' \<and> valid_profile q'"
    by auto
  have "m' n = Some p'" using ih(2,4) by simp
  moreover have "\<exists>q q'. m (mapping_name o') = Some q \<and> m' (mapping_name o') = Some q' \<and>
       applyFields [] (override_fields o') q = Inr q' \<and> valid_profile q'" if "o' \<in> set ovs" for o'
  proof -
    have "mapping_name o' \<noteq> n" using ih(2) that by blast
    with ih(5) that show ?thesis by fastforce
  qed
  ultimately show ?case using ih(1-4) p mn by auto
qed simp

text \<open>The profile of a camera that an override names, in an accepted configuration.\<close>

lemma override_outcome:
  assumes "applyOverrides [] overrides (\<lambda>n. if n \<in> cams then Some d else None) = Inr m" "ov \<in> set overrides"
  shows "mapping_name ov \<in> cams \<and> (\<exists>p. m (mapping_name ov) = Some p \<and> valid_profile p \<and>
      distinct (map mapping_name (override_fields ov)) \<and>
      (''width'' \<notin> mapping_name ` set (override_fields ov) \<longrightarrow> width p = width d) \<and>
      (''height'' \<notin> mapping_name ` set (override_fields ov) \<longrightarrow> height p = height d) \<and>
      (''fps'' \<notin> mapping_name ` set (override_fields ov) \<longrightarrow> fps p = fps d) \<and>
      (''codec'' \<notin> mapping_name ` set (override_fields ov) \<longrightarrow> codec p = codec d))"
proof -
  from applyOverrides_spec [OF assms(1)] assms(2) obtain p p' where
    p: "(if mapping_name ov \<in> cams then Some d else None) = Some p" "m (mapping_name ov) = Some p'"
      "applyFields [] (override_fields ov) p = Inr p'" "valid_profile p'" by blast
  from p(1) have "p = d" "mapping_name ov \<in> cams" by (auto split: if_splits)
  with applyFields_other [OF p(3)] p show ?thesis by blast
qed

subsection \<open>Properties\<close>



end
