(* ===== verification/OnvifXml.thy ===== *)
theory OnvifXml
  imports OnvifConfig
begin

section \<open>The XML of the ONVIF bridge\<close>

text \<open>
  Models the builders of the SOAP answers of \<open>cmd/xiaomi-onvif/main.go\<close> and \<open>device.go\<close>, each the
  text of the source with its \<open>Sprintf\<close> arguments in place, and \<open>xmlEscape\<close>, through which every text
  of the configuration, of a client and of the cloud goes: \<open>xml.EscapeText\<close> on the UTF-8 runes of
  the text. The clock and the hash behind \<open>virtualMAC\<close> are parameters.
\<close>

subsection \<open>Escaping\<close>

text \<open>\<open>utf8.DecodeRune\<close>: the rune and its width; an invalid byte is the rune 0xFFFD of width 1.\<close>

definition cont_byte :: "nat \<Rightarrow> nat \<Rightarrow> nat \<Rightarrow> bool" where
  "cont_byte lo hi b \<longleftrightarrow> lo \<le> b \<and> b \<le> hi"

definition rune2 :: "nat \<Rightarrow> string \<Rightarrow> nat \<times> nat" where
  "rune2 a s = (case s of
     b # _ \<Rightarrow> if cont_byte 0x80 0xBF (byte_val b) then ((a - 0xC0) * 64 + (byte_val b - 0x80), 2) else (0xFFFD, 1)
   | [] \<Rightarrow> (0xFFFD, 1))"

definition rune3 :: "nat \<Rightarrow> string \<Rightarrow> nat \<times> nat" where
  "rune3 a s = (case s of
     b # c # _ \<Rightarrow>
       if cont_byte (if a = 0xE0 then 0xA0 else 0x80) (if a = 0xED then 0x9F else 0xBF) (byte_val b) \<and>
          cont_byte 0x80 0xBF (byte_val c)
       then ((a - 0xE0) * 4096 + (byte_val b - 0x80) * 64 + (byte_val c - 0x80), 3) else (0xFFFD, 1)
   | _ \<Rightarrow> (0xFFFD, 1))"

definition rune4 :: "nat \<Rightarrow> string \<Rightarrow> nat \<times> nat" where
  "rune4 a s = (case s of
     b # c # d # _ \<Rightarrow>
       if cont_byte (if a = 0xF0 then 0x90 else 0x80) (if a = 0xF4 then 0x8F else 0xBF) (byte_val b) \<and>
          cont_byte 0x80 0xBF (byte_val c) \<and> cont_byte 0x80 0xBF (byte_val d)
       then ((a - 0xF0) * 262144 + (byte_val b - 0x80) * 4096 + (byte_val c - 0x80) * 64 + (byte_val d - 0x80), 4)
       else (0xFFFD, 1)
   | _ \<Rightarrow> (0xFFFD, 1))"

definition decode_rune :: "char \<Rightarrow> string \<Rightarrow> nat \<times> nat" where
  "decode_rune x s =
     (let a = byte_val x in
      if a < 0x80 then (a, 1)
      else if 0xC2 \<le> a \<and> a \<le> 0xDF then rune2 a s
      else if 0xE0 \<le> a \<and> a \<le> 0xEF then rune3 a s
      else if 0xF0 \<le> a \<and> a \<le> 0xF4 then rune4 a s
      else (0xFFFD, 1))"

definition xml_char :: "nat \<Rightarrow> bool" where
  "xml_char r \<longleftrightarrow> r = 9 \<or> r = 10 \<or> r = 13 \<or> 0x20 \<le> r \<and> r \<le> 0xD7FF \<or> 0xE000 \<le> r \<and> r \<le> 0xFFFD \<or>
     0x10000 \<le> r \<and> r \<le> 0x10FFFF"

definition replacement :: string where
  "replacement = [CHR 0xEF, CHR 0xBF, CHR 0xBD]"

text \<open>The escape of a rune, when it has one.\<close>

definition entity :: "nat \<Rightarrow> string option" where
  "entity r =
     (if r = 0x22 then Some ''&#34;'' else if r = 0x27 then Some ''&#39;''
      else if r = 0x26 then Some ''&amp;'' else if r = 0x3C then Some ''&lt;''
      else if r = 0x3E then Some ''&gt;'' else if r = 9 then Some ''&#x9;''
      else if r = 10 then Some ''&#xA;'' else if r = 13 then Some ''&#xD;'' else None)"

function xmlEscape :: "string \<Rightarrow> string" where
  "xmlEscape [] = []"
| "xmlEscape (x # s) =
     (let (r, w) = decode_rune x s in
      (case entity r of
         Some e \<Rightarrow> e
       | None \<Rightarrow> if \<not> xml_char r \<or> r = 0xFFFD \<and> w = 1 then replacement else take w (x # s)) @
      xmlEscape (drop (w - 1) s))"
  by pat_completeness auto
termination
  by (relation "measure length") auto

declare xmlEscape.simps(2) [simp del]

subsection \<open>The answers\<close>

record onvif_proxy =
  pname :: string
  video :: videoProfile
  rtspURL :: string

definition serviceBase :: "string \<Rightarrow> string" where
  "serviceBase host = ''http://'' @ xmlEscape host @ ''/onvif/''"

definition getCapabilities :: "string \<Rightarrow> string" where
  "getCapabilities host =
   ''<tds:GetCapabilitiesResponse><tds:Capabilities><tt:Device><tt:XAddr>'' @ serviceBase host @
   ''device_service</tt:XAddr></tt:Device><tt:Media><tt:XAddr>'' @ serviceBase host @
   ''media_service</tt:XAddr><tt:StreamingCapabilities><tt:RTPMulticast>false</tt:RTPMulticast>'' @
   ''<tt:RTP_TCP>false</tt:RTP_TCP><tt:RTP_RTSP_TCP>true</tt:RTP_RTSP_TCP>'' @
   ''</tt:StreamingCapabilities></tt:Media><tt:PTZ><tt:XAddr>'' @ serviceBase host @
   ''ptz_service</tt:XAddr></tt:PTZ></tds:Capabilities></tds:GetCapabilitiesResponse>''"

definition getServices :: "string \<Rightarrow> string" where
  "getServices host =
   ''<tds:GetServicesResponse><tds:Service>'' @
   ''<tds:Namespace>http://www.onvif.org/ver10/device/wsdl</tds:Namespace><tds:XAddr>'' @
   serviceBase host @
   ''device_service</tds:XAddr><tds:Version><tt:Major>2</tt:Major><tt:Minor>5</tt:Minor>'' @
   ''</tds:Version></tds:Service><tds:Service>'' @
   ''<tds:Namespace>http://www.onvif.org/ver10/media/wsdl</tds:Namespace><tds:XAddr>'' @
   serviceBase host @
   ''media_service</tds:XAddr><tds:Version><tt:Major>2</tt:Major><tt:Minor>5</tt:Minor>'' @
   ''</tds:Version></tds:Service><tds:Service>'' @
   ''<tds:Namespace>http://www.onvif.org/ver20/ptz/wsdl</tds:Namespace><tds:XAddr>'' @
   serviceBase host @
   ''ptz_service</tds:XAddr><tds:Version><tt:Major>2</tt:Major><tt:Minor>5</tt:Minor>'' @
   ''</tds:Version></tds:Service></tds:GetServicesResponse>''"

definition ptzConfiguration :: "onvif_proxy \<Rightarrow> string \<Rightarrow> string" where
  "ptzConfiguration p tag =
   ''<tt:'' @ tag @ '' token=\"'' @ xmlEscape (pname p) @ ''_ptz\"><tt:Name>'' @ xmlEscape (pname p) @
   '' PTZ</tt:Name><tt:UseCount>1</tt:UseCount><tt:NodeToken>'' @ xmlEscape (pname p) @
   ''_node</tt:NodeToken>'' @
   ''<tt:DefaultRelativePanTiltTranslationSpace>http://www.onvif.org/ver10/tptz/PanTiltSpaces/Tra'' @
   ''nslationSpaceFov</tt:DefaultRelativePanTiltTranslationSpace>'' @
   ''<tt:DefaultContinuousPanTiltVelocitySpace>http://www.onvif.org/ver10/tptz/PanTiltSpaces/Velo'' @
   ''cityGenericSpace</tt:DefaultContinuousPanTiltVelocitySpace><tt:DefaultPTZSpeed>'' @
   ''<tt:PanTilt x=\"0.5\" y=\"0.5\" space=\"http://www.onvif.org/ver10/tptz/PanTiltSpaces/GenericSpee'' @
   ''dSpace\"/></tt:DefaultPTZSpeed><tt:DefaultPTZTimeout>PT5S</tt:DefaultPTZTimeout>'' @
   ''<tt:PanTiltLimits><tt:Range>'' @
   ''<tt:URI>http://www.onvif.org/ver10/tptz/PanTiltSpaces/PositionGenericSpace</tt:URI>'' @
   ''<tt:XRange><tt:Min>-1</tt:Min><tt:Max>1</tt:Max></tt:XRange><tt:YRange><tt:Min>-1</tt:Min>'' @
   ''<tt:Max>1</tt:Max></tt:YRange></tt:Range></tt:PanTiltLimits></tt:'' @ tag @ ''>''"

definition profileText :: "onvif_proxy \<Rightarrow> string \<Rightarrow> string" where
  "profileText p tag =
   ''<trt:'' @ tag @ '' token=\"'' @ xmlEscape (pname p) @ ''\" fixed=\"true\"><tt:Name>'' @
   xmlEscape (pname p) @ ''</tt:Name><tt:VideoSourceConfiguration token=\"'' @ xmlEscape (pname p) @
   ''_source\"><tt:Name>'' @ xmlEscape (pname p) @
   '' source</tt:Name><tt:UseCount>1</tt:UseCount><tt:SourceToken>'' @ xmlEscape (pname p) @
   ''_source</tt:SourceToken><tt:Bounds x=\"0\" y=\"0\" width=\"'' @ dec_int (width (video p)) @
   ''\" height=\"'' @ dec_int (height (video p)) @
   ''\"/></tt:VideoSourceConfiguration><tt:VideoEncoderConfiguration token=\"'' @ xmlEscape (pname p) @
   ''_encoder\"><tt:Name>'' @ xmlEscape (pname p) @ '' '' @ codec (video p) @
   ''</tt:Name><tt:UseCount>1</tt:UseCount><tt:Encoding>'' @ codec (video p) @
   ''</tt:Encoding><tt:Resolution><tt:Width>'' @ dec_int (width (video p)) @
   ''</tt:Width><tt:Height>'' @ dec_int (height (video p)) @
   ''</tt:Height></tt:Resolution><tt:Quality>5</tt:Quality><tt:RateControl><tt:FrameRateLimit>'' @
   dec_int (fps (video p)) @ ''</tt:FrameRateLimit><tt:EncodingInterval>1</tt:EncodingInterval>'' @
   ''<tt:BitrateLimit>4096</tt:BitrateLimit></tt:RateControl>'' @
   ''<tt:SessionTimeout>PT60S</tt:SessionTimeout></tt:VideoEncoderConfiguration>'' @
   ptzConfiguration p ''PTZConfiguration'' @ ''</trt:'' @ tag @ ''>''"

definition getProfiles :: "onvif_proxy \<Rightarrow> string" where
  "getProfiles p =
   ''<trt:GetProfilesResponse>'' @ profileText p ''Profiles'' @ ''</trt:GetProfilesResponse>''"

definition getProfile :: "onvif_proxy \<Rightarrow> string" where
  "getProfile p =
   ''<trt:GetProfileResponse>'' @ profileText p ''Profile'' @ ''</trt:GetProfileResponse>''"

definition getPTZConfiguration :: "onvif_proxy \<Rightarrow> string \<Rightarrow> string \<Rightarrow> string" where
  "getPTZConfiguration p responseTag configTag =
   ''<tptz:'' @ responseTag @ ''>'' @ ptzConfiguration p configTag @ ''</tptz:'' @ responseTag @
   ''>''"

definition getConfigurationOptions :: "string" where
  "getConfigurationOptions =
   ''<tptz:GetConfigurationOptionsResponse><tptz:PTZConfigurationOptions><tt:Spaces>'' @
   ''<tt:RelativePanTiltTranslationSpace>'' @
   ''<tt:URI>http://www.onvif.org/ver10/tptz/PanTiltSpaces/TranslationSpaceFov</tt:URI>'' @
   ''<tt:XRange><tt:Min>-1</tt:Min><tt:Max>1</tt:Max></tt:XRange><tt:YRange><tt:Min>-1</tt:Min>'' @
   ''<tt:Max>1</tt:Max></tt:YRange></tt:RelativePanTiltTranslationSpace>'' @
   ''<tt:ContinuousPanTiltVelocitySpace>'' @
   ''<tt:URI>http://www.onvif.org/ver10/tptz/PanTiltSpaces/VelocityGenericSpace</tt:URI>'' @
   ''<tt:XRange><tt:Min>-1</tt:Min><tt:Max>1</tt:Max></tt:XRange><tt:YRange><tt:Min>-1</tt:Min>'' @
   ''<tt:Max>1</tt:Max></tt:YRange></tt:ContinuousPanTiltVelocitySpace></tt:Spaces>'' @
   ''<tt:PTZTimeout><tt:Min>PT0S</tt:Min><tt:Max>PT10S</tt:Max></tt:PTZTimeout>'' @
   ''</tptz:PTZConfigurationOptions></tptz:GetConfigurationOptionsResponse>''"

definition node :: "onvif_proxy \<Rightarrow> string \<Rightarrow> string" where
  "node p tag =
   ''<tptz:'' @ tag @ '' token=\"'' @ xmlEscape (pname p) @ ''_node\"><tt:Name>'' @
   xmlEscape (pname p) @
   '' PTZ</tt:Name><tt:SupportedPTZSpaces><tt:RelativePanTiltTranslationSpace>'' @
   ''<tt:URI>http://www.onvif.org/ver10/tptz/PanTiltSpaces/TranslationSpaceFov</tt:URI>'' @
   ''<tt:XRange><tt:Min>-1</tt:Min><tt:Max>1</tt:Max></tt:XRange><tt:YRange><tt:Min>-1</tt:Min>'' @
   ''<tt:Max>1</tt:Max></tt:YRange></tt:RelativePanTiltTranslationSpace>'' @
   ''<tt:ContinuousPanTiltVelocitySpace>'' @
   ''<tt:URI>http://www.onvif.org/ver10/tptz/PanTiltSpaces/VelocityGenericSpace</tt:URI>'' @
   ''<tt:XRange><tt:Min>-1</tt:Min><tt:Max>1</tt:Max></tt:XRange><tt:YRange><tt:Min>-1</tt:Min>'' @
   ''<tt:Max>1</tt:Max></tt:YRange></tt:ContinuousPanTiltVelocitySpace></tt:SupportedPTZSpaces>'' @
   ''<tt:MaximumNumberOfPresets>16</tt:MaximumNumberOfPresets>'' @
   ''<tt:HomeSupported>false</tt:HomeSupported></tptz:'' @ tag @ ''>''"

definition getNodes :: "onvif_proxy \<Rightarrow> string" where
  "getNodes p =
   ''<tptz:GetNodesResponse>'' @ node p ''PTZNode'' @ ''</tptz:GetNodesResponse>''"

definition getNode :: "onvif_proxy \<Rightarrow> string" where
  "getNode p =
   ''<tptz:GetNodeResponse>'' @ node p ''PTZNode'' @ ''</tptz:GetNodeResponse>''"

definition getVideoSources :: "onvif_proxy \<Rightarrow> string" where
  "getVideoSources p =
   ''<trt:GetVideoSourcesResponse><trt:VideoSources token=\"'' @ xmlEscape (pname p) @
   ''_source\"><tt:Framerate>'' @ dec_int (fps (video p)) @
   ''</tt:Framerate><tt:Resolution><tt:Width>'' @ dec_int (width (video p)) @
   ''</tt:Width><tt:Height>'' @ dec_int (height (video p)) @
   ''</tt:Height></tt:Resolution></trt:VideoSources></trt:GetVideoSourcesResponse>''"

definition getStatus :: "string \<Rightarrow> string \<Rightarrow> string" where
  "getStatus moving now =
   ''<tptz:GetStatusResponse><tptz:PTZStatus><tt:Position>'' @
   ''<tt:PanTilt x=\"0\" y=\"0\" space=\"http://www.onvif.org/ver10/tptz/PanTiltSpaces/PositionGeneric'' @
   ''Space\"/></tt:Position><tt:MoveStatus><tt:PanTilt>'' @ moving @
   ''</tt:PanTilt></tt:MoveStatus><tt:UtcTime>'' @ now @
   ''</tt:UtcTime></tptz:PTZStatus></tptz:GetStatusResponse>''"

definition getDeviceInformation :: "onvif_proxy \<Rightarrow> string" where
  "getDeviceInformation p =
   ''<tds:GetDeviceInformationResponse><tds:Manufacturer>Xiaomi</tds:Manufacturer>'' @
   ''<tds:Model>go2rtc PTZ proxy</tds:Model><tds:FirmwareVersion>1</tds:FirmwareVersion>'' @
   ''<tds:SerialNumber>'' @ xmlEscape (pname p) @
   ''</tds:SerialNumber><tds:HardwareId>xiaomi</tds:HardwareId>'' @
   ''</tds:GetDeviceInformationResponse>''"

definition getStreamUri :: "onvif_proxy \<Rightarrow> string" where
  "getStreamUri p =
   ''<trt:GetStreamUriResponse><trt:MediaUri><tt:Uri>'' @ xmlEscape (rtspURL p) @
   ''</tt:Uri><tt:InvalidAfterConnect>false</tt:InvalidAfterConnect>'' @
   ''<tt:InvalidAfterReboot>false</tt:InvalidAfterReboot><tt:Timeout>PT0S</tt:Timeout>'' @
   ''</trt:MediaUri></trt:GetStreamUriResponse>''"

definition presetText :: "string \<times> string \<Rightarrow> string" where
  "presetText item =
   ''<tptz:Preset token=\"'' @ xmlEscape (fst item) @ ''\"><tt:Name>'' @ xmlEscape (snd item) @
   ''</tt:Name><tt:PTZPosition><tt:PanTilt x=\"0\" y=\"0\"/></tt:PTZPosition></tptz:Preset>''"

definition systemDateAndTime :: "int \<Rightarrow> int \<Rightarrow> int \<Rightarrow> int \<Rightarrow> int \<Rightarrow> int \<Rightarrow> string" where
  "systemDateAndTime hour minute second year month day =
   ''<tds:GetSystemDateAndTimeResponse><tds:SystemDateAndTime>'' @
   ''<tt:DateTimeType>NTP</tt:DateTimeType><tt:DaylightSavings>false</tt:DaylightSavings>'' @
   ''<tt:UTCDateTime><tt:Time><tt:Hour>'' @ dec_int hour @ ''</tt:Hour><tt:Minute>'' @ dec_int minute @
   ''</tt:Minute><tt:Second>'' @ dec_int second @ ''</tt:Second></tt:Time><tt:Date><tt:Year>'' @
   dec_int year @ ''</tt:Year><tt:Month>'' @ dec_int month @ ''</tt:Month><tt:Day>'' @ dec_int day @
   ''</tt:Day></tt:Date></tt:UTCDateTime></tds:SystemDateAndTime>'' @
   ''</tds:GetSystemDateAndTimeResponse>''"

definition getNetworkInterfaces :: "string \<Rightarrow> string" where
  "getNetworkInterfaces mac =
   ''<tds:GetNetworkInterfacesResponse><tds:NetworkInterfaces token=\"onvif0\">'' @
   ''<tt:Enabled>true</tt:Enabled><tt:Info><tt:Name>onvif0</tt:Name><tt:HwAddress>'' @ mac @
   ''</tt:HwAddress></tt:Info></tds:NetworkInterfaces></tds:GetNetworkInterfacesResponse>''"

definition deviceCapabilities :: "string" where
  "deviceCapabilities =
   ''<tds:GetServiceCapabilitiesResponse><tds:Capabilities>'' @
   ''<tds:Network IPFilter=\"false\" ZeroConfiguration=\"false\" IPVersion6=\"false\" DynDNS=\"false\"/>'' @
   ''<tds:Security UsernameToken=\"false\" HttpDigest=\"false\"/>'' @
   ''<tds:System DiscoveryResolve=\"false\" DiscoveryBye=\"false\" RemoteDiscovery=\"false\" SystemBack'' @
   ''up=\"false\" SystemLogging=\"false\" FirmwareUpgrade=\"false\"/></tds:Capabilities>'' @
   ''</tds:GetServiceCapabilitiesResponse>''"

definition mediaCapabilities :: "string" where
  "mediaCapabilities =
   ''<trt:GetServiceCapabilitiesResponse>'' @
   ''<trt:Capabilities SnapshotUri=\"false\" Rotation=\"false\" VideoSourceMode=\"false\" OSD=\"false\">'' @
   ''<trt:ProfileCapabilities MaximumNumberOfProfiles=\"1\"/>'' @
   ''<trt:StreamingCapabilities RTPMulticast=\"false\" RTP_TCP=\"false\" RTP_RTSP_TCP=\"true\"/>'' @
   ''</trt:Capabilities></trt:GetServiceCapabilitiesResponse>''"

definition ptzCapabilities :: "string" where
  "ptzCapabilities =
   ''<tptz:GetServiceCapabilitiesResponse>'' @
   ''<tptz:Capabilities EFlip=\"false\" Reverse=\"false\" GetCompatibleConfigurations=\"false\" MoveSta'' @
   ''tus=\"true\" StatusPosition=\"false\"/></tptz:GetServiceCapabilitiesResponse>''"

definition soapFault :: "string \<Rightarrow> string \<Rightarrow> string" where
  "soapFault code reason =
   ''<s:Fault><s:Code><s:Value>s:Sender</s:Value><s:Subcode><s:Value>'' @ xmlEscape code @
   ''</s:Value></s:Subcode></s:Code><s:Reason><s:Text xml:lang=\"en\">'' @ xmlEscape reason @
   ''</s:Text></s:Reason></s:Fault>''"

definition envelope :: "string \<Rightarrow> string" where
  "envelope body =
   ''<?xml version=\"1.0\" encoding=\"UTF-8\"?>'' @
   ''<s:Envelope xmlns:s=\"http://www.w3.org/2003/05/soap-envelope\" xmlns:tds=\"http://www.onvif.or'' @
   ''g/ver10/device/wsdl\" xmlns:trt=\"http://www.onvif.org/ver10/media/wsdl\" xmlns:tptz=\"http://ww'' @
   ''w.onvif.org/ver20/ptz/wsdl\" xmlns:tt=\"http://www.onvif.org/ver10/schema\" xmlns:ter=\"http://w'' @
   ''ww.onvif.org/ver10/error\"><s:Body>'' @ body @ ''</s:Body></s:Envelope>''"

definition getPresetsText :: "(string \<times> string) list \<Rightarrow> string" where
  "getPresetsText items =
   ''<tptz:GetPresetsResponse>'' @ concat (map presetText items) @ ''</tptz:GetPresetsResponse>''"

text \<open>\<open>serviceCapabilities\<close>: by the namespace of the operation, or by the path when it has none.\<close>

definition deviceNamespace :: string where
  "deviceNamespace = ''http://www.onvif.org/ver10/device/wsdl''"

definition mediaNamespace :: string where
  "mediaNamespace = ''http://www.onvif.org/ver10/media/wsdl''"

definition ptzNamespace :: string where
  "ptzNamespace = ''http://www.onvif.org/ver20/ptz/wsdl''"

definition serviceCapabilities :: "string \<Rightarrow> string \<Rightarrow> string option" where
  "serviceCapabilities namespace path =
     (let ns = (if namespace = [] then
                  (let t = trim_right_char CHR ''/'' path in
                   if t = ''/onvif/device_service'' then deviceNamespace
                   else if t = ''/onvif/media_service'' then mediaNamespace else ptzNamespace)
                else namespace)
      in if ns = deviceNamespace then Some deviceCapabilities
         else if ns = mediaNamespace then Some mediaCapabilities
         else if ns = ptzNamespace then Some ptzCapabilities
         else None)"

text \<open>
  \<open>virtualMAC\<close> with the hash as a parameter: six bytes of the digest, locally administered, unicast.
\<close>

definition virtualMAC :: "(string \<Rightarrow> u8 list) \<Rightarrow> onvif_proxy \<Rightarrow> u8 list" where
  "virtualMAC sha256 p =
     (let digest = sha256 (''xiaomi-onvif:'' @ pname p)
      in take 6 (digest[0 := (digest ! 0 OR 2) AND 0xFE]))"

subsection \<open>Escaping is safe and can be undone\<close>

definition markup_char :: "char \<Rightarrow> bool" where
  "markup_char c \<longleftrightarrow> c \<in> {CHR ''<'', CHR ''>'', CHR 0x22, CHR 0x27}"

definition markup :: "string \<Rightarrow> string" where
  "markup s = filter markup_char s"

lemma markup_append [simp]: "markup (s @ t) = markup s @ markup t"
  by (simp add: markup_def)

lemma byte_val_inject: "byte_val c = byte_val d \<longleftrightarrow> c = d"
  by (metis char_of_byte_val)

lemma byte_val_literals:
  "byte_val CHR ''<'' = 0x3C" "byte_val CHR ''>'' = 0x3E" "byte_val CHR 0x22 = 0x22" "byte_val CHR 0x27 = 0x27"
  "byte_val CHR ''&'' = 0x26" "byte_val CHR 0x09 = 9" "byte_val CHR 0x0A = 10" "byte_val CHR 0x0D = 13"
  by (simp_all add: byte_val_def)

lemma char_of_literals:
  "char_of (0x3C :: nat) = CHR ''<''" "char_of (0x3E :: nat) = CHR ''>''" "char_of (0x22 :: nat) = CHR 0x22"
  "char_of (0x27 :: nat) = CHR 0x27" "char_of (0x26 :: nat) = CHR ''&''" "char_of (9 :: nat) = CHR 0x09"
  "char_of (10 :: nat) = CHR 0x0A" "char_of (13 :: nat) = CHR 0x0D"
  by (simp_all only: byte_val_literals [symmetric] char_of_byte_val)

lemma markup_char_val: "markup_char c \<longleftrightarrow> byte_val c \<in> {0x3C, 0x3E, 0x22, 0x27}"
  using byte_val_inject [of c "CHR ''<''"] byte_val_inject [of c "CHR ''>''"] byte_val_inject [of c "CHR 0x22"]
    byte_val_inject [of c "CHR 0x27"]
  by (simp add: markup_char_def byte_val_literals)

definition high :: "char \<Rightarrow> bool" where
  "high c \<longleftrightarrow> 0x80 \<le> byte_val c"

lemma high_not_markup: "high c \<Longrightarrow> \<not> markup_char c" "high c \<Longrightarrow> c \<noteq> CHR ''&''"
proof -
  show "high c \<Longrightarrow> \<not> markup_char c" by (auto simp: high_def markup_char_val)
  have "byte_val CHR ''&'' = 38" by (simp add: byte_val_def)
  then show "high c \<Longrightarrow> c \<noteq> CHR ''&''" by (auto simp: high_def)
qed

lemma rune2_cases:
  assumes "rune2 a s = (r, w)" "0xC2 \<le> a" "a \<le> 0xDF"
  shows "r = 0xFFFD \<and> w = 1 \<or> 0x80 \<le> r \<and> w = 2 \<and> (\<exists>b t. s = b # t \<and> high b)"
  using assms by (cases s) (auto simp: rune2_def cont_byte_def high_def split: if_splits)

lemma rune3_cases:
  assumes "rune3 a s = (r, w)" "0xE0 \<le> a" "a \<le> 0xEF"
  shows "r = 0xFFFD \<and> w = 1 \<or> 0x80 \<le> r \<and> w = 3 \<and> (\<exists>b c t. s = b # c # t \<and> high b \<and> high c)"
proof (cases "\<exists>b c t. s = b # c # t")
  case True
  then obtain b c t where s: "s = b # c # t" by blast
  show ?thesis
  proof (cases "r = 0xFFFD \<and> w = 1")
    case False
    with assms s have b: "0x80 \<le> byte_val b" "a = 0xE0 \<longrightarrow> 0xA0 \<le> byte_val b" "0x80 \<le> byte_val c" "w = 3"
      and r: "r = (a - 0xE0) * 4096 + (byte_val b - 0x80) * 64 + (byte_val c - 0x80)"
      by (auto simp: rune3_def cont_byte_def split: if_splits)
    have "0x80 \<le> r" using b(2) assms(2) r by (cases "a = 0xE0") auto
    with b s show ?thesis by (auto simp: high_def)
  qed simp
next
  case False
  with assms(1) show ?thesis by (auto simp: rune3_def split: list.splits)
qed

lemma rune4_cases:
  assumes "rune4 a s = (r, w)" "0xF0 \<le> a" "a \<le> 0xF4"
  shows "r = 0xFFFD \<and> w = 1 \<or> 0x80 \<le> r \<and> w = 4 \<and> (\<exists>b c d t. s = b # c # d # t \<and> high b \<and> high c \<and> high d)"
proof (cases "\<exists>b c d t. s = b # c # d # t")
  case True
  then obtain b c d t where s: "s = b # c # d # t" by blast
  show ?thesis
  proof (cases "r = 0xFFFD \<and> w = 1")
    case False
    with assms s have b: "0x80 \<le> byte_val b" "a = 0xF0 \<longrightarrow> 0x90 \<le> byte_val b" "0x80 \<le> byte_val c"
        "0x80 \<le> byte_val d" "w = 4"
      and r: "r = (a - 0xF0) * 262144 + (byte_val b - 0x80) * 4096 + (byte_val c - 0x80) * 64 + (byte_val d - 0x80)"
      by (auto simp: rune4_def cont_byte_def split: if_splits)
    have "0x80 \<le> r" using b(2) assms(2) r by (cases "a = 0xF0") auto
    with b s show ?thesis by (auto simp: high_def)
  qed simp
next
  case False
  with assms(1) show ?thesis by (auto simp: rune4_def split: list.splits)
qed

lemma decode_rune_cases:
  assumes "decode_rune x s = (r, w)"
  obtains (ascii) "byte_val x < 0x80" "r = byte_val x" "w = 1"
    | (bad) "high x" "r = 0xFFFD" "w = 1"
    | (multi) k where "high x" "0x80 \<le> r" "w = Suc k" "0 < k" "k \<le> length s" "list_all high (take k s)"
proof -
  note d = assms [unfolded decode_rune_def Let_def]
  consider "byte_val x < 0x80" | "high x" "0xC2 \<le> byte_val x" "byte_val x \<le> 0xDF"
    | "high x" "0xE0 \<le> byte_val x" "byte_val x \<le> 0xEF" | "high x" "0xF0 \<le> byte_val x" "byte_val x \<le> 0xF4"
    | "high x" "r = 0xFFFD" "w = 1"
    using d by (auto simp: high_def split: if_splits)
  then show thesis
  proof cases
    case 1
    with d show ?thesis by (intro ascii) auto
  next
    case 2
    with d have "rune2 (byte_val x) s = (r, w)" by simp
    from rune2_cases [OF this 2(2,3)] 2(1) show ?thesis by (auto intro: bad multi [of 1])
  next
    case 3
    with d have "rune3 (byte_val x) s = (r, w)" by simp
    from rune3_cases [OF this 3(2,3)] 3(1) show ?thesis by (auto intro: bad multi [of 2])
  next
    case 4
    with d have "rune4 (byte_val x) s = (r, w)" by simp
    from rune4_cases [OF this 4(2,3)] 4(1) show ?thesis by (auto intro: bad multi [of 3])
  qed (rule bad)
qed

text \<open>The escape of one rune, and the rest.\<close>

definition escape_rune :: "nat \<Rightarrow> nat \<Rightarrow> string \<Rightarrow> string" where
  "escape_rune r w s =
     (case entity r of
        Some e \<Rightarrow> e
      | None \<Rightarrow> if \<not> xml_char r \<or> r = 0xFFFD \<and> w = 1 then replacement else take w s)"

lemma xmlEscape_Cons:
  "decode_rune x s = (r, w) \<Longrightarrow> xmlEscape (x # s) = escape_rune r w (x # s) @ xmlEscape (drop (w - 1) s)"
  by (simp add: xmlEscape.simps(2) escape_rune_def)

lemma entity_high: "0x80 \<le> r \<Longrightarrow> entity r = None"
  by (simp add: entity_def)

lemma markup_entity: "entity r = Some e \<Longrightarrow> markup e = []"
  by (auto simp: entity_def markup_def markup_char_def split: if_splits)

lemma markup_high: "list_all high s \<Longrightarrow> markup s = []"
  by (induction s) (auto simp: markup_def high_not_markup)

lemma markup_escape_rune: "decode_rune x s = (r, w) \<Longrightarrow> markup (escape_rune r w (x # s)) = []"
proof (erule decode_rune_cases)
  assume a: "byte_val x < 0x80" "r = byte_val x" "w = 1"
  show ?thesis
  proof (cases "entity r")
    case None
    with a have "\<not> markup_char x" by (auto simp: markup_char_val entity_def split: if_splits)
    with None a show ?thesis by (simp add: escape_rune_def markup_def replacement_def markup_char_def)
  qed (simp add: escape_rune_def markup_entity)
next
  assume "high x" "r = 0xFFFD" "w = 1"
  then show ?thesis by (simp add: escape_rune_def entity_high markup_def replacement_def markup_char_def)
next
  fix k assume "high x" "0x80 \<le> r" "w = Suc k" "list_all high (take k s)"
  then show ?thesis using markup_high [of "x # take k s"]
    by (simp add: escape_rune_def entity_high) (simp add: markup_def replacement_def markup_char_def)
qed

lemma markup_xmlEscape [simp]: "markup (xmlEscape s) = []"
proof (induction s rule: xmlEscape.induct)
  case (2 x s)
  obtain r w where d: "decode_rune x s = (r, w)" by (cases "decode_rune x s")
  with 2 show ?case by (simp add: xmlEscape_Cons markup_escape_rune)
qed (simp add: markup_def)

definition entities :: "(string \<times> char) list" where
  "entities = [(''&#34;'', CHR 0x22), (''&#39;'', CHR 0x27), (''&amp;'', CHR ''&''), (''&lt;'', CHR ''<''),
     (''&gt;'', CHR ''>''), (''&#x9;'', CHR 0x09), (''&#xA;'', CHR 0x0A), (''&#xD;'', CHR 0x0D)]"

function xmlUnescape :: "string \<Rightarrow> string" where
  "xmlUnescape [] = []"
| "xmlUnescape (c # s) =
     (if c = CHR ''&'' then
        (case find (\<lambda>(e, _). has_prefix (c # s) e) entities of
           Some (e, x) \<Rightarrow> x # xmlUnescape (drop (length e - 1) s)
         | None \<Rightarrow> c # xmlUnescape s)
      else c # xmlUnescape s)"
  by pat_completeness auto
termination
  by (relation "measure length") auto

declare xmlUnescape.simps(2) [simp del]

lemma xmlUnescape_plain: "c \<noteq> CHR ''&'' \<Longrightarrow> xmlUnescape (c # s) = c # xmlUnescape s"
  by (simp add: xmlUnescape.simps(2))

lemma xmlUnescape_high: "list_all high s \<Longrightarrow> xmlUnescape (s @ t) = s @ xmlUnescape t"
  by (induction s) (auto simp: xmlUnescape_plain high_not_markup)

lemma xmlUnescape_entity: "entity r = Some e \<Longrightarrow> r < 256 \<Longrightarrow> xmlUnescape (e @ s) = char_of r # xmlUnescape s"
  by (auto simp: entity_def xmlUnescape.simps(2) entities_def has_prefix_def char_of_literals split: if_splits)

function valid_text :: "string \<Rightarrow> bool" where
  "valid_text [] = True"
| "valid_text (x # s) =
     (let (r, w) = decode_rune x s in
      xml_char r \<and> \<not> (r = 0xFFFD \<and> w = 1) \<and> valid_text (drop (w - 1) s))"
  by pat_completeness auto
termination
  by (relation "measure length") auto

declare valid_text.simps(2) [simp del]

lemma xmlUnescape_escape: "valid_text s \<Longrightarrow> xmlUnescape (xmlEscape s) = s"
proof (induction s rule: xmlEscape.induct)
  case (2 x s)
  obtain r w where d: "decode_rune x s = (r, w)" by (cases "decode_rune x s")
  with 2 have v: "xml_char r" "\<not> (r = 0xFFFD \<and> w = 1)" "xmlUnescape (xmlEscape (drop (w - 1) s)) = drop (w - 1) s"
    by (simp_all add: valid_text.simps(2))
  from d show ?case
  proof (cases rule: decode_rune_cases)
    case ascii
    show ?thesis
    proof (cases "entity r")
      case None
      have "byte_val CHR ''&'' = 0x26" by (simp add: byte_val_def)
      with ascii None have "x \<noteq> CHR ''&''" by (auto simp: entity_def)
      with ascii None v d show ?thesis by (simp add: xmlEscape_Cons escape_rune_def xmlUnescape_plain)
    next
      case (Some e)
      with ascii v d xmlUnescape_entity [OF Some, of "xmlEscape s"] show ?thesis
        by (simp add: xmlEscape_Cons escape_rune_def)
    qed
  next
    case bad
    with v show ?thesis by simp
  next
    case (multi k)
    have "escape_rune r w (x # s) = x # take k s" using multi v by (auto simp: escape_rune_def entity_high)
    moreover have "xmlUnescape ((x # take k s) @ t) = (x # take k s) @ xmlUnescape t" for t
      using multi by (intro xmlUnescape_high) simp
    ultimately show ?thesis using d v(3) multi by (simp add: xmlEscape_Cons)
  qed
qed simp

lemma markup_digit: "d < 10 \<Longrightarrow> \<not> markup_char (digit_char d)"
  by (auto simp: markup_char_val digit_char_def byte_val_def)

lemma markup_dec_nat: "markup (dec_nat n) = []"
proof (induction n rule: dec_nat.induct)
  case (1 n)
  then show ?case
    by (subst dec_nat.simps) (auto simp: markup_digit markup_def)
qed

lemma markup_dec_int [simp]: "markup (dec_int i) = []"
  using markup_dec_nat by (simp add: dec_int_def markup_def markup_char_def)

lemma markup_codec: "valid_profile v \<Longrightarrow> markup (codec v) = []"
  by (auto simp: valid_profile_def markup_def markup_char_def)

lemmas answer_defs = getProfiles_def getProfile_def profileText_def ptzConfiguration_def getPTZConfiguration_def
  getNodes_def getNode_def node_def getVideoSources_def getDeviceInformation_def getStreamUri_def
  getCapabilities_def getServices_def serviceBase_def soapFault_def envelope_def

lemma markup_presetText: "markup (presetText i) = markup (presetText j)"
  by (simp only: presetText_def markup_append markup_xmlEscape)

lemma markup_presets: "length xs = length ys \<Longrightarrow>
    markup (concat (map presetText xs)) = markup (concat (map presetText ys))"
proof (induction xs ys rule: list_induct2)
  case (Cons x xs y ys)
  then show ?case using markup_presetText [of x y] by simp
qed simp

subsection \<open>Properties\<close>

text \<open>
  Escaping loses nothing and lets no markup through: the escape of any text, valid UTF-8
  or not, has none of the characters that open or close a tag or an attribute, and undoing the
  entities gives the text back when it is valid UTF-8 of XML characters.
\<close>

lemma onvif_escape_roundtrip:
  "filter (\<lambda>c. c \<in> {CHR ''<'', CHR ''>'', CHR 0x22, CHR 0x27}) (xmlEscape s) = [] \<and>
   (valid_text s \<longrightarrow> xmlUnescape (xmlEscape s) = s)"
  using markup_xmlEscape [of s] xmlUnescape_escape [of s]
  by (simp add: markup_def markup_char_def [abs_def])

text \<open>
  Claim C11. Nobody injects markup into an answer: whatever the name of the camera, the address of
  its stream, the host of the request, the reason of a fault and the tokens and names of the
  presets are, the tags, attributes and quotes of the answers stay those of the templates. Two
  proxies with valid profiles answer with the same markup, and a list of presets only depends on
  its length.
\<close>

theorem onvif_no_injection:
  assumes "valid_profile (video p)" "valid_profile (video q)" "length xs = length ys"
  shows "markup (envelope (getProfiles p)) = markup (envelope (getProfiles q)) \<and>
    markup (envelope (getNodes p)) = markup (envelope (getNodes q)) \<and>
    markup (envelope (getVideoSources p)) = markup (envelope (getVideoSources q)) \<and>
    markup (envelope (getDeviceInformation p)) = markup (envelope (getDeviceInformation q)) \<and>
    markup (envelope (getStreamUri p)) = markup (envelope (getStreamUri q)) \<and>
    markup (envelope (getCapabilities host)) = markup (envelope (getCapabilities host')) \<and>
    markup (envelope (getServices host)) = markup (envelope (getServices host')) \<and>
    markup (envelope (soapFault code reason)) = markup (envelope (soapFault code' reason')) \<and>
    markup (envelope (getPresetsText xs)) = markup (envelope (getPresetsText ys))"
  using markup_codec [OF assms(1)] markup_codec [OF assms(2)] markup_presets [OF assms(3)]
  by (simp only: answer_defs getPresetsText_def markup_append markup_xmlEscape markup_dec_int simp_thms)

theorem onvif_no_injection_witness:
  "valid_profile \<lparr>width = 1, height = 1, fps = 1, codec = ''H264''\<rparr> \<and>
   markup (envelope (getPresetsText [(''1'', ''<x>'')])) = markup (envelope (getPresetsText [(''1'', ''Door'')]))"
proof -
  let ?p = "\<lparr>pname = ''<evil/>'', video = \<lparr>width = 1, height = 1, fps = 1, codec = ''H264''\<rparr>, rtspURL = ''x''\<rparr>"
  have v: "valid_profile (video ?p)" by (simp add: valid_profile_def)
  from onvif_no_injection [OF v v, of "[(''1'', ''<x>'')]" "[(''1'', ''Door'')]"] v show ?thesis by simp
qed

end
