(* ===== verification/Onvif.thy ===== *)
theory Onvif
  imports OnvifXml Complex_Main
begin

section \<open>The requests of the ONVIF bridge\<close>

text \<open>
  Models the request side of \<open>cmd/xiaomi-onvif/main.go\<close>: reading the operation, the coordinates and
  the preset token from the SOAP body, the direction of a movement, the timed segments of a relative
  movement, the query that \<open>sendPTZ\<close> makes, and the dispatch of \<open>proxy.ServeHTTP\<close>.

  The XML decoder is a parameter: a body is given as its tokens up to the first error, with the
  error. A 64-bit float is not-a-number, an infinity, or the rational it stands for;
  \<open>strconv.ParseFloat\<close> gives a float and whether there was no error. Comparisons are those of IEEE 754
  (the literals 0.02 and 0.001 separate the floats as the rationals do). The product of a float with
  a duration, rounded and converted to nanoseconds, is a parameter.
\<close>

subsection \<open>Floats and tokens\<close>

datatype flt = NaN | PosInf | NegInf | Fin rat

fun flt_abs :: "flt \<Rightarrow> flt" where
  "flt_abs NaN = NaN"
| "flt_abs PosInf = PosInf"
| "flt_abs NegInf = PosInf"
| "flt_abs (Fin q) = Fin \<bar>q\<bar>"

fun flt_less :: "flt \<Rightarrow> flt \<Rightarrow> bool" where
  "flt_less (Fin p) (Fin q) = (p < q)"
| "flt_less (Fin p) PosInf = True"
| "flt_less NegInf (Fin q) = True"
| "flt_less NegInf PosInf = True"
| "flt_less _ _ = False"

definition flt_le :: "flt \<Rightarrow> flt \<Rightarrow> bool" where
  "flt_le a b \<longleftrightarrow> flt_less a b \<or> a = b \<and> a \<noteq> NaN"

datatype xml_token = StartElement "string \<times> string" "(string \<times> string) list" | EndElement string
  | CharData string | OtherToken

text \<open>A body: the tokens, and the error after them; \<open>None\<close> is the end of the text.\<close>

type_synonym xml_body = "xml_token list \<times> string option"

subsection \<open>The operation, the coordinates, the token\<close>

fun operationLoop :: "bool \<Rightarrow> xml_token list \<Rightarrow> (string \<times> string) option" where
  "operationLoop inBody [] = None"
| "operationLoop inBody (StartElement n attrs # ts) =
     (if snd n = ''Body'' then operationLoop True ts
      else if inBody then Some n else operationLoop inBody ts)"
| "operationLoop inBody (EndElement l # ts) = operationLoop (inBody \<and> l \<noteq> ''Body'') ts"
| "operationLoop inBody (_ # ts) = operationLoop inBody ts"

definition requestOperation :: "xml_body \<Rightarrow> string + string \<times> string" where
  "requestOperation b =
     (case operationLoop False (fst b) of
        Some n \<Rightarrow> Inr n
      | None \<Rightarrow>
          (case snd b of
             Some e \<Rightarrow> Inl (''invalid SOAP XML: '' @ e)
           | None \<Rightarrow> Inl ''SOAP body has no operation''))"

text \<open>The tokens from the first start of an element of that local name on.\<close>

fun findStart :: "string \<Rightarrow> xml_token list \<Rightarrow> ((string \<times> string) list \<times> xml_token list) option" where
  "findStart l [] = None"
| "findStart l (StartElement n attrs # ts) = (if snd n = l then Some (attrs, ts) else findStart l ts)"
| "findStart l (_ # ts) = findStart l ts"

text \<open>The loop over the attributes: the coordinates and whether each was read.\<close>

fun panTiltAttrs :: "(string \<Rightarrow> flt \<times> bool) \<Rightarrow> (string \<times> string) list \<Rightarrow> (flt \<times> bool) \<times> (flt \<times> bool) \<Rightarrow>
    (flt \<times> bool) \<times> (flt \<times> bool)" where
  "panTiltAttrs pf [] s = s"
| "panTiltAttrs pf ((k, v) # as) (x, y) =
     panTiltAttrs pf as (if k = ''x'' then (pf v, y) else if k = ''y'' then (x, pf v) else (x, y))"

definition panTilt :: "(string \<Rightarrow> flt \<times> bool) \<Rightarrow> xml_body \<Rightarrow> string + flt \<times> flt" where
  "panTilt pf b =
     (case findStart ''PanTilt'' (fst b) of
        Some (attrs, _) \<Rightarrow>
          (case panTiltAttrs pf attrs ((Fin 0, False), (Fin 0, False)) of
             ((x, hasX), (y, hasY)) \<Rightarrow>
               if \<not> hasX \<and> \<not> hasY then Inl ''request has no PanTilt coordinates'' else Inr (x, y))
      | None \<Rightarrow>
          (case snd b of Some e \<Rightarrow> Inl e | None \<Rightarrow> Inl ''request has no PanTilt coordinates''))"

text \<open>\<open>DecodeElement\<close> into a string: the text of the element itself, up to its end.\<close>

fun elementText :: "nat \<Rightarrow> xml_token list \<Rightarrow> string option" where
  "elementText d [] = None"
| "elementText d (StartElement n attrs # ts) = elementText (Suc d) ts"
| "elementText 0 (EndElement l # ts) = Some []"
| "elementText (Suc d) (EndElement l # ts) = elementText d ts"
| "elementText d (CharData s # ts) =
     map_option (\<lambda>r. if d = 0 then s @ r else r) (elementText d ts)"
| "elementText d (OtherToken # ts) = elementText d ts"

definition body_error :: "xml_body \<Rightarrow> string" where
  "body_error b = (case snd b of Some e \<Rightarrow> e | None \<Rightarrow> ''EOF'')"

definition presetToken :: "xml_body \<Rightarrow> string + string" where
  "presetToken b =
     (case findStart ''PresetToken'' (fst b) of
        Some (_, ts) \<Rightarrow>
          (case elementText 0 ts of
             None \<Rightarrow> Inl (body_error b)
           | Some t \<Rightarrow> let v = trim_space t in if v = [] then Inl ''PresetToken is empty'' else Inr v)
      | None \<Rightarrow> (case snd b of Some e \<Rightarrow> Inl e | None \<Rightarrow> Inl ''GotoPreset has no PresetToken''))"

subsection \<open>Directions and segments\<close>

definition coordDirection :: "flt \<Rightarrow> flt \<Rightarrow> string" where
  "coordDirection x y =
     (if flt_less (flt_abs x) (Fin (1 / 1000)) \<and> flt_less (flt_abs y) (Fin (1 / 1000)) then ''stop''
      else if flt_le (flt_abs y) (flt_abs x) then (if flt_less x (Fin 0) then ''left'' else ''right'')
      else if flt_less (Fin 0) y then ''up'' else ''down'')"

definition movementDirection :: "(string \<Rightarrow> flt \<times> bool) \<Rightarrow> xml_body \<Rightarrow> string + string" where
  "movementDirection pf b =
     (case panTilt pf b of Inl e \<Rightarrow> Inl e | Inr (x, y) \<Rightarrow> Inr (coordDirection x y))"

definition relativeDeadband :: flt where
  "relativeDeadband = Fin (2 / 100)"

definition millisecond :: int where
  "millisecond = 1000000"

definition segmentDuration :: int where
  "segmentDuration = 150 * millisecond"

text \<open>The durations of a full field of view, in nanoseconds, and the product with a coordinate.\<close>

record onvif_speed =
  panDurationPerFOV :: int
  tiltDurationPerFOV :: int
  scaled :: "flt \<Rightarrow> int \<Rightarrow> int"

definition axisSegment :: "onvif_speed \<Rightarrow> int \<Rightarrow> string \<Rightarrow> string \<Rightarrow> flt \<Rightarrow> (string \<times> int) list" where
  "axisSegment sp per negative positive v =
     (if flt_le relativeDeadband (flt_abs v) then
        (let d = scaled sp (flt_abs v) per in
         [(if flt_less v (Fin 0) then negative else positive, if d < millisecond then millisecond else d)])
      else [])"

definition relativeSegments :: "onvif_speed \<Rightarrow> flt \<Rightarrow> flt \<Rightarrow> (string \<times> int) list" where
  "relativeSegments sp x y =
     axisSegment sp (panDurationPerFOV sp) ''left'' ''right'' x @
     axisSegment sp (tiltDurationPerFOV sp) ''down'' ''up'' y"

text \<open>\<open>runRelativeMove\<close>: the segments that are sent, up to the first that fails.\<close>

fun sendSegments :: "(string \<times> int) list \<Rightarrow> bool list \<Rightarrow> (string \<times> int) list \<times> bool" where
  "sendSegments (s # ss) (ok # oks) =
     (if ok then (let (sent, r) = sendSegments ss oks in (s # sent, r)) else ([s], False))"
| "sendSegments _ _ = ([], True)"

definition runRelativeMove :: "onvif_speed \<Rightarrow> flt \<Rightarrow> flt \<Rightarrow> bool list \<Rightarrow> (string \<times> int) list \<times> bool" where
  "runRelativeMove sp x y oks = sendSegments (relativeSegments sp x y) oks"

text \<open>The query of \<open>sendPTZ\<close>, on the query of the configured address.\<close>

definition sendQuery :: "query \<Rightarrow> string \<Rightarrow> string \<Rightarrow> int \<Rightarrow> query" where
  "sendQuery base name direction duration =
     (let q = query_set ''direction'' direction (query_set ''src'' name base) in
      if 0 < duration then query_set ''duration'' (dec_int (duration div millisecond)) q else q)"

subsection \<open>The dispatch\<close>

text \<open>
  What the handler asks the rest of the proxy to do. The world answers with the presets of go2rtc or
  the error, the errors of \<open>gotoPreset\<close> and \<open>stopMove\<close>, the status of the movement, the time and the
  hardware address.
\<close>

datatype onvif_effect = StartMove string | StartRelative flt flt | GotoPreset string | StopMove | AskPresets

record onvif_world =
  w_presets :: "string + (string \<times> string) list"
  goto_error :: "string option"
  stop_error :: "string option"
  move_status :: string
  utc_now :: string
  date_time :: string
  hw_address :: string

datatype onvif_reply = Health string | PageNotFound | BadRequest string | Soap string | SoapFault string

record onvif_request =
  http_method :: string
  path :: string
  host :: string
  forwarded_host :: string
  body :: "string + xml_body"

definition fault :: "string \<Rightarrow> string \<Rightarrow> onvif_reply" where
  "fault code reason = SoapFault (envelope (soapFault code reason))"

definition pureAnswer :: "onvif_proxy \<Rightarrow> onvif_world \<Rightarrow> string \<Rightarrow> string \<Rightarrow> string option" where
  "pureAnswer p w h = map_of
     [(''GetCapabilities'', getCapabilities h),
      (''GetServices'', getServices h),
      (''GetDeviceInformation'', getDeviceInformation p),
      (''GetSystemDateAndTime'', date_time w),
      (''GetNetworkInterfaces'', getNetworkInterfaces (hw_address w)),
      (''GetProfiles'', getProfiles p),
      (''GetProfile'', getProfile p),
      (''GetVideoSources'', getVideoSources p),
      (''GetStreamUri'', getStreamUri p),
      (''GetConfiguration'', getPTZConfiguration p ''GetConfigurationResponse'' ''PTZConfiguration''),
      (''GetConfigurations'', getPTZConfiguration p ''GetConfigurationsResponse'' ''PTZConfiguration''),
      (''GetConfigurationOptions'', getConfigurationOptions),
      (''GetNodes'', getNodes p),
      (''GetNode'', getNode p),
      (''GetStatus'', getStatus (move_status w) (utc_now w))]"

definition presetLocation :: "string \<Rightarrow> int option" where
  "presetLocation token =
     (case atoi token of
        None \<Rightarrow> None
      | Some l \<Rightarrow> if l < 0 \<or> l > 64 \<or> dec_int l \<noteq> token then None else Some l)"

definition operationReply :: "(string \<Rightarrow> flt \<times> bool) \<Rightarrow> onvif_proxy \<Rightarrow> onvif_world \<Rightarrow> string \<Rightarrow> string \<Rightarrow>
    string \<times> string \<Rightarrow> xml_body \<Rightarrow> onvif_reply \<times> onvif_effect list" where
  "operationReply pf p w h path0 oper b =
     (let (ns, action) = oper in
      case pureAnswer p w h action of
        Some r \<Rightarrow> (Soap (envelope r), [])
      | None \<Rightarrow>
      if action = ''GetPresets'' then
        (case w_presets w of
           Inl e \<Rightarrow> (fault ''ter:Action'' e, [AskPresets])
         | Inr ps \<Rightarrow> (Soap (envelope (getPresetsText ps)), [AskPresets]))
      else if action = ''GetServiceCapabilities'' then
        (case serviceCapabilities ns path0 of
           Some r \<Rightarrow> (Soap (envelope r), [])
         | None \<Rightarrow> (fault ''ter:ActionNotSupported'' ''unsupported service capabilities'', []))
      else if action = ''ContinuousMove'' then
        (case movementDirection pf b of
           Inl e \<Rightarrow> (fault ''ter:InvalidArgVal'' e, [])
         | Inr d \<Rightarrow> (Soap (envelope ''<tptz:ContinuousMoveResponse/>''), [StartMove d]))
      else if action = ''RelativeMove'' then
        (case panTilt pf b of
           Inl e \<Rightarrow> (fault ''ter:InvalidArgVal'' e, [])
         | Inr (x, y) \<Rightarrow> (Soap (envelope ''<tptz:RelativeMoveResponse/>''), [StartRelative x y]))
      else if action = ''GotoPreset'' then
        (case presetToken b of
           Inl e \<Rightarrow> (fault ''ter:InvalidArgVal'' e, [])
         | Inr token \<Rightarrow>
             (case presetLocation token of
                None \<Rightarrow> (fault ''ter:InvalidArgVal'' ''PresetToken must be a discovered location between 0 and 64'', [])
              | Some l \<Rightarrow>
                  (case goto_error w of
                     Some e \<Rightarrow> (fault ''ter:Action'' e, [GotoPreset token])
                   | None \<Rightarrow> (Soap (envelope ''<tptz:GotoPresetResponse/>''), [GotoPreset token]))))
      else if action = ''Stop'' then
        (case stop_error w of
           Some e \<Rightarrow> (fault ''ter:Action'' e, [StopMove])
         | None \<Rightarrow> (Soap (envelope ''<tptz:StopResponse/>''), [StopMove]))
      else (fault ''ter:ActionNotSupported'' (''unsupported operation '' @ action), []))"

definition serveHTTP :: "(string \<Rightarrow> flt \<times> bool) \<Rightarrow> onvif_proxy \<Rightarrow> onvif_world \<Rightarrow> onvif_request \<Rightarrow>
    onvif_reply \<times> onvif_effect list" where
  "serveHTTP pf p w r =
     (if http_method r = ''GET'' \<and> path r = ''/healthz'' then (Health (pname p), [])
      else if http_method r \<noteq> ''POST'' \<or> \<not> has_prefix (path r) ''/onvif/'' then (PageNotFound, [])
      else case body r of
        Inl e \<Rightarrow> (BadRequest e, [])
      | Inr b \<Rightarrow>
          (case requestOperation b of
             Inl e \<Rightarrow> (fault ''ter:InvalidArgVal'' e, [])
           | Inr oper \<Rightarrow>
               operationReply pf p w (if forwarded_host r \<noteq> [] then forwarded_host r else host r) (path r) oper b))"

subsection \<open>Lemmas\<close>

lemma operationLoop_skip:
  "\<forall>n as. StartElement n as \<in> set pre \<longrightarrow> snd n \<noteq> ''Body'' \<Longrightarrow>
   operationLoop False (pre @ ts) = operationLoop False ts"
proof (induction pre)
  case (Cons t pre)
  then show ?case by (cases t) auto
qed simp

lemma operationLoop_inside:
  "\<forall>t \<in> set pre. (\<exists>s. t = CharData s) \<or> t = OtherToken \<Longrightarrow>
   operationLoop True (pre @ ts) = operationLoop True ts"
  by (induction pre) auto

lemma operationReply_effects:
  assumes "operationReply pf p w h path0 oper b = (reply, effs)"
  shows "effs = [] \<or> effs = [AskPresets] \<or> effs = [StopMove] \<or> (\<exists>x y. effs = [StartRelative x y] \<and> panTilt pf b = Inr (x, y)) \<or>
    (\<exists>d. effs = [StartMove d] \<and> movementDirection pf b = Inr d) \<or>
    (\<exists>t l. effs = [GotoPreset t] \<and> presetToken b = Inr t \<and> presetLocation t = Some l)"
  using assms unfolding operationReply_def Let_def
  by (cases oper) (auto split: if_splits option.splits sum.splits prod.splits)

lemma movementDirection_known: "movementDirection pf b = Inr d \<Longrightarrow> d \<in> {''stop'', ''left'', ''right'', ''up'', ''down''}"
  by (auto simp: movementDirection_def coordDirection_def split: sum.splits if_splits)

lemma presetLocation_Some: "presetLocation t = Some l \<Longrightarrow> t = dec_int l \<and> 0 \<le> l \<and> l \<le> 64"
  by (auto simp: presetLocation_def split: option.splits if_splits)

lemma axisSegment_bounds:
  assumes "(d, ns) \<in> set (axisSegment sp per neg pos v)"
  shows "d \<in> {neg, pos} \<and> millisecond \<le> ns \<and> (scaled sp (flt_abs v) per \<le> m \<longrightarrow> millisecond \<le> m \<longrightarrow> ns \<le> m)"
  using assms by (auto simp: axisSegment_def Let_def split: if_splits)

lemma sendQuery_get:
  "query_get (sendQuery base n d ns) ''src'' = n" "query_get (sendQuery base n d ns) ''direction'' = d"
  "0 < ns \<Longrightarrow> query_get (sendQuery base n d ns) ''duration'' = dec_int (ns div millisecond)"
  by (simp_all add: sendQuery_def Let_def query_get_set)

subsection \<open>Properties\<close>

text \<open>
  Claim C9. What a request of the bridge can cause. A request causes at most one action, and only
  when it is a POST under /onvif/ whose body has an operation; a movement is only started with one
  of the five directions, a relative movement with coordinates of the request, and a preset is only
  asked for by the canonical decimal of a location within 0 and 64. The operation is the first
  element inside the SOAP body: elements before the body, such as those of a header, never count.
\<close>

theorem onvif_dispatch:
  assumes "serveHTTP pf p w r = (reply, effs)"
    "\<forall>n as. StartElement n as \<in> set header \<longrightarrow> snd n \<noteq> ''Body''"
    "\<forall>t \<in> set blank. (\<exists>s. t = CharData s) \<or> t = OtherToken" "snd oper \<noteq> ''Body''"
  shows "length effs \<le> 1 \<and>
    (effs \<noteq> [] \<longrightarrow> http_method r = ''POST'' \<and> has_prefix (path r) ''/onvif/'' \<and>
       (\<exists>b n. body r = Inr b \<and> requestOperation b = Inr n)) \<and>
    (\<forall>d. StartMove d \<in> set effs \<longrightarrow> d \<in> {''stop'', ''left'', ''right'', ''up'', ''down''}) \<and>
    (\<forall>x y. StartRelative x y \<in> set effs \<longrightarrow> (\<exists>b. body r = Inr b \<and> panTilt pf b = Inr (x, y))) \<and>
    (\<forall>t. GotoPreset t \<in> set effs \<longrightarrow> (\<exists>l. t = dec_int l \<and> 0 \<le> l \<and> l \<le> 64)) \<and>
    requestOperation (header @ [StartElement (ns, ''Body'') bas] @ blank @ [StartElement oper oas] @ rest, e) = Inr oper"
proof -
  have o: "requestOperation (header @ [StartElement (ns, ''Body'') bas] @ blank @ [StartElement oper oas] @ rest, e) = Inr oper"
    using operationLoop_skip [OF assms(2)] operationLoop_inside [OF assms(3)] assms(4)
    by (simp add: requestOperation_def)
  show ?thesis
  proof (cases "effs = []")
    case False
    with assms(1) obtain b n h where b: "http_method r = ''POST''" "has_prefix (path r) ''/onvif/''" "body r = Inr b"
      "requestOperation b = Inr n" "operationReply pf p w h (path r) n b = (reply, effs)"
      unfolding serveHTTP_def by (auto split: if_splits sum.splits)
    from operationReply_effects [OF b(5)] False consider "effs = [AskPresets]" | "effs = [StopMove]"
      | x y where "effs = [StartRelative x y]" "panTilt pf b = Inr (x, y)"
      | d where "effs = [StartMove d]" "movementDirection pf b = Inr d"
      | t l where "effs = [GotoPreset t]" "presetLocation t = Some l" by blast
    then show ?thesis
    proof cases
      case (4 d)
      with movementDirection_known [OF 4(2)] b o show ?thesis by simp
    next
      case (5 t l)
      with presetLocation_Some [OF 5(2)] b o show ?thesis by auto
    qed (use b o in simp_all)
  qed (simp add: o [simplified])
qed

definition demo_request :: onvif_request where
  "demo_request = \<lparr>http_method = ''POST'', path = ''/onvif/ptz_service'', host = ''h'', forwarded_host = [],
     body = Inr ([StartElement ([], ''Header'') [], EndElement ''Header'', StartElement ([], ''Body'') [],
       CharData '' '', StartElement ([], ''Stop'') []], None)\<rparr>"

theorem onvif_dispatch_witness:
  "\<exists>reply. serveHTTP (\<lambda>s. (NaN, False)) \<lparr>pname = ''a'', video = \<lparr>width = 1, height = 1, fps = 1, codec = ''H264''\<rparr>, rtspURL = ''u''\<rparr>
      \<lparr>w_presets = Inr [], goto_error = None, stop_error = None, move_status = ''IDLE'', utc_now = [], date_time = [],
       hw_address = []\<rparr> demo_request = (reply, [StopMove]) \<and>
     requestOperation ([StartElement ([], ''Header'') [], EndElement ''Header'', StartElement ([], ''Body'') [],
       CharData '' '', StartElement ([], ''Stop'') []], None) = Inr ([], ''Stop'')"
proof -
  have e: "serveHTTP (\<lambda>s. (NaN, False)) \<lparr>pname = ''a'', video = \<lparr>width = 1, height = 1, fps = 1, codec = ''H264''\<rparr>, rtspURL = ''u''\<rparr>
      \<lparr>w_presets = Inr [], goto_error = None, stop_error = None, move_status = ''IDLE'', utc_now = [], date_time = [],
       hw_address = []\<rparr> demo_request = (Soap (envelope ''<tptz:StopResponse/>''), [StopMove])"
    by (simp add: serveHTTP_def demo_request_def has_prefix_def requestOperation_def operationReply_def pureAnswer_def)
  from onvif_dispatch [OF e, of "[StartElement ([], ''Header'') [], EndElement ''Header'']" "[CharData '' '']" "([], ''Stop'')"
      "[]" "[]" "[]" "[]" None] e show ?thesis by simp
qed

end
