(* ===== verification/OnvifMove.thy ===== *)
theory OnvifMove
  imports Prelude
begin

section \<open>Movements and their status\<close>

text \<open>
  Models the movements of \<open>proxy\<close> in \<open>cmd/xiaomi-onvif/main.go\<close>: \<open>startMove\<close>, \<open>startRelativeMove\<close>,
  \<open>stopMove\<close>, \<open>gotoPreset\<close>, their goroutines, and the status that \<open>GetStatus\<close> reports. Requests and
  goroutines are threads that interleave in any order; a thread is what it will do next. Movements
  are numbered; \<open>cancelled\<close> and \<open>closed\<close> are the movements whose context was cancelled and whose
  channel \<open>done\<close> was closed; \<open>mutex\<close> tells whether \<open>moveMu\<close> is held. The sections under \<open>statusMu\<close> are
  single steps. \<open>stopMoveLocked\<close> waits for the channel or for its time-out, which may come at any
  time. \<open>statusID\<close> is a natural number: 64 bits do not wrap in practice.
\<close>

record mover =
  mutex :: bool
  moveCancel :: "nat option"
  next_move :: nat
  cancelled :: "nat list"
  closed :: "nat list"
  statusID :: nat
  moving :: bool

definition newMover :: mover where
  "newMover = \<lparr>mutex = False, moveCancel = None, next_move = 0, cancelled = [], closed = [],
     statusID = 0, moving = False\<rparr>"

definition beginMoveStatus :: "mover \<Rightarrow> mover \<times> nat" where
  "beginMoveStatus s = (s\<lparr>statusID := statusID s + 1, moving := True\<rparr>, statusID s + 1)"

definition finishMoveStatus :: "nat \<Rightarrow> mover \<Rightarrow> mover" where
  "finishMoveStatus i s = (if statusID s = i then s\<lparr>moving := False\<rparr> else s)"

definition forceIdleStatus :: "mover \<Rightarrow> mover" where
  "forceIdleStatus s = s\<lparr>statusID := statusID s + 1, moving := False\<rparr>"

text \<open>The reported status; an empty one counts as idle.\<close>

definition moveStatus :: "mover \<Rightarrow> string" where
  "moveStatus s = (if moving s then ''MOVING'' else ''IDLE'')"

text \<open>
  What locked the mutex: a new movement, a stop, or a preset. The threads: at the lock; waiting in
  \<open>stopMoveLocked\<close> for a movement; with the lock, after it; before \<open>beginMoveStatus\<close>; the goroutine of
  a movement with its status number, before \<open>finishMoveStatus\<close>, before closing \<open>done\<close>; a stop before
  and after its command; a preset before \<open>forceIdleStatus\<close> and before its request; the goroutine of
  a preset; nothing more.
\<close>

datatype purpose = Start | Halt | Preset

datatype thread = Locking purpose | Waiting purpose nat | Locked purpose | Beginning nat
  | Running nat nat | Ending nat nat | Closing nat | Halting | Forcing | PresetForcing | PresetAsking
  | Settling nat | Over

inductive thread_step :: "mover \<Rightarrow> thread \<Rightarrow> mover \<Rightarrow> thread \<Rightarrow> bool" where
  lock_idle: "\<not> mutex s \<Longrightarrow> moveCancel s = None \<Longrightarrow>
    thread_step s (Locking p) (s\<lparr>mutex := True\<rparr>) (Locked p)"
| lock_cancel: "\<not> mutex s \<Longrightarrow> moveCancel s = Some m \<Longrightarrow>
    thread_step s (Locking p)
      (s\<lparr>mutex := True, moveCancel := None, cancelled := cancelled s @ [m]\<rparr>) (Waiting p m)"
| wait_done: "m \<in> set (closed s) \<Longrightarrow> thread_step s (Waiting p m) s (Locked p)"
| wait_timeout: "thread_step s (Waiting p m) s (Locked p)"
| register: "thread_step s (Locked Start)
    (s\<lparr>mutex := False, moveCancel := Some (next_move s), next_move := next_move s + 1\<rparr>)
    (Beginning (next_move s))"
| unlock_halt: "thread_step s (Locked Halt) (s\<lparr>mutex := False\<rparr>) Halting"
| unlock_preset: "thread_step s (Locked Preset) (s\<lparr>mutex := False\<rparr>) PresetForcing"
| begin_status: "beginMoveStatus s = (s', i) \<Longrightarrow> thread_step s (Beginning m) s' (Running m i)"
| segment: "m \<notin> set (cancelled s) \<Longrightarrow> thread_step s (Running m i) s (Running m i)"
| leave: "thread_step s (Running m i) s (Ending m i)"
| finish: "thread_step s (Ending m i) (finishMoveStatus i s) (Closing m)"
| close_done: "thread_step s (Closing m) (s\<lparr>closed := closed s @ [m]\<rparr>) Over"
| halt: "thread_step s Halting s Forcing"
| force_idle: "thread_step s Forcing (forceIdleStatus s) Over"
| preset_idle: "thread_step s PresetForcing (forceIdleStatus s) PresetAsking"
| preset_failed: "thread_step s PresetAsking s Over"
| preset_begin: "beginMoveStatus s = (s', i) \<Longrightarrow> thread_step s PresetAsking s' (Settling i)"
| settled: "thread_step s (Settling i) (finishMoveStatus i s) Over"

type_synonym move_sys = "mover \<times> thread list"

inductive move_step :: "move_sys \<Rightarrow> move_sys \<Rightarrow> bool" where
  request: "move_step (s, qs) (s, qs @ [Locking p])"
| act: "k < length qs \<Longrightarrow> thread_step s (qs ! k) s' q' \<Longrightarrow> move_step (s, qs) (s', qs[k := q'])"

inductive move_reach :: "move_sys \<Rightarrow> bool" where
  start: "move_reach (newMover, [])"
| step: "move_reach s \<Longrightarrow> move_step s t \<Longrightarrow> move_reach t"

subsection \<open>What a thread stands for\<close>

text \<open>The status number it will finish, the movement it may still drive, and whether it has the lock.\<close>

fun pending :: "thread \<Rightarrow> nat option" where
  "pending (Running m i) = Some i"
| "pending (Ending m i) = Some i"
| "pending (Settling i) = Some i"
| "pending _ = None"

fun movement :: "thread \<Rightarrow> nat option" where
  "movement (Beginning m) = Some m"
| "movement (Running m i) = Some m"
| "movement _ = None"

fun holder :: "thread \<Rightarrow> nat option" where
  "holder (Waiting p m) = Some 0"
| "holder (Locked p) = Some 0"
| "holder _ = None"

definition unique :: "(thread \<Rightarrow> nat option) \<Rightarrow> thread list \<Rightarrow> bool" where
  "unique f qs \<longleftrightarrow>
     (\<forall>j < length qs. \<forall>k < length qs. f (qs ! j) \<noteq> None \<longrightarrow> f (qs ! j) = f (qs ! k) \<longrightarrow> j = k)"

lemma unique_append: "unique f qs \<Longrightarrow> f q = None \<Longrightarrow> unique f (qs @ [q])"
  by (auto simp: unique_def nth_append less_Suc_eq)

lemma unique_update:
  assumes "unique f qs" "k < length qs"
    "f q' = None \<or> f q' = f (qs ! k) \<or> (\<forall>q \<in> set qs. f q \<noteq> f q')"
  shows "unique f (qs[k := q'])"
proof -
  have "f (qs ! j) \<noteq> f q'" if "j < length qs" "j \<noteq> k" "f q' \<noteq> None" for j
    using assms that nth_mem [OF that(1)] unfolding unique_def by metis
  then have o: "f (qs[k := q'] ! j) = f (qs[k := q'] ! l) \<Longrightarrow> f (qs[k := q'] ! j) \<noteq> None \<Longrightarrow> j = l"
    if "j < length qs" "l < length qs" for j l
    using assms(1,2) that unfolding unique_def
    by (cases "j = k"; cases "l = k") (simp_all, metis+)
  then show ?thesis unfolding unique_def length_list_update by blast
qed

lemma unique_other:
  assumes "unique f qs" "k < length qs" "j < length qs" "j \<noteq> k" "f (qs ! k) \<noteq> None"
  shows "f (qs ! j) \<noteq> f (qs ! k)"
  using assms unfolding unique_def by metis

lemma update_cases:
  assumes "q \<in> set (qs[k := q'])" "k < length qs"
  obtains "q = q'" | j where "j < length qs" "j \<noteq> k" "q = qs ! j"
  using assms by (metis in_set_conv_nth length_list_update nth_list_update_eq nth_list_update_neq)

subsection \<open>The status\<close>

definition status_inv :: "move_sys \<Rightarrow> bool" where
  "status_inv x \<longleftrightarrow> (case x of (s, qs) \<Rightarrow>
     unique pending qs \<and> (\<forall>q \<in> set qs. \<forall>i. pending q = Some i \<longrightarrow> i \<le> statusID s) \<and>
     (moving s \<longleftrightarrow> (\<exists>q \<in> set qs. pending q = Some (statusID s))))"

lemma thread_step_status:
  assumes "thread_step s q s' q'"
  shows "statusID s' = Suc (statusID s) \<and> moving s' \<and> pending q = None \<and> pending q' = Some (Suc (statusID s)) \<or>
    statusID s' = Suc (statusID s) \<and> \<not> moving s' \<and> pending q = None \<and> pending q' = None \<or>
    statusID s' = statusID s \<and> (moving s' \<longleftrightarrow> moving s \<and> pending q \<noteq> Some (statusID s)) \<and>
      pending q \<noteq> None \<and> pending q' = None \<or>
    statusID s' = statusID s \<and> moving s' = moving s \<and> pending q' = pending q"
  using assms
  by (cases rule: thread_step.cases) (auto simp: beginMoveStatus_def finishMoveStatus_def forceIdleStatus_def)

lemma status_inv_act:
  assumes "status_inv (s, qs)" "k < length qs" "thread_step s (qs ! k) s' q'"
  shows "status_inv (s', qs[k := q'])"
proof -
  have u: "unique pending qs" and le: "\<forall>q \<in> set qs. \<forall>i. pending q = Some i \<longrightarrow> i \<le> statusID s"
    and mv: "moving s \<longleftrightarrow> (\<exists>q \<in> set qs. pending q = Some (statusID s))"
    using assms(1) by (simp_all add: status_inv_def)
  have old: "q \<in> set (qs[k := q']) \<Longrightarrow> q = q' \<or> q \<in> set qs" for q
    using assms(2) by (auto elim: update_cases)
  have new: "q' \<in> set (qs[k := q'])" using assms(2) by (simp add: set_update_memI)
  have keep: "j < length qs \<Longrightarrow> j \<noteq> k \<Longrightarrow> qs ! j \<in> set (qs[k := q'])" for j
    by (metis length_list_update nth_list_update_neq nth_mem)
  from thread_step_status [OF assms(3)] consider
    (begins) "statusID s' = Suc (statusID s)" "moving s'" "pending (qs ! k) = None" "pending q' = Some (Suc (statusID s))"
    | (forces) "statusID s' = Suc (statusID s)" "\<not> moving s'" "pending (qs ! k) = None" "pending q' = None"
    | (finishes) i where "statusID s' = statusID s" "moving s' \<longleftrightarrow> moving s \<and> i \<noteq> statusID s"
        "pending (qs ! k) = Some i" "pending q' = None"
    | (other) "statusID s' = statusID s" "moving s' = moving s" "pending q' = pending (qs ! k)"
    by auto
  then show ?thesis
  proof cases
    case begins
    have "\<forall>q \<in> set qs. pending q \<noteq> Some (Suc (statusID s))" using le by fastforce
    then have "unique pending (qs[k := q'])" using begins by (intro unique_update u assms(2)) auto
    moreover have "\<forall>q \<in> set (qs[k := q']). \<forall>i. pending q = Some i \<longrightarrow> i \<le> Suc (statusID s)"
      using old le begins(4) by fastforce
    ultimately show ?thesis using begins new by (auto simp: status_inv_def)
  next
    case forces
    have "unique pending (qs[k := q'])" using forces by (intro unique_update u assms(2)) auto
    moreover have lt: "\<forall>q \<in> set (qs[k := q']). \<forall>i. pending q = Some i \<longrightarrow> i \<le> statusID s"
      using old le forces(4) by fastforce
    moreover have "\<forall>q \<in> set (qs[k := q']). pending q \<noteq> Some (Suc (statusID s))"
      using lt by fastforce
    ultimately show ?thesis using forces by (auto simp: status_inv_def le_SucI)
  next
    case (finishes i)
    have "unique pending (qs[k := q'])" using finishes by (intro unique_update u assms(2)) auto
    moreover have "\<forall>q \<in> set (qs[k := q']). \<forall>i. pending q = Some i \<longrightarrow> i \<le> statusID s"
      using old le finishes(4) by fastforce
    moreover have "moving s' \<longleftrightarrow> (\<exists>q \<in> set (qs[k := q']). pending q = Some (statusID s))"
    proof
      assume "moving s'"
      then obtain j where j: "j < length qs" "pending (qs ! j) = Some (statusID s)" "i \<noteq> statusID s"
        using mv finishes(2) by (auto simp: in_set_conv_nth)
      then have "j \<noteq> k" using finishes(3) by auto
      with keep j show "\<exists>q \<in> set (qs[k := q']). pending q = Some (statusID s)" by blast
    next
      assume "\<exists>q \<in> set (qs[k := q']). pending q = Some (statusID s)"
      then obtain q where q: "q \<in> set (qs[k := q'])" "pending q = Some (statusID s)" by blast
      with finishes(4) assms(2) obtain j where j: "j < length qs" "j \<noteq> k" "q = qs ! j"
        by (auto elim!: update_cases)
      with unique_other [OF u assms(2) j(1,2)] finishes(3) q(2) have "i \<noteq> statusID s" by auto
      moreover have "moving s" using mv q(2) j nth_mem by blast
      ultimately show "moving s'" using finishes(2) by simp
    qed
    ultimately show ?thesis using finishes(1) by (simp add: status_inv_def)
  next
    case other
    have "unique pending (qs[k := q'])" using other by (intro unique_update u assms(2)) auto
    moreover have "\<forall>q \<in> set (qs[k := q']). \<forall>i. pending q = Some i \<longrightarrow> i \<le> statusID s"
      using old le other(3) assms(2) nth_mem by metis
    moreover have "(\<exists>q \<in> set (qs[k := q']). pending q = Some (statusID s)) \<longleftrightarrow>
        (\<exists>q \<in> set qs. pending q = Some (statusID s))"
      using old new keep other(3) assms(2) by (metis in_set_conv_nth)
    ultimately show ?thesis using other mv by (simp add: status_inv_def)
  qed
qed

lemma status_inv_reach: "move_reach x \<Longrightarrow> status_inv x"
proof (induction rule: move_reach.induct)
  case start
  show ?case by (simp add: status_inv_def newMover_def unique_def)
next
  case (step x y)
  from step(2,3) show ?case
  proof (cases rule: move_step.cases)
    case (request s qs p)
    with step(3) show ?thesis by (auto simp: status_inv_def intro: unique_append)
  next
    case (act k qs s s' q')
    with step(3) status_inv_act show ?thesis by simp
  qed
qed

subsection \<open>One movement at a time\<close>

definition live :: "mover \<Rightarrow> thread \<Rightarrow> bool" where
  "live s q \<longleftrightarrow> (\<exists>m. movement q = Some m \<and> m \<notin> set (cancelled s))"

definition move_inv :: "move_sys \<Rightarrow> bool" where
  "move_inv x \<longleftrightarrow> (case x of (s, qs) \<Rightarrow>
     unique holder qs \<and> (\<forall>q \<in> set qs. holder q \<noteq> None \<longrightarrow> mutex s \<and> moveCancel s = None) \<and>
     unique movement qs \<and>
     (\<forall>q \<in> set qs. \<forall>m. movement q = Some m \<longrightarrow>
        m < next_move s \<and> (m \<in> set (cancelled s) \<or> moveCancel s = Some m)))"

lemma thread_step_move:
  assumes "thread_step s q s' q'"
  shows "\<not> mutex s \<and> mutex s' \<and> moveCancel s' = None \<and> next_move s' = next_move s \<and>
      set (cancelled s') = set (cancelled s) \<union> set_option (moveCancel s) \<and>
      holder q' = Some 0 \<and> movement q' = None \<or>
    holder q = Some 0 \<and> \<not> mutex s' \<and> moveCancel s' = Some (next_move s) \<and> next_move s' = Suc (next_move s) \<and>
      cancelled s' = cancelled s \<and> holder q' = None \<and> movement q' = Some (next_move s) \<or>
    holder q = Some 0 \<and> \<not> mutex s' \<and> moveCancel s' = moveCancel s \<and> next_move s' = next_move s \<and>
      cancelled s' = cancelled s \<and> holder q' = None \<and> movement q' = None \<or>
    holder q' = holder q \<and> mutex s' = mutex s \<and> moveCancel s' = moveCancel s \<and> next_move s' = next_move s \<and>
      cancelled s' = cancelled s \<and> (movement q' = movement q \<or> movement q' = None)"
  using assms
  by (cases rule: thread_step.cases) (auto simp: beginMoveStatus_def finishMoveStatus_def forceIdleStatus_def)

lemma move_inv_act:
  assumes "move_inv (s, qs)" "k < length qs" "thread_step s (qs ! k) s' q'"
  shows "move_inv (s', qs[k := q'])"
proof -
  have uh: "unique holder qs" and um: "unique movement qs"
    and h: "\<forall>q \<in> set qs. holder q \<noteq> None \<longrightarrow> mutex s \<and> moveCancel s = None"
    and m: "\<forall>q \<in> set qs. \<forall>m. movement q = Some m \<longrightarrow>
        m < next_move s \<and> (m \<in> set (cancelled s) \<or> moveCancel s = Some m)"
    using assms(1) by (simp_all add: move_inv_def)
  have sub: "q \<in> set (qs[k := q']) \<Longrightarrow> q = q' \<or> q \<in> set qs" for q
    using assms(2) by (auto elim: update_cases)
  have alone: "\<forall>q \<in> set (qs[k := q']). holder q = None" if "holder (qs ! k) = Some 0" "holder q' = None"
  proof
    fix q assume "q \<in> set (qs[k := q'])"
    then show "holder q = None"
    proof (rule update_cases [OF _ assms(2)])
      fix j assume j: "j < length qs" "j \<noteq> k" "q = qs ! j"
      from unique_other [OF uh assms(2) j(1,2)] that(1) have "holder q \<noteq> Some 0" using j(3) by simp
      then show "holder q = None" by (cases q) auto
    qed (simp add: that(2))
  qed
  from thread_step_move [OF assms(3)] consider
    (locks) "\<not> mutex s" "mutex s'" "moveCancel s' = None" "next_move s' = next_move s"
      "set (cancelled s') = set (cancelled s) \<union> set_option (moveCancel s)" "holder q' = Some 0" "movement q' = None"
    | (registers) "holder (qs ! k) = Some 0" "\<not> mutex s'" "moveCancel s' = Some (next_move s)"
      "next_move s' = Suc (next_move s)" "cancelled s' = cancelled s" "holder q' = None" "movement q' = Some (next_move s)"
    | (unlocks) "holder (qs ! k) = Some 0" "\<not> mutex s'" "moveCancel s' = moveCancel s" "next_move s' = next_move s"
      "cancelled s' = cancelled s" "holder q' = None" "movement q' = None"
    | (other) "holder q' = holder (qs ! k)" "mutex s' = mutex s" "moveCancel s' = moveCancel s"
      "next_move s' = next_move s" "cancelled s' = cancelled s" "movement q' = movement (qs ! k) \<or> movement q' = None"
    by metis
  then show ?thesis
  proof cases
    case locks
    have "\<forall>q \<in> set qs. holder q = None" using h locks(1) by blast
    then have "unique holder (qs[k := q'])" using locks(6) by (intro unique_update uh assms(2)) simp
    moreover have "unique movement (qs[k := q'])" using locks(7) by (intro unique_update um assms(2)) simp
    moreover have "\<forall>q \<in> set (qs[k := q']). \<forall>i. movement q = Some i \<longrightarrow> i < next_move s' \<and> i \<in> set (cancelled s')"
      using sub m locks(4,5,7) by fastforce
    ultimately show ?thesis using locks(2,3) by (simp add: move_inv_def)
  next
    case registers
    have nc: "moveCancel s = None" using h registers(1) assms(2) nth_mem by blast
    have fresh: "\<forall>q \<in> set qs. movement q \<noteq> Some (next_move s)" using m by fastforce
    have "unique holder (qs[k := q'])" using registers(6) by (intro unique_update uh assms(2)) simp
    moreover have "unique movement (qs[k := q'])"
      using registers(7) fresh by (intro unique_update um assms(2)) simp
    moreover have "\<forall>q \<in> set (qs[k := q']). \<forall>i. movement q = Some i \<longrightarrow>
        i < Suc (next_move s) \<and> (i \<in> set (cancelled s) \<or> next_move s = i)"
      using sub m nc registers(7) by fastforce
    ultimately show ?thesis using registers alone by (simp add: move_inv_def)
  next
    case unlocks
    have "unique holder (qs[k := q'])" using unlocks(6) by (intro unique_update uh assms(2)) simp
    moreover have "unique movement (qs[k := q'])" using unlocks(7) by (intro unique_update um assms(2)) simp
    moreover have "\<forall>q \<in> set (qs[k := q']). \<forall>i. movement q = Some i \<longrightarrow>
        i < next_move s \<and> (i \<in> set (cancelled s) \<or> moveCancel s = Some i)"
      using sub m unlocks(7) by fastforce
    ultimately show ?thesis using unlocks alone by (simp add: move_inv_def)
  next
    case other
    have qk: "qs ! k \<in> set qs" using assms(2) by simp
    have "unique holder (qs[k := q'])" using other(1) by (intro unique_update uh assms(2)) simp
    moreover have "unique movement (qs[k := q'])" using other(6) by (intro unique_update um assms(2)) auto
    moreover have "\<forall>q \<in> set (qs[k := q']). holder q \<noteq> None \<longrightarrow> mutex s \<and> moveCancel s = None"
      using sub h other(1) qk by metis
    moreover have "\<forall>q \<in> set (qs[k := q']). \<forall>i. movement q = Some i \<longrightarrow>
        i < next_move s \<and> (i \<in> set (cancelled s) \<or> moveCancel s = Some i)"
      using sub m other(6) qk by (metis option.distinct(1))
    ultimately show ?thesis using other(2-5) by (simp add: move_inv_def)
  qed
qed

lemma move_inv_reach: "move_reach x \<Longrightarrow> move_inv x"
proof (induction rule: move_reach.induct)
  case start
  show ?case by (simp add: move_inv_def newMover_def unique_def)
next
  case (step x y)
  from step(2,3) show ?case
  proof (cases rule: move_step.cases)
    case (request s qs p)
    with step(3) show ?thesis by (auto simp: move_inv_def intro: unique_append)
  next
    case (act k qs s s' q')
    with step(3) move_inv_act show ?thesis by simp
  qed
qed

subsection \<open>Properties\<close>



end
