(* ===== verification/OnvifCompat.thy ===== *)
theory OnvifCompat
  imports Onvif
begin

section \<open>The proxy in front of another ONVIF camera\<close>

text \<open>
  Models \<open>onvifCompatProxy\<close> of \<open>cmd/xiaomi-onvif/main.go\<close>: its configuration, the requests it answers
  itself, the requests it forwards, and what it rewrites in both directions. The upstream camera is
  a function from the address and the body to an answer. The regular expressions of the source are
  written out as matchers at a position; \<open>regexReplace\<close> is \<open>ReplaceAll\<close>: from the left, without
  overlaps. The XML decoder, \<open>url.Parse\<close>, \<open>ParseFloat\<close> and the product of floats are parameters.
\<close>

subsection \<open>Replacing\<close>

text \<open>\<open>bytes.ReplaceAll\<close> for a nonempty text.\<close>

function replaceAll :: "string \<Rightarrow> string \<Rightarrow> string \<Rightarrow> string" where
  "replaceAll old new [] = []"
| "replaceAll old new (c # cs) =
     (if has_prefix (c # cs) old then new @ replaceAll old new (drop (length old - 1) cs)
      else c # replaceAll old new cs)"
  by pat_completeness auto
termination by (relation "measure (\<lambda>(old, new, s). length s)") auto

text \<open>
  A matcher gives, at a position with the character before it, the length of the match, which is
  not empty, and what replaces it.
\<close>

type_synonym matcher = "char option \<Rightarrow> string \<Rightarrow> (nat \<times> string) option"

function regexReplace :: "matcher \<Rightarrow> char option \<Rightarrow> string \<Rightarrow> string" where
  "regexReplace m prev [] = []"
| "regexReplace m prev (c # cs) =
     (case m prev (c # cs) of
        None \<Rightarrow> c # regexReplace m (Some c) cs
      | Some (n, r) \<Rightarrow> r @ regexReplace m (Some ((c # cs) ! (n - 1))) (drop (n - 1) cs))"
  by pat_completeness auto
termination by (relation "measure (\<lambda>(m, prev, s). length s)") auto

fun regexFind :: "matcher \<Rightarrow> char option \<Rightarrow> string \<Rightarrow> bool" where
  "regexFind m prev [] = False"
| "regexFind m prev (c # cs) = (m prev (c # cs) \<noteq> None \<or> regexFind m (Some c) cs)"

subsection \<open>The patterns\<close>

definition ascii_letter :: "char \<Rightarrow> bool" where
  "ascii_letter c \<longleftrightarrow> (let n = byte_val c in 65 \<le> n \<and> n \<le> 90 \<or> 97 \<le> n \<and> n \<le> 122)"

definition ascii_digit :: "char \<Rightarrow> bool" where
  "ascii_digit c \<longleftrightarrow> (let n = byte_val c in 48 \<le> n \<and> n \<le> 57)"

text \<open>The characters between which \<open>\b\<close> lies, and a boundary before a word character.\<close>

definition word_char :: "char \<Rightarrow> bool" where
  "word_char c \<longleftrightarrow> ascii_letter c \<or> ascii_digit c \<or> c = CHR ''_''"

definition boundary_before :: "char option \<Rightarrow> bool" where
  "boundary_before prev \<longleftrightarrow> (case prev of None \<Rightarrow> True | Some c \<Rightarrow> \<not> word_char c)"

text \<open>
  The length of the longest run of \<open>[A-Za-z0-9_.-]\<close>, and of \<open>[A-Za-z_]\<close> at its start. Ignoring case, the
  classes also have the long s and the sign of Kelvin, two letters that ci to s and k.
\<close>

fun letter_len :: "bool \<Rightarrow> string \<Rightarrow> nat" where
  "letter_len ci [] = 0"
| "letter_len ci (c # cs) =
     (if ascii_letter c \<or> c = CHR ''_'' then 1
      else if ci \<and> take 2 (c # cs) = [CHR 0xC5, CHR 0xBF] then 2
      else if ci \<and> take 3 (c # cs) = [CHR 0xE2, CHR 0x84, CHR 0xAA] then 3
      else 0)"

function name_run :: "bool \<Rightarrow> string \<Rightarrow> nat" where
  "name_run ci s =
     (let n = (case s of [] \<Rightarrow> 0 | c # cs \<Rightarrow>
            if ascii_digit c \<or> c = CHR ''.'' \<or> c = CHR ''-'' then 1 else letter_len ci s) in
      if n = 0 \<or> s = [] then 0 else n + name_run ci (drop n s))"
  by pat_completeness auto
termination by (relation "measure (\<lambda>(ci, s). length s)") (auto split: list.splits)

declare name_run.simps [simp del]

text \<open>The lengths of \<open>(?:NAME:)?WORD\<close> at the start of a text: with a prefix and without.\<close>

definition same_word :: "bool \<Rightarrow> string \<Rightarrow> string \<Rightarrow> bool" where
  "same_word ci w s \<longleftrightarrow> (if ci then to_upper (take (length w) s) = to_upper w else take (length w) s = w)"

definition qname_lens :: "bool \<Rightarrow> string \<Rightarrow> string \<Rightarrow> nat list" where
  "qname_lens ci w s =
     (let n = (if letter_len ci s = 0 then 0 else name_run ci s); rest = drop n s in
      (if 0 < n \<and> take 1 rest = '':'' \<and> same_word ci w (drop 1 rest) then [n + 1 + length w] else []) @
      (if same_word ci w s then [length w] else []))"

text \<open>How many characters come before the first \<open>c\<close>; \<open>None\<close> without one.\<close>

definition upto :: "char \<Rightarrow> string \<Rightarrow> nat option" where
  "upto c s = (case cut c s of None \<Rightarrow> None | Some (a, b) \<Rightarrow> Some (length a))"

text \<open>\<open>panTiltTagPattern\<close>: the length of the tag at the start of a text.\<close>

definition panTiltTag :: "string \<Rightarrow> nat option" where
  "panTiltTag s =
     (case s of
        [] \<Rightarrow> None
      | c # cs \<Rightarrow>
          if c \<noteq> CHR ''<'' then None
          else case find (\<lambda>n. case drop n cs of [] \<Rightarrow> False | d # ds \<Rightarrow> \<not> word_char d \<and> CHR ''>'' \<in> set (d # ds))
                      (qname_lens False ''PanTilt'' cs) of
            None \<Rightarrow> None
          | Some n \<Rightarrow> map_option (\<lambda>k. 1 + n + k + 1) (upto CHR ''>'' (drop n cs)))"

text \<open>\<open>FindIndex\<close>: where the first match starts, and its length.\<close>

fun findTag :: "(string \<Rightarrow> nat option) \<Rightarrow> string \<Rightarrow> (nat \<times> nat) option" where
  "findTag m [] = map_option (Pair 0) (m [])"
| "findTag m (c # cs) =
     (case m (c # cs) of
        Some n \<Rightarrow> Some (0, n)
      | None \<Rightarrow> map_option (\<lambda>(i, n). (Suc i, n)) (findTag m cs))"

text \<open>The attribute patterns \<open>\bNAME="[^"]*"\<close>.\<close>

definition attrMatch :: "string \<Rightarrow> string \<Rightarrow> matcher" where
  "attrMatch name repl prev s =
     (let p = name @ ''=\"'' in
      if boundary_before prev \<and> has_prefix s p then
        map_option (\<lambda>k. (length p + k + 1, repl)) (upto CHR 0x22 (drop (length p) s))
      else None)"

text \<open>The status patterns: an element of that local name that holds text only, ignoring case.\<close>

definition statusMatch :: "string \<Rightarrow> string \<Rightarrow> matcher" where
  "statusMatch w status prev s =
     (case s of
        [] \<Rightarrow> None
      | c # cs \<Rightarrow>
          if c \<noteq> CHR ''<'' then None
          else case find (\<lambda>n. take 1 (drop n cs) = ''>'') (qname_lens True w cs) of
            None \<Rightarrow> None
          | Some n \<Rightarrow>
              (case upto CHR ''<'' (drop (n + 1) cs) of
                 None \<Rightarrow> None
               | Some k \<Rightarrow>
                   let close = drop (n + 1 + k) cs in
                   if take 2 close \<noteq> ''</'' then None
                   else case find (\<lambda>m. take 1 (drop (2 + m) close) = ''>'') (qname_lens True w (drop 2 close)) of
                     None \<Rightarrow> None
                   | Some m \<Rightarrow>
                       Some (1 + n + 1 + k + 2 + m + 1,
                         ''<'' @ take n cs @ ''>'' @ status @ ''</'' @ take m (drop 2 close) @ ''>'')))"

subsection \<open>Rewriting\<close>

definition genericSpace :: string where
  "genericSpace = ''http://www.onvif.org/ver10/tptz/PanTiltSpaces/TranslationGenericSpace''"

definition replaceXMLAttribute :: "string \<Rightarrow> string \<Rightarrow> string \<Rightarrow> string" where
  "replaceXMLAttribute tag name value =
     (let repl = name @ ''=\"'' @ value @ ''\"''; m = attrMatch name repl in
      if regexFind m None tag then regexReplace m None tag
      else if 2 \<le> length tag \<and> drop (length tag - 2) tag = ''/>'' then take (length tag - 2) tag @ '' '' @ repl @ ''/>''
      else (if tag \<noteq> [] \<and> last tag = CHR ''>'' then butlast tag else tag) @ '' '' @ repl @ ''>'')"

text \<open>
  \<open>FormatFloat\<close> with six decimals: the nearest, an even one of two. The sign of a negative zero is
  not represented.
\<close>

definition round_even :: "rat \<Rightarrow> nat" where
  "round_even q =
     (let f = \<lfloor>q\<rfloor>; r = q - of_int f in
      nat (if r < 1 / 2 then f else if 1 / 2 < r then f + 1 else if even f then f else f + 1))"

definition pad6 :: "nat \<Rightarrow> string" where
  "pad6 n = (let d = dec_nat n in replicate (6 - length d) CHR ''0'' @ d)"

fun formatFloat :: "flt \<Rightarrow> string" where
  "formatFloat NaN = ''NaN''"
| "formatFloat PosInf = ''+Inf''"
| "formatFloat NegInf = ''-Inf''"
| "formatFloat (Fin q) =
     (let n = round_even (\<bar>q\<bar> * 1000000) in
      (if q < 0 then ''-'' else []) @ dec_nat (n div 1000000) @ ''.'' @ pad6 (n mod 1000000))"

text \<open>\<open>math.Max(-1, math.Min(1, v))\<close>.\<close>

fun clampUnit :: "flt \<Rightarrow> flt" where
  "clampUnit NaN = NaN"
| "clampUnit PosInf = Fin 1"
| "clampUnit NegInf = Fin (- 1)"
| "clampUnit (Fin q) = Fin (max (- 1) (min 1 q))"

text \<open>
  The parameters: the decoder, \<open>ParseFloat\<close>, the product of floats, the two flags of the settle time of a
  relative movement as the time they give for the two distances, and the flag for presets.
\<close>

record compat_lib =
  xml_of :: "string \<Rightarrow> xml_body"
  parse_flt :: "string \<Rightarrow> flt \<times> bool"
  flt_mul :: "flt \<Rightarrow> flt \<Rightarrow> flt"
  settle_time :: "flt \<Rightarrow> flt \<Rightarrow> int"
  preset_settle :: int

definition rewriteTag :: "flt \<Rightarrow> flt \<Rightarrow> string \<Rightarrow> string" where
  "rewriteTag x y tag =
     replaceXMLAttribute (replaceXMLAttribute (replaceXMLAttribute tag ''x'' (formatFloat x)) ''y'' (formatFloat y))
       ''space'' genericSpace"

definition rewriteRelativeMove :: "compat_lib \<Rightarrow> string \<Rightarrow> flt \<Rightarrow> flt \<Rightarrow> string + string" where
  "rewriteRelativeMove lib b panGain tiltGain =
     (case panTilt (parse_flt lib) (xml_of lib b) of
        Inl e \<Rightarrow> Inl e
      | Inr (x0, y0) \<Rightarrow>
          let x = clampUnit (flt_mul lib x0 panGain); y = clampUnit (flt_mul lib y0 tiltGain) in
          (case index_of b ''Translation'' of
             None \<Rightarrow> Inl ''RelativeMove request has no Translation''
           | Some i \<Rightarrow>
               (case findTag panTiltTag (drop i b) of
                  None \<Rightarrow> Inl ''RelativeMove Translation has no PanTilt''
                | Some (j, n) \<Rightarrow>
                    Inr (replaceAll ''TranslationSpaceFov'' ''TranslationGenericSpace''
                      (take (i + j) b @ rewriteTag x y (take n (drop (i + j) b)) @ drop (i + j + n) b)))))"

definition advertiseFOVSpace :: "string \<Rightarrow> string" where
  "advertiseFOVSpace b = replaceAll ''TranslationGenericSpace'' ''TranslationSpaceFov'' b"

definition normalizeMoveStatus :: "string \<Rightarrow> string" where
  "normalizeMoveStatus b =
     (let r1 = replaceAll ''>idle<'' ''>IDLE<'' b; r2 = replaceAll ''>moving<'' ''>MOVING<'' r1;
          r3 = replaceAll ''>Idle<'' ''>IDLE<'' r2; r4 = replaceAll ''>Moving<'' ''>MOVING<'' r3
      in regexReplace (statusMatch ''Zoom'' ''IDLE'') None r4)"

definition setPanTiltMoveStatus :: "string \<Rightarrow> string \<Rightarrow> string" where
  "setPanTiltMoveStatus b status = regexReplace (statusMatch ''PanTilt'' status) None b"

subsection \<open>Configuration\<close>

record compat_proxy =
  cpName :: string
  cpListen :: string
  cpDevice :: string
  cpService :: string
  cpPan :: flt
  cpTilt :: flt

datatype compat_config_error = NoCameraName | WrongFields | BadUpstream string | BadPanGain string | BadTiltGain string

text \<open>A gain: \<open>None\<close> unless the text is read without an error and the number is not at most 0.\<close>

definition gainOf :: "(string \<Rightarrow> flt \<times> bool) \<Rightarrow> string \<Rightarrow> flt option" where
  "gainOf pf s = (case pf s of (v, ok) \<Rightarrow> if \<not> ok \<or> flt_le v (Fin 0) then None else Some v)"

text \<open>\<open>parse\<close> gives the scheme and the host of an address.\<close>

definition upstreamOk :: "(string \<Rightarrow> (string \<times> string) option) \<Rightarrow> string \<Rightarrow> bool" where
  "upstreamOk parse u = (case parse u of None \<Rightarrow> False | Some (scheme, h) \<Rightarrow> scheme \<noteq> [] \<and> h \<noteq> [])"

definition newONVIFCompatProxy ::
  "(string \<Rightarrow> flt \<times> bool) \<Rightarrow> (string \<Rightarrow> (string \<times> string) option) \<Rightarrow> string \<Rightarrow> compat_config_error + compat_proxy" where
  "newONVIFCompatProxy pf parse value =
     (case cut CHR ''='' value of
        None \<Rightarrow> Inl NoCameraName
      | Some (n, raw) \<Rightarrow>
          if trim_space n = [] then Inl NoCameraName
          else
            let parts0 = split_on CHR '','' raw; parts = map trim_space parts0 in
            if length parts0 < 3 \<or> 5 < length parts0 then Inl WrongFields
            else if \<not> upstreamOk parse (parts ! 1) then Inl (BadUpstream (parts ! 1))
            else if \<not> upstreamOk parse (parts ! 2) then Inl (BadUpstream (parts ! 2))
            else
              (case (if 4 \<le> length parts then gainOf pf (parts ! 3) else Some (Fin 1)) of
                 None \<Rightarrow> Inl (BadPanGain (parts ! 3))
               | Some pan \<Rightarrow>
                   (case (if length parts = 5 then gainOf pf (parts ! 4) else Some (Fin 1)) of
                      None \<Rightarrow> Inl (BadTiltGain (parts ! 4))
                    | Some tilt \<Rightarrow>
                        Inr \<lparr>cpName = trim_space n, cpListen = parts ! 0, cpDevice = parts ! 1, cpService = parts ! 2,
                             cpPan = pan, cpTilt = tilt\<rparr>)))"

subsection \<open>The public host\<close>

text \<open>\<open>url.URL.Hostname\<close>: the host without port and brackets.\<close>

definition lastColon :: "string \<Rightarrow> nat option" where
  "lastColon h = (if CHR '':'' \<in> set h then Some (length h - 1 - length (takeWhile (\<lambda>c. c \<noteq> CHR '':'') (rev h))) else None)"

definition urlHostname :: "string \<Rightarrow> string" where
  "urlHostname h =
     (let h1 = (case lastColon h of
          Some i \<Rightarrow> if list_all ascii_digit (drop (i + 1) h) then take i h else h
        | None \<Rightarrow> h)
      in if h1 \<noteq> [] \<and> hd h1 = CHR ''['' \<and> last h1 = CHR '']'' then butlast (tl h1) else h1)"

definition forbiddenHost :: "char list" where
  "forbiddenHost = [CHR ''<'', CHR ''>'', CHR 0x22, CHR 0x27, CHR 0x5C, CHR ''/'', CHR 0x0D, CHR 0x0A, CHR 0x09, CHR '' '']"

definition validPublicHost :: "(string \<Rightarrow> (string \<times> string) option) \<Rightarrow> string \<Rightarrow> bool" where
  "validPublicHost parse h \<longleftrightarrow>
     \<not> (h = [] \<or> 255 < length h \<or> list_ex (\<lambda>c. c \<in> set forbiddenHost) h) \<and>
     (case parse (''http://'' @ h) of None \<Rightarrow> False | Some (scheme, uh) \<Rightarrow> uh = h \<and> urlHostname uh \<noteq> [])"

definition publicHost :: "(string \<Rightarrow> (string \<times> string) option) \<Rightarrow> string \<Rightarrow> string \<Rightarrow> string" where
  "publicHost parse forwarded rhost =
     (if forwarded \<noteq> [] \<and> validPublicHost parse (trim_space (hd (split_on CHR '','' forwarded)))
      then trim_space (hd (split_on CHR '','' forwarded)) else rhost)"

subsection \<open>Requests\<close>

record compat_request =
  rMethod :: string
  rPath :: string
  rHost :: string
  rForwarded :: string
  rBody :: "string + string"

datatype compat_reply = CHealth string | CNotFound | CError nat string | CSoap string | CRelay nat string string

text \<open>What the upstream camera answers: an error, or the status, the content type and the body.\<close>

type_synonym upstream = "string \<Rightarrow> string \<Rightarrow> string + nat \<times> string \<times> string"

text \<open>
  The answer, what was forwarded (the address and the body), and until when the camera counts as
  moving; \<open>None\<close> is the zero time.
\<close>

type_synonym compat_result = "compat_reply \<times> (string \<times> string) option \<times> int option"

definition forwardTarget :: "compat_proxy \<Rightarrow> string \<Rightarrow> string" where
  "forwardTarget p path0 = (if contains path0 ''device_service'' then cpDevice p else cpService p)"

definition markMoving :: "int \<Rightarrow> int \<Rightarrow> int option" where
  "markMoving now d = Some (now + d)"

definition syntheticMoving :: "int \<Rightarrow> int option \<Rightarrow> bool" where
  "syntheticMoving now until = (case until of None \<Rightarrow> False | Some t \<Rightarrow> now < t)"

definition soapType :: string where
  "soapType = ''application/soap+xml; charset=utf-8''"

definition compatPTZCapabilities :: string where
  "compatPTZCapabilities =
     ''<tptz:GetServiceCapabilitiesResponse><tptz:Capabilities EFlip=\"false\" Reverse=\"false\" '' @
     ''GetCompatibleConfigurations=\"false\" MoveStatus=\"true\" StatusPosition=\"true\"/>'' @
     ''</tptz:GetServiceCapabilitiesResponse>''"

definition advertised :: "string list" where
  "advertised = [''GetProfiles'', ''GetProfile'', ''GetConfiguration'', ''GetConfigurations'', ''GetConfigurationOptions'',
     ''GetNodes'', ''GetNode'']"

text \<open>The end of \<open>ServeHTTP\<close>: forwarding, the status of the movement, and the rewriting of the answer.\<close>

definition compatForward ::
  "compat_lib \<Rightarrow> compat_proxy \<Rightarrow> upstream \<Rightarrow> int \<Rightarrow> int option \<Rightarrow> string \<Rightarrow> string \<Rightarrow> string \<Rightarrow> int \<Rightarrow> compat_result" where
  "compatForward lib p up now until path0 action b minimumMoving =
     (let target = forwardTarget p path0 in
      case up target b of
        Inl e \<Rightarrow> (CError 502 e, Some (target, b), until)
      | Inr (status, ctype, answer) \<Rightarrow>
          let until1 =
                (if status div 100 = 2 then
                   (if action = ''RelativeMove'' then markMoving now minimumMoving
                    else if action = ''GotoPreset'' then markMoving now (preset_settle lib)
                    else if action = ''Stop'' then None
                    else until)
                 else until);
              answer1 =
                (if action \<in> set advertised then advertiseFOVSpace answer
                 else if action = ''GetStatus'' then
                   (let n = normalizeMoveStatus answer in
                    if syntheticMoving now until1 then setPanTiltMoveStatus n ''MOVING'' else n)
                 else answer)
          in (CRelay status (if ctype \<noteq> [] then ctype else soapType) answer1, Some (target, b), until1))"

definition compatServe ::
  "compat_lib \<Rightarrow> (string \<Rightarrow> (string \<times> string) option) \<Rightarrow> compat_proxy \<Rightarrow> upstream \<Rightarrow> int \<Rightarrow> int option \<Rightarrow>
   compat_request \<Rightarrow> compat_result" where
  "compatServe lib parse p up now until r =
     (if rMethod r = ''GET'' \<and> rPath r = ''/healthz'' then (CHealth (cpName p), None, until)
      else if rMethod r \<noteq> ''POST'' \<or> \<not> has_prefix (rPath r) ''/onvif/'' then (CNotFound, None, until)
      else case rBody r of
        Inl e \<Rightarrow> (CError 400 e, None, until)
      | Inr b \<Rightarrow>
          (case requestOperation (xml_of lib b) of
             Inl e \<Rightarrow> (CError 400 e, None, until)
           | Inr (ns, action) \<Rightarrow>
               let h = publicHost parse (rForwarded r) (rHost r) in
               if action = ''GetCapabilities'' then (CSoap (envelope (getCapabilities h)), None, until)
               else if action = ''GetServices'' then (CSoap (envelope (getServices h)), None, until)
               else if action = ''GetServiceCapabilities'' \<and> contains (rPath r) ''ptz_service'' then
                 (CSoap (envelope compatPTZCapabilities), None, until)
               else if action = ''RelativeMove'' then
                 (case panTilt (parse_flt lib) (xml_of lib b) of
                    Inl e \<Rightarrow> (CError 400 e, None, until)
                  | Inr (x, y) \<Rightarrow>
                      let m = settle_time lib (flt_abs x) (flt_abs y) in
                      if flt_less (flt_abs x) (Fin (1 / 1000000)) \<and> flt_less (flt_abs y) (Fin (1 / 1000000)) then
                        (CSoap (envelope ''<tptz:RelativeMoveResponse/>''), None, markMoving now m)
                      else
                        (case rewriteRelativeMove lib b (cpPan p) (cpTilt p) of
                           Inl e \<Rightarrow> (CError 400 e, None, until)
                         | Inr b1 \<Rightarrow> compatForward lib p up now until (rPath r) action b1 m))
               else compatForward lib p up now until (rPath r) action b 0))"

subsection \<open>What replacing leaves\<close>

lemma prefix_before_marker:
  "is_prefix q (replaceAll old new s) \<Longrightarrow> new = c # r' \<Longrightarrow> c \<notin> set q \<Longrightarrow> is_prefix q s"
proof (induction q arbitrary: s)
  case (Cons y q)
  show ?case
  proof (cases s)
    case (Cons d ds)
    then show ?thesis using Cons.prems Cons.IH [of ds] by (auto simp: is_prefix_iff split: if_splits)
  qed (use Cons.prems in \<open>simp add: is_prefix_iff\<close>)
qed (simp add: is_prefix_iff)

lemma contains_skip: "contains (a @ s) (c # r) \<Longrightarrow> c \<notin> set a \<Longrightarrow> contains s (c # r)"
  by (induction a) (auto simp: is_prefix_iff)

lemma replaceAll_gone:
  assumes "old = c # r" "c \<notin> set r" "new = c # r'" "c \<notin> set r'"
    "i < length old" "i < length new" "old ! i \<noteq> new ! i"
  shows "\<not> contains (replaceAll old new s) old"
proof (induction "length s" arbitrary: s rule: less_induct)
  case less
  show ?case
  proof (cases s)
    case Nil
    then show ?thesis using assms(1) by simp
  next
    case (Cons d ds)
    show ?thesis
    proof (cases "has_prefix s old")
      case True
      let ?R = "replaceAll old new (drop (length old - 1) ds)"
      have "\<not> is_prefix old (new @ ?R)"
      proof
        assume "is_prefix old (new @ ?R)"
        then obtain t where "new @ ?R = old @ t" by (auto simp: is_prefix_iff)
        then have "(new @ ?R) ! i = (old @ t) ! i" by simp
        with assms(5-7) show False by (simp add: nth_append)
      qed
      moreover have "\<not> contains (r' @ ?R) old"
        using contains_skip [of r' ?R c r] less [of "drop (length old - 1) ds"] Cons assms(1,4) by auto
      ultimately show ?thesis using True Cons assms(3) by simp
    next
      case False
      have "\<not> is_prefix old (d # replaceAll old new ds)"
      proof
        assume "is_prefix old (d # replaceAll old new ds)"
        then have "d = c" "is_prefix r (replaceAll old new ds)" using assms(1) by (auto simp: is_prefix_iff)
        then have "is_prefix old s"
          using prefix_before_marker [of r old new ds c r'] assms(1-3) Cons by (auto simp: is_prefix_iff)
        with False show False by (auto simp: has_prefix_def is_prefix_iff)
      qed
      then show ?thesis using False Cons less [of ds] by simp
    qed
  qed
qed

lemma no_fov_left: "\<not> contains (replaceAll ''TranslationSpaceFov'' ''TranslationGenericSpace'' b) ''TranslationSpaceFov''"
  by (rule replaceAll_gone [where i = 11]) (simp_all, simp_all)

lemma no_generic_left: "\<not> contains (advertiseFOVSpace b) ''TranslationGenericSpace''"
  unfolding advertiseFOVSpace_def by (rule replaceAll_gone [where i = 11]) (simp_all, simp_all)

lemma upto_first: "c \<notin> set a \<Longrightarrow> upto c (a @ c # b) = Some (length a)"
  using cut_Some [of c "a @ c # b" a b] by (simp add: upto_def)

text \<open>An element of the namespace \<open>tt\<close> with text, as cameras write it.\<close>

definition tt_element :: "string \<Rightarrow> string \<Rightarrow> string" where
  "tt_element w t = ''<tt:'' @ w @ ''>'' @ t @ ''</tt:'' @ w @ ''>''"

lemma ascii_letter_t [simp]: "ascii_letter CHR ''t''"
  by (simp add: ascii_letter_def byte_val_def)

lemma drop_tt:
  "drop (3 + length w) (CHR ''t'' # CHR ''t'' # CHR '':'' # w @ x) = x"
  "drop (4 + length w) (CHR ''t'' # CHR ''t'' # CHR '':'' # w @ c # x) = x"
  "drop (4 + (length w + k)) (CHR ''t'' # CHR ''t'' # CHR '':'' # w @ c # x) = drop k x"
  "take (3 + length w) (CHR ''t'' # CHR ''t'' # CHR '':'' # w @ x) = ''tt:'' @ w"
  by (simp_all add: eval_nat_numeral)

lemma name_run_tt: "name_run True (CHR ''t'' # CHR ''t'' # CHR '':'' # s) = 2"
proof -
  have "name_run True (CHR '':'' # s) = 0"
    by (subst name_run.simps) (simp add: ascii_digit_def ascii_letter_def byte_val_def)
  then have "name_run True (CHR ''t'' # CHR '':'' # s) = 1"
    by (subst name_run.simps) (simp add: ascii_digit_def ascii_letter_def byte_val_def)
  then show ?thesis by (subst name_run.simps) (simp add: ascii_digit_def ascii_letter_def byte_val_def)
qed

lemma qname_tt:
  "qname_lens True w (''tt:'' @ w @ s) =
   [3 + length w] @ (if same_word True w (''tt:'' @ w @ s) then [length w] else [])"
  using name_run_tt [of "w @ s"] by (simp add: qname_lens_def same_word_def)

lemma statusMatch_element:
  assumes "CHR ''<'' \<notin> set t"
  shows "statusMatch w status prev (tt_element w t @ rest) =
    Some (length (tt_element w t), tt_element w status)"
proof -
  let ?cs = "''tt:'' @ w @ ''>'' @ t @ ''</tt:'' @ w @ ''>'' @ rest"
  have s: "tt_element w t @ rest = CHR ''<'' # ?cs" by (simp add: tt_element_def)
  have f1: "find (\<lambda>n. take 1 (drop n ?cs) = ''>'') (qname_lens True w ?cs) = Some (3 + length w)"
    unfolding qname_tt [of w "''>'' @ t @ ''</tt:'' @ w @ ''>'' @ rest"]
    by (simp add: drop_tt)
  have u: "upto CHR ''<'' (drop (3 + length w + 1) ?cs) = Some (length t)"
    using upto_first [OF assms, of "''/tt:'' @ w @ ''>'' @ rest"] by (simp add: drop_tt)
  have cl: "drop (3 + length w + 1 + length t) ?cs = ''</tt:'' @ w @ ''>'' @ rest"
    by (simp add: drop_tt add.assoc)
  have f2: "find (\<lambda>m. take 1 (drop (2 + m) (''</tt:'' @ w @ ''>'' @ rest)) = ''>'')
      (qname_lens True w (drop 2 (''</tt:'' @ w @ ''>'' @ rest))) = Some (3 + length w)"
  proof -
    have "drop 2 (''</tt:'' @ w @ ''>'' @ rest) = ''tt:'' @ w @ ''>'' @ rest" by simp
    moreover have "drop (2 + (3 + length w)) (''</tt:'' @ w @ ''>'' @ rest) = ''>'' @ rest"
      by (simp add: eval_nat_numeral)
    ultimately show ?thesis
      using qname_tt [of w "''>'' @ rest"] by (simp add: eval_nat_numeral)
  qed
  show ?thesis
    unfolding s statusMatch_def list.case Let_def if_False f1 option.case u cl f2
    by (simp add: tt_element_def drop_tt)
qed

lemma tt_element_nonempty: "tt_element w t @ rest = CHR ''<'' # tl (tt_element w t) @ rest"
  by (simp add: tt_element_def)

lemma statusMatch_plain: "c \<noteq> CHR ''<'' \<Longrightarrow> statusMatch w status prev (c # cs) = None"
  by (simp add: statusMatch_def)

text \<open>The places in a text where no match starts.\<close>

fun quiet :: "string \<Rightarrow> string \<Rightarrow> string \<Rightarrow> bool" where
  "quiet w [] rest = True"
| "quiet w (c # cs) rest = ((c \<noteq> CHR ''<'' \<or> statusMatch w [] None (c # cs @ rest) = None) \<and> quiet w cs rest)"

lemma statusMatch_None: "statusMatch w st prev s = None \<longleftrightarrow> statusMatch w [] None s = None"
  by (auto simp: statusMatch_def Let_def split: list.split option.split)

lemma regexReplace_quiet:
  "quiet w a rest \<Longrightarrow> \<exists>prev'. regexReplace (statusMatch w st) prev (a @ rest) = a @ regexReplace (statusMatch w st) prev' rest"
proof (induction a arbitrary: prev)
  case (Cons c cs)
  have n: "statusMatch w st prev (c # cs @ rest) = None"
  proof (cases "c = CHR ''<''")
    case True
    with Cons.prems show ?thesis by (simp add: statusMatch_None [of w st prev])
  qed (rule statusMatch_plain)
  obtain prev' where "regexReplace (statusMatch w st) (Some c) (cs @ rest) = cs @ regexReplace (statusMatch w st) prev' rest"
    using Cons by auto
  with n show ?case by auto
qed auto

lemma regexReplace_element:
  assumes "CHR ''<'' \<notin> set t"
  shows "\<exists>prev'. regexReplace (statusMatch w st) prev (tt_element w t @ rest) =
    tt_element w st @ regexReplace (statusMatch w st) prev' rest"
proof -
  let ?tl = "tl (tt_element w t)"
  have l: "length (tt_element w t) - 1 = length ?tl" by simp
  have "regexReplace (statusMatch w st) prev (CHR ''<'' # ?tl @ rest) =
      tt_element w st @ regexReplace (statusMatch w st) (Some ((CHR ''<'' # ?tl @ rest) ! (length (tt_element w t) - 1)))
        (drop (length ?tl) (?tl @ rest))"
    using statusMatch_element [OF assms, of w st prev rest] unfolding tt_element_nonempty [of w t rest]
    by (simp only: regexReplace.simps option.case prod.case l)
  then show ?thesis unfolding tt_element_nonempty by auto
qed

text \<open>\<open>PanTilt\<close> elements with quiet text around them.\<close>

lemma setPanTilt_element:
  assumes "quiet ''PanTilt'' a (tt_element ''PanTilt'' t @ b)" "CHR ''<'' \<notin> set t" "quiet ''PanTilt'' b []"
  shows "setPanTiltMoveStatus (a @ tt_element ''PanTilt'' t @ b) st = a @ tt_element ''PanTilt'' st @ b"
proof -
  obtain p1 where 1: "setPanTiltMoveStatus (a @ tt_element ''PanTilt'' t @ b) st =
      a @ regexReplace (statusMatch ''PanTilt'' st) p1 (tt_element ''PanTilt'' t @ b)"
    using regexReplace_quiet [OF assms(1)] by (auto simp: setPanTiltMoveStatus_def)
  obtain p2 where 2: "regexReplace (statusMatch ''PanTilt'' st) p1 (tt_element ''PanTilt'' t @ b) =
      tt_element ''PanTilt'' st @ regexReplace (statusMatch ''PanTilt'' st) p2 b"
    using regexReplace_element [OF assms(2)] by blast
  have "regexReplace (statusMatch ''PanTilt'' st) p2 b = b"
    using regexReplace_quiet [OF assms(3), of st p2] by auto
  with 1 2 show ?thesis by simp
qed

subsection \<open>The state between requests\<close>

text \<open>The action of a request, and a run of requests, each with its time and what the camera answers then.\<close>

definition actionOf :: "compat_lib \<Rightarrow> compat_request \<Rightarrow> string option" where
  "actionOf lib r =
     (case rBody r of
        Inl e \<Rightarrow> None
      | Inr b \<Rightarrow> (case requestOperation (xml_of lib b) of Inl e \<Rightarrow> None | Inr (ns, action) \<Rightarrow> Some action))"

fun compatRun ::
  "compat_lib \<Rightarrow> (string \<Rightarrow> (string \<times> string) option) \<Rightarrow> compat_proxy \<Rightarrow> int option \<Rightarrow>
   (int \<times> upstream \<times> compat_request) list \<Rightarrow> int option" where
  "compatRun lib parse p until [] = until"
| "compatRun lib parse p until ((now, up, r) # xs) =
     compatRun lib parse p (snd (snd (compatServe lib parse p up now until r))) xs"

definition moveActions :: "string list" where
  "moveActions = [''RelativeMove'', ''GotoPreset'', ''Stop'']"

text \<open>How long the camera counts as moving after a forwarded request.\<close>

definition settleOf :: "compat_lib \<Rightarrow> string \<Rightarrow> string \<Rightarrow> int option" where
  "settleOf lib action b =
     (if action = ''RelativeMove'' then
        (case panTilt (parse_flt lib) (xml_of lib b) of
           Inl e \<Rightarrow> None
         | Inr (x, y) \<Rightarrow> Some (settle_time lib (flt_abs x) (flt_abs y)))
      else if action = ''GotoPreset'' then Some (preset_settle lib)
      else None)"

lemma actionOf_Some:
  assumes "actionOf lib r = Some action"
  obtains b ns where "rBody r = Inr b" "requestOperation (xml_of lib b) = Inr (ns, action)"
  using assms by (auto simp: actionOf_def split: sum.splits)

lemma compatForward_keeps:
  "action \<notin> set moveActions \<Longrightarrow> snd (snd (compatForward lib p up now until path0 action b m)) = until"
  by (auto simp: compatForward_def moveActions_def Let_def split: sum.split)

lemma compatServe_keeps:
  "actionOf lib r \<notin> Some ` set moveActions \<Longrightarrow> snd (snd (compatServe lib parse p up now until r)) = until"
  by (cases "rBody r"; cases "requestOperation (xml_of lib (projr (rBody r)))")
    (auto simp: actionOf_def compatServe_def moveActions_def Let_def compatForward_keeps split: prod.split)

lemma compatRun_keeps:
  "list_all (\<lambda>(now, up, r). actionOf lib r \<notin> Some ` set moveActions) xs \<Longrightarrow>
   compatRun lib parse p until xs = until"
  by (induction xs arbitrary: until) (auto simp: compatServe_keeps)

text \<open>
  A forwarded request: its body was read, the camera answered, and a relative movement was rewritten.
\<close>

lemma compatServe_forwards:
  assumes "compatServe lib parse p up now until r = (reply, Some fwd, until1)"
  obtains b ns action b1 m where "rMethod r = ''POST''" "rBody r = Inr b"
    "requestOperation (xml_of lib b) = Inr (ns, action)"
    "compatForward lib p up now until (rPath r) action b1 m = (reply, Some fwd, until1)"
    "if action = ''RelativeMove'' then rewriteRelativeMove lib b (cpPan p) (cpTilt p) = Inr b1 \<and>
       settleOf lib action b = Some m else b1 = b"
proof -
  obtain b where b: "rMethod r = ''POST''" "rBody r = Inr b"
    using assms by (auto simp: compatServe_def split: if_splits sum.splits)
  obtain ns action where op: "requestOperation (xml_of lib b) = Inr (ns, action)"
    using assms b by (cases "requestOperation (xml_of lib b)") (auto simp: compatServe_def split: if_splits)
  show ?thesis
  proof (cases "action = ''RelativeMove''")
    case True
    obtain x y where "panTilt (parse_flt lib) (xml_of lib b) = Inr (x, y)"
      using assms b op True by (cases "panTilt (parse_flt lib) (xml_of lib b)") (auto simp: compatServe_def Let_def split: if_splits)
    then show ?thesis
      using assms b op True that [of b ns action]
      by (auto simp: compatServe_def Let_def settleOf_def split: if_splits sum.splits)
  next
    case False
    with assms b op that [of b ns action b 0] show ?thesis
      by (auto simp: compatServe_def Let_def split: if_splits)
  qed
qed

lemma compatForward_inv:
  assumes "compatForward lib p up now until path0 action b m = (reply, Some (target, b1), until1)"
  shows "target = forwardTarget p path0" "b1 = b"
    "reply = CRelay status ct ans \<Longrightarrow> action \<in> set advertised \<Longrightarrow> \<exists>a. ans = advertiseFOVSpace a"
    "reply = CRelay status ct ans \<Longrightarrow> status div 100 = 2 \<Longrightarrow> action \<in> set moveActions \<Longrightarrow>
       until1 = (if action = ''Stop'' then None
         else if action = ''GotoPreset'' then Some (now + preset_settle lib) else Some (now + m))"
  using assms
  by (auto simp: compatForward_def Let_def markMoving_def moveActions_def split: sum.splits prod.splits if_splits)

lemma findTag_Some:
  "findTag m s = Some (j, n) \<Longrightarrow> m (drop j s) = Some n \<and> j \<le> length s"
  by (induction s arbitrary: j) (auto split: option.splits)

lemma index_of_bound: "index_of b q = Some i \<Longrightarrow> i \<le> length b"
  by (induction b q arbitrary: i rule: index_of.induct) (auto split: if_splits option.splits)

lemma upto_length: "upto c s = Some k \<Longrightarrow> Suc k \<le> length s"
  by (induction s arbitrary: k) (auto simp: upto_def split: option.splits if_splits)

lemma panTiltTag_length: "panTiltTag s = Some n \<Longrightarrow> n \<le> length s"
  by (auto simp: panTiltTag_def dest!: upto_length split: list.splits if_splits option.splits)

text \<open>
  A rewritten movement: the first \<open>PanTilt\<close> tag from \<open>Translation\<close> on has new coordinates and the generic
  space; the rest of the body is as before, but for the name of the space.
\<close>

definition rewrittenMove :: "compat_lib \<Rightarrow> compat_proxy \<Rightarrow> string \<Rightarrow> string \<Rightarrow> bool" where
  "rewrittenMove lib p b b1 \<longleftrightarrow>
     (\<exists>x y i before tag rest. panTilt (parse_flt lib) (xml_of lib b) = Inr (x, y) \<and>
        b = before @ tag @ rest \<and> index_of b ''Translation'' = Some i \<and> i \<le> length before \<and>
        panTiltTag (tag @ rest) = Some (length tag) \<and>
        b1 = replaceAll ''TranslationSpaceFov'' ''TranslationGenericSpace''
          (before @ rewriteTag (clampUnit (flt_mul lib x (cpPan p))) (clampUnit (flt_mul lib y (cpTilt p))) tag @ rest))"

lemma rewriteRelativeMove_Inr:
  assumes "rewriteRelativeMove lib b (cpPan p) (cpTilt p) = Inr b1"
  shows "rewrittenMove lib p b b1"
proof -
  obtain x y i j n where *: "panTilt (parse_flt lib) (xml_of lib b) = Inr (x, y)"
    "index_of b ''Translation'' = Some i" "findTag panTiltTag (drop i b) = Some (j, n)"
    "b1 = replaceAll ''TranslationSpaceFov'' ''TranslationGenericSpace''
       (take (i + j) b @ rewriteTag (clampUnit (flt_mul lib x (cpPan p))) (clampUnit (flt_mul lib y (cpTilt p)))
          (take n (drop (i + j) b)) @ drop (i + j + n) b)"
    using assms by (auto simp: rewriteRelativeMove_def Let_def split: sum.splits prod.splits option.splits)
  let ?tag = "take n (drop (i + j) b)"
  have b: "b = take (i + j) b @ ?tag @ drop (i + j + n) b"
    by (metis append_take_drop_id drop_drop add.commute)
  have t: "?tag @ drop (i + j + n) b = drop (i + j) b" by (metis append_take_drop_id drop_drop add.commute)
  have "panTiltTag (drop (i + j) b) = Some n"
    using findTag_Some [OF *(3)] by (simp add: add.commute)
  moreover from this have "n = length ?tag" using panTiltTag_length [of "drop (i + j) b" n] by simp
  moreover have "i \<le> length (take (i + j) b)"
    using index_of_bound [OF *(2)] by simp
  ultimately show ?thesis unfolding rewrittenMove_def using * b t by metis
qed


text \<open>A camera, a movement of half a field of view to the right and a quarter up, and a question for the status.\<close>

definition demoMove :: string where
  "demoMove = ''<Translation><PanTilt x=\"0.5\" y=\"0.25\" space=\"TranslationSpaceFov\"/></Translation>''"

definition demoMoved :: string where
  "demoMoved = ''<Translation><PanTilt x=\"1.000000\" y=\"0.250000\" space=\"'' @ genericSpace @ ''\"/></Translation>''"

definition demoStatus :: string where
  "demoStatus = ''<GetStatus/>''"

definition demoXml :: "string \<Rightarrow> xml_body" where
  "demoXml b =
     (if b = demoMove then
        ([StartElement ([], ''Body'') [], StartElement ([], ''RelativeMove'') [],
          StartElement ([], ''PanTilt'') [(''x'', ''0.5''), (''y'', ''0.25'')]], None)
      else if b = demoStatus then ([StartElement ([], ''Body'') [], StartElement ([], ''GetStatus'') []], None)
      else ([], None))"

definition demoLib :: compat_lib where
  "demoLib = \<lparr>xml_of = demoXml,
     parse_flt = (\<lambda>s. if s = ''0.5'' then (Fin (1 / 2), True) else if s = ''0.25'' then (Fin (1 / 4), True) else (Fin 0, False)),
     flt_mul = (\<lambda>a b. case (a, b) of (Fin q, Fin q') \<Rightarrow> Fin (q * q') | _ \<Rightarrow> NaN),
     settle_time = (\<lambda>x y. 2000), preset_settle = 8000\<rparr>"

definition demoCamera :: compat_proxy where
  "demoCamera = \<lparr>cpName = ''yard'', cpListen = ''8080'', cpDevice = ''d'', cpService = ''s'', cpPan = Fin 2, cpTilt = Fin 1\<rparr>"

definition demoRequest :: "string \<Rightarrow> compat_request" where
  "demoRequest b = \<lparr>rMethod = ''POST'', rPath = ''/onvif/ptz'', rHost = ''h'', rForwarded = [], rBody = Inr b\<rparr>"

lemma demo_find: "findTag panTiltTag (drop 1 demoMove) = Some (12, 55)"
  by (simp add: demoMove_def panTiltTag_def qname_lens_def same_word_def upto_def word_char_def
      ascii_letter_def ascii_digit_def byte_val_def name_run.simps)

lemma demo_floats: "formatFloat (Fin 1) = ''1.000000''" "formatFloat (Fin (1 / 4)) = ''0.250000''"
proof -
  have r: "round_even 1000000 = 1000000" "round_even 250000 = 250000"
    by (simp_all add: round_even_def)
  have d: "dec_nat (Suc 0) = ''1''" "dec_nat 0 = ''0''" "dec_nat 250000 = ''250000''"
    by (simp_all add: dec_nat.simps digit_char_def char_of_def bit_0)
  have p: "pad6 0 = ''000000''" "pad6 250000 = ''250000''"
    unfolding pad6_def d by (simp_all add: eval_nat_numeral)
  show "formatFloat (Fin 1) = ''1.000000''" "formatFloat (Fin (1 / 4)) = ''0.250000''"
    by (simp_all add: r d p Let_def)
qed

lemma regexFind_step:
  "regexFind m prev (c # cs) = (case m prev (c # cs) of None \<Rightarrow> regexFind m (Some c) cs | Some v \<Rightarrow> True)"
  by (simp split: option.split)

lemma attrMatch_step:
  "attrMatch (n # ns) repl prev (c # cs) =
     (if c = n then
        (if boundary_before prev \<and> has_prefix cs (ns @ ''=\"'') then
           map_option (\<lambda>k. (length ns + k + 4, repl)) (upto CHR 0x22 (drop (length ns + 2) cs))
         else None)
      else None)"
  by (cases "upto CHR 0x22 (drop (length ns + 2) cs)") (auto simp: attrMatch_def has_prefix_def)

lemmas attr_eval = has_prefix_def regexFind_step attrMatch_step upto_def boundary_before_def word_char_def
  ascii_letter_def ascii_digit_def byte_val_def

lemma demo_x: "replaceXMLAttribute ''<PanTilt x=\"0.5\" y=\"0.25\" space=\"TranslationSpaceFov\"/>'' ''x'' ''1.000000'' =
   ''<PanTilt x=\"1.000000\" y=\"0.25\" space=\"TranslationSpaceFov\"/>''"
  by (simp add: replaceXMLAttribute_def Let_def attr_eval del: regexFind.simps(2))

lemma demo_y: "replaceXMLAttribute ''<PanTilt x=\"1.000000\" y=\"0.25\" space=\"TranslationSpaceFov\"/>'' ''y'' ''0.250000'' =
   ''<PanTilt x=\"1.000000\" y=\"0.250000\" space=\"TranslationSpaceFov\"/>''"
  by (simp add: replaceXMLAttribute_def Let_def attr_eval del: regexFind.simps(2))

lemma demo_space:
  "replaceXMLAttribute ''<PanTilt x=\"1.000000\" y=\"0.250000\" space=\"TranslationSpaceFov\"/>'' ''space'' genericSpace =
   ''<PanTilt x=\"1.000000\" y=\"0.250000\" space=\"'' @ genericSpace @ ''\"/>''"
  by (simp add: replaceXMLAttribute_def Let_def attr_eval genericSpace_def del: regexFind.simps(2))

lemma demo_rewrite: "rewriteRelativeMove demoLib demoMove (Fin 2) (Fin 1) = Inr demoMoved"
proof -
  have i: "index_of demoMove ''Translation'' = Some 1"
    by (simp add: demoMove_def)
  have x: "panTilt (parse_flt demoLib) (xml_of demoLib demoMove) = Inr (Fin (1 / 2), Fin (1 / 4))"
    by (simp add: panTilt_def demoLib_def demoXml_def)
  have c: "clampUnit (flt_mul demoLib (Fin (1 / 2)) (Fin 2)) = Fin 1"
      "clampUnit (flt_mul demoLib (Fin (1 / 4)) (Fin 1)) = Fin (1 / 4)"
    by (simp_all add: demoLib_def)
  have p: "take (1 + 12) demoMove = ''<Translation>''" "drop (1 + 12 + 55) demoMove = ''</Translation>''"
      "take 55 (drop (1 + 12) demoMove) = ''<PanTilt x=\"0.5\" y=\"0.25\" space=\"TranslationSpaceFov\"/>''"
    by (simp_all add: demoMove_def)
  show ?thesis
    unfolding rewriteRelativeMove_def x i demo_find sum.case prod.case option.case Let_def c p rewriteTag_def
      demo_floats demo_x demo_y demo_space
    by (simp add: demoMoved_def genericSpace_def has_prefix_def)
qed

lemma demo_requests:
  "requestOperation (xml_of demoLib demoMove) = Inr ([], ''RelativeMove'')"
  "requestOperation (xml_of demoLib demoStatus) = Inr ([], ''GetStatus'')"
  "panTilt (parse_flt demoLib) (xml_of demoLib demoMove) = Inr (Fin (1 / 2), Fin (1 / 4))"
  by (simp_all add: requestOperation_def panTilt_def demoLib_def demoXml_def demoMove_def demoStatus_def)

text \<open>The movement is forwarded, and the camera counts as moving for two seconds.\<close>

lemma demo_serve:
  "compatServe demoLib parse demoCamera (\<lambda>t b. Inr (200, [], ''<ok/>'')) 1000 until (demoRequest demoMove) =
   (CRelay 200 soapType ''<ok/>'', Some (''s'', demoMoved), Some 3000)"
proof -
  have e: "rMethod (demoRequest b) = ''POST''" "rPath (demoRequest b) = ''/onvif/ptz''" "rBody (demoRequest b) = Inr b" for b
    by (simp_all add: demoRequest_def)
  have c: "cpPan demoCamera = Fin 2" "cpTilt demoCamera = Fin 1" "forwardTarget demoCamera ''/onvif/ptz'' = ''s''"
    by (simp_all add: demoCamera_def forwardTarget_def has_prefix_def)
  have t: "settle_time demoLib x y = 2000" for x y by (simp add: demoLib_def)
  have f: "compatForward demoLib demoCamera (\<lambda>t b. Inr (200, [], ''<ok/>'')) 1000 until ''/onvif/ptz'' ''RelativeMove'' demoMoved 2000 =
      (CRelay 200 soapType ''<ok/>'', Some (''s'', demoMoved), Some 3000)"
    unfolding compatForward_def c by (simp add: markMoving_def advertised_def)
  show ?thesis
    unfolding compatServe_def e c sum.case demo_requests prod.case
    by (simp add: has_prefix_def Let_def demo_rewrite t f)
qed


lemma compatServe_status:
  assumes "actionOf lib r = Some ''GetStatus''" "rMethod r = ''POST''" "has_prefix (rPath r) ''/onvif/''"
    "rBody r = Inr b" "up (forwardTarget p (rPath r)) b = Inr (status, ct, ans)"
  shows "fst (compatServe lib parse p up now until r) = CRelay status (if ct \<noteq> [] then ct else soapType)
    (if syntheticMoving now until then setPanTiltMoveStatus (normalizeMoveStatus ans) ''MOVING'' else normalizeMoveStatus ans)"
proof -
  obtain ns where "requestOperation (xml_of lib b) = Inr (ns, ''GetStatus'')"
    using assms(1,4) by (auto simp: actionOf_def split: sum.splits)
  with assms(2-5) show ?thesis
    by (simp add: compatServe_def compatForward_def Let_def advertised_def)
qed

lemma compatServe_moves:
  assumes "compatServe lib parse p up now until r = (CRelay status ct ans, Some fwd, until1)" "status div 100 = 2"
    "actionOf lib r = Some action" "action \<in> set moveActions" "rBody r = Inr b"
  shows "until1 = map_option (\<lambda>d. now + d) (settleOf lib action b)"
proof -
  obtain b' ns action' b1 m where *: "rBody r = Inr b'" "requestOperation (xml_of lib b') = Inr (ns, action')"
    "compatForward lib p up now until (rPath r) action' b1 m = (CRelay status ct ans, Some fwd, until1)"
    "if action' = ''RelativeMove'' then rewriteRelativeMove lib b' (cpPan p) (cpTilt p) = Inr b1 \<and>
       settleOf lib action' b' = Some m else b1 = b'"
    using assms(1) by (rule compatServe_forwards)
  then have e: "b' = b" "action' = action" using assms(3,5) by (auto simp: actionOf_def)
  obtain target b2 where "fwd = (target, b2)" by (cases fwd)
  with *(3) e compatForward_inv(4) [of lib p up now until "rPath r" action b1 m _ target b2 until1 status ct ans] assms(2,4)
  have "until1 = (if action = ''Stop'' then None
      else if action = ''GotoPreset'' then Some (now + preset_settle lib) else Some (now + m))"
    by simp
  with *(4) e assms(4) show ?thesis by (auto simp: moveActions_def settleOf_def)
qed


lemma statusMatch_other:
  "qname_lens True w cs = [] \<Longrightarrow> statusMatch w st prev (CHR ''<'' # cs) = None"
  by (simp add: statusMatch_def)

lemma qname_other: 
  "\<not> same_word True w s \<Longrightarrow> \<not> same_word True w (''tt:'' @ s) \<Longrightarrow> qname_lens True w (''tt:'' @ s) = []"
  using name_run_tt [of s] by (simp add: qname_lens_def)

lemma qname_close: "w = c # cs \<Longrightarrow> upper_char c \<noteq> upper_char CHR ''/'' \<Longrightarrow> qname_lens True w (CHR ''/'' # s) = []"
  by (auto simp: qname_lens_def same_word_def ascii_letter_def ascii_digit_def byte_val_def to_upper_def)

lemma quiet_zoom: "quiet ''Zoom'' (tt_element ''PanTilt'' ''IDLE'') []"
proof -
  have "qname_lens True ''Zoom'' (''tt:'' @ ''PanTilt>IDLE</tt:PanTilt>'') = []"
    by (rule qname_other) (simp_all add: same_word_def to_upper_def upper_char_def Let_def)
  moreover have "qname_lens True ''Zoom'' (CHR ''/'' # ''tt:PanTilt>'') = []"
    by (rule qname_close) (simp, code_simp)
  ultimately show ?thesis
    by (simp add: tt_element_def statusMatch_other)
qed

lemma demo_normalize: "normalizeMoveStatus ''<tt:PanTilt>idle</tt:PanTilt>'' = [] @ tt_element ''PanTilt'' ''IDLE'' @ []"
proof -
  have s: "replaceAll ''>idle<'' ''>IDLE<'' ''<tt:PanTilt>idle</tt:PanTilt>'' = tt_element ''PanTilt'' ''IDLE''"
    "replaceAll ''>moving<'' ''>MOVING<'' (tt_element ''PanTilt'' ''IDLE'') = tt_element ''PanTilt'' ''IDLE''"
    "replaceAll ''>Idle<'' ''>IDLE<'' (tt_element ''PanTilt'' ''IDLE'') = tt_element ''PanTilt'' ''IDLE''"
    "replaceAll ''>Moving<'' ''>MOVING<'' (tt_element ''PanTilt'' ''IDLE'') = tt_element ''PanTilt'' ''IDLE''"
    by (simp_all add: tt_element_def has_prefix_def)
  show ?thesis
    unfolding normalizeMoveStatus_def Let_def s using regexReplace_quiet [OF quiet_zoom, of "''IDLE''" None] by auto
qed

lemma demo_fields: "rMethod (demoRequest b) = ''POST''" "rPath (demoRequest b) = ''/onvif/ptz''" "rBody (demoRequest b) = Inr b"
  by (simp_all add: demoRequest_def)


end
