(* ===== verification/Bits.thy ===== *)
theory Bits
  imports Prelude Complex_Main
begin

section \<open>Reading and writing bits\<close>

text \<open>
  Models \<open>pkg/bits/reader.go\<close> and \<open>pkg/bits/writer.go\<close>. A reader and a writer are records of the
  fields of the structs. The specification is the list of bits, most significant first: what is
  left of a reader (\<open>pending\<close>), and what was written (\<open>written\<close>).

  The writer keeps a pointer into its buffer. \<open>append\<close> moves the buffer to a new array when its
  capacity is used up, and then the pointer goes on to point into the old array: it is an index, or
  \<open>None\<close> after a move. The capacity that the runtime chooses is the parameter \<open>grow\<close>.
\<close>

subsection \<open>Reader\<close>

record bit_reader =
  rEOF :: bool
  rbuf :: bytes
  rbyte :: u8
  rbits :: nat
  rpos :: nat

definition NewReader :: "bytes \<Rightarrow> bit_reader" where
  "NewReader b = \<lparr>rEOF = False, rbuf = b, rbyte = 0, rbits = 0, rpos = 0\<rparr>"

text \<open>\<open>ReadByte\<close> on a byte boundary.\<close>

definition nextByte :: "bit_reader \<Rightarrow> u8 \<times> bit_reader" where
  "nextByte r =
     (if length (rbuf r) \<le> rpos r then (0, r\<lparr>rEOF := True\<rparr>)
      else (rbuf r ! rpos r, r\<lparr>rpos := rpos r + 1\<rparr>))"

definition ReadBit :: "bit_reader \<Rightarrow> u8 \<times> bit_reader" where
  "ReadBit r =
     (let r' = (if rbits r = 0 then (case nextByte r of (b, r1) \<Rightarrow> r1\<lparr>rbyte := b, rbits := 7\<rparr>)
                else r\<lparr>rbits := rbits r - 1\<rparr>)
      in (drop_bit (rbits r') (rbyte r') AND 1, r'))"

text \<open>The loop that \<open>ReadBits\<close> and its kin share, at any width of the result.\<close>

fun readLoop :: "nat \<Rightarrow> bit_reader \<Rightarrow> 'a::len word \<Rightarrow> 'a word \<times> bit_reader" where
  "readLoop 0 r res = (res, r)"
| "readLoop (Suc i) r res =
     (case ReadBit r of (b, r') \<Rightarrow> readLoop i r' (res OR push_bit i (ucast b)))"

definition ReadBits :: "u8 \<Rightarrow> bit_reader \<Rightarrow> u32 \<times> bit_reader" where
  "ReadBits n r = readLoop (unat n) r 0"

definition ReadBits8 :: "u8 \<Rightarrow> bit_reader \<Rightarrow> u8 \<times> bit_reader" where
  "ReadBits8 n r = readLoop (unat n) r 0"

definition ReadBits16 :: "u8 \<Rightarrow> bit_reader \<Rightarrow> u16 \<times> bit_reader" where
  "ReadBits16 n r = readLoop (unat n) r 0"

definition ReadBits64 :: "u8 \<Rightarrow> bit_reader \<Rightarrow> u64 \<times> bit_reader" where
  "ReadBits64 n r = readLoop (unat n) r 0"

definition ReadByte :: "bit_reader \<Rightarrow> u8 \<times> bit_reader" where
  "ReadByte r = (if rbits r \<noteq> 0 then ReadBits8 8 r else nextByte r)"

definition ReadUint16 :: "bit_reader \<Rightarrow> u16 \<times> bit_reader" where
  "ReadUint16 r =
     (if rbits r \<noteq> 0 then ReadBits16 16 r
      else case ReadByte r of (a, r1) \<Rightarrow> (case ReadByte r1 of (b, r2) \<Rightarrow>
        (push_bit 8 (ucast a) OR ucast b, r2)))"

definition ReadUint24 :: "bit_reader \<Rightarrow> u32 \<times> bit_reader" where
  "ReadUint24 r =
     (if rbits r \<noteq> 0 then ReadBits 24 r
      else case ReadByte r of (a, r1) \<Rightarrow> (case ReadByte r1 of (b, r2) \<Rightarrow> (case ReadByte r2 of (c, r3) \<Rightarrow>
        (push_bit 16 (ucast a) OR push_bit 8 (ucast b) OR ucast c, r3))))"

definition ReadUint32 :: "bit_reader \<Rightarrow> u32 \<times> bit_reader" where
  "ReadUint32 r =
     (if rbits r \<noteq> 0 then ReadBits 32 r
      else case ReadByte r of (a, r1) \<Rightarrow> (case ReadByte r1 of (b, r2) \<Rightarrow> (case ReadByte r2 of (c, r3) \<Rightarrow>
        (case ReadByte r3 of (d, r4) \<Rightarrow>
        (push_bit 24 (ucast a) OR push_bit 16 (ucast b) OR push_bit 8 (ucast c) OR ucast d, r4)))))"

text \<open>The sum is exact in a 64-bit float.\<close>

definition ReadFloat32 :: "bit_reader \<Rightarrow> rat \<times> bit_reader" where
  "ReadFloat32 r =
     (case ReadUint16 r of (i, r1) \<Rightarrow> (case ReadUint16 r1 of (f, r2) \<Rightarrow>
        (rat_of_nat (unat i) + rat_of_nat (unat f) / 65536, r2)))"

fun readByteLoop :: "nat \<Rightarrow> bit_reader \<Rightarrow> bytes \<times> bit_reader" where
  "readByteLoop 0 r = ([], r)"
| "readByteLoop (Suc n) r =
     (case ReadByte r of (b, r1) \<Rightarrow> (case readByteLoop n r1 of (bs, r2) \<Rightarrow> (b # bs, r2)))"

text \<open>\<open>None\<close> is the \<open>nil\<close> that \<open>ReadBytes\<close> returns at the end of the buffer.\<close>

definition ReadBytes :: "nat \<Rightarrow> bit_reader \<Rightarrow> bytes option \<times> bit_reader" where
  "ReadBytes n r =
     (if rbits r = 0 then
        (if length (rbuf r) < rpos r + n then (None, r\<lparr>rEOF := True\<rparr>)
         else (Some (take n (drop (rpos r) (rbuf r))), r\<lparr>rpos := rpos r + n\<rparr>))
      else case readByteLoop n r of (bs, r') \<Rightarrow> (Some bs, r'))"

text \<open>The loop of \<open>ReadUEGolomb\<close>: \<open>fuel\<close> turns are left of 32.\<close>

fun golombSize :: "nat \<Rightarrow> nat \<Rightarrow> bit_reader \<Rightarrow> nat \<times> bit_reader" where
  "golombSize sz 0 r = (sz, r)"
| "golombSize sz (Suc fuel) r =
     (case ReadBit r of (b, r') \<Rightarrow>
        if b \<noteq> 0 \<or> rEOF r' then (sz, r') else golombSize (sz + 1) fuel r')"

definition ReadUEGolomb :: "bit_reader \<Rightarrow> u32 \<times> bit_reader" where
  "ReadUEGolomb r =
     (case golombSize 0 32 r of (sz, r1) \<Rightarrow> (case ReadBits (of_nat sz) r1 of (v, r2) \<Rightarrow>
        (v + push_bit sz 1 - 1, r2)))"

text \<open>The value as an \<open>int32\<close>.\<close>

definition ReadSEGolomb :: "bit_reader \<Rightarrow> int \<times> bit_reader" where
  "ReadSEGolomb r =
     (case ReadUEGolomb r of (b, r') \<Rightarrow>
        (if b AND 1 = 0 then sint (- (drop_bit 1 b)) else sint (drop_bit 1 (b + 1)), r'))"

definition Left :: "bit_reader \<Rightarrow> bytes" where
  "Left r = drop (rpos r) (rbuf r)"

definition Pos :: "bit_reader \<Rightarrow> int \<times> nat" where
  "Pos r = (int (rpos r) - 1, rbits r)"

subsection \<open>Writer\<close>

record bit_writer =
  wbuf :: bytes
  wcap :: nat
  wbyte :: "nat option"
  wbits :: nat

definition NewWriter :: "bytes \<Rightarrow> nat \<Rightarrow> bit_writer" where
  "NewWriter b cap = \<lparr>wbuf = b, wcap = cap, wbyte = None, wbits = 0\<rparr>"

definition append_buf :: "(nat \<Rightarrow> nat) \<Rightarrow> bytes \<Rightarrow> bit_writer \<Rightarrow> bit_writer" where
  "append_buf grow bs w =
     (let n = length (wbuf w) + length bs in
      if n \<le> wcap w then w\<lparr>wbuf := wbuf w @ bs\<rparr>
      else w\<lparr>wbuf := wbuf w @ bs, wcap := max n (grow n), wbyte := None\<rparr>)"

definition WriteBit :: "(nat \<Rightarrow> nat) \<Rightarrow> u8 \<Rightarrow> bit_writer \<Rightarrow> bit_writer" where
  "WriteBit grow b w =
     (let w' = (if wbits w = 0
                then (append_buf grow [0] w)\<lparr>wbyte := Some (length (wbuf w)), wbits := 7\<rparr>
                else w\<lparr>wbits := wbits w - 1\<rparr>)
      in case wbyte w' of
           None \<Rightarrow> w'
         | Some i \<Rightarrow> w'\<lparr>wbuf := (wbuf w')[i := wbuf w' ! i OR push_bit (wbits w') (b AND 1)]\<rparr>)"

text \<open>The loop that \<open>WriteBits\<close> and its kin share: the bits of \<open>v\<close> below \<open>n\<close>, downwards.\<close>

fun writeLoop :: "(nat \<Rightarrow> nat) \<Rightarrow> 'a::len word \<Rightarrow> nat \<Rightarrow> bit_writer \<Rightarrow> bit_writer" where
  "writeLoop grow v 0 w = w"
| "writeLoop grow v (Suc i) w = writeLoop grow v i (WriteBit grow (ucast (drop_bit i v) AND 1) w)"

definition WriteBits :: "(nat \<Rightarrow> nat) \<Rightarrow> u32 \<Rightarrow> u8 \<Rightarrow> bit_writer \<Rightarrow> bit_writer" where
  "WriteBits grow v n = writeLoop grow v (unat n)"

definition WriteBits16 :: "(nat \<Rightarrow> nat) \<Rightarrow> u16 \<Rightarrow> u8 \<Rightarrow> bit_writer \<Rightarrow> bit_writer" where
  "WriteBits16 grow v n = writeLoop grow v (unat n)"

definition WriteBits8 :: "(nat \<Rightarrow> nat) \<Rightarrow> u8 \<Rightarrow> u8 \<Rightarrow> bit_writer \<Rightarrow> bit_writer" where
  "WriteBits8 grow v n = writeLoop grow v (unat n)"

definition WriteAllBits :: "(nat \<Rightarrow> nat) \<Rightarrow> u8 \<Rightarrow> u8 \<Rightarrow> bit_writer \<Rightarrow> bit_writer" where
  "WriteAllBits grow b n w = (WriteBit grow b ^^ unat n) w"

definition WriteBool :: "(nat \<Rightarrow> nat) \<Rightarrow> bool \<Rightarrow> bit_writer \<Rightarrow> bit_writer" where
  "WriteBool grow b = (if b then WriteBit grow 1 else WriteBit grow 0)"

text \<open>Off a byte boundary these three write bit by bit, and then go on to append the bytes again.\<close>

definition WriteByte :: "(nat \<Rightarrow> nat) \<Rightarrow> u8 \<Rightarrow> bit_writer \<Rightarrow> bit_writer" where
  "WriteByte grow b w = append_buf grow [b] (if wbits w \<noteq> 0 then WriteBits8 grow b 8 w else w)"

definition WriteUint16 :: "(nat \<Rightarrow> nat) \<Rightarrow> u16 \<Rightarrow> bit_writer \<Rightarrow> bit_writer" where
  "WriteUint16 grow v w = append_buf grow (be16 v) (if wbits w \<noteq> 0 then WriteBits16 grow v 16 w else w)"

definition WriteBytes :: "(nat \<Rightarrow> nat) \<Rightarrow> bytes \<Rightarrow> bit_writer \<Rightarrow> bit_writer" where
  "WriteBytes grow bs w = append_buf grow bs (if wbits w \<noteq> 0 then fold (WriteByte grow) bs w else w)"

definition Bytes :: "bit_writer \<Rightarrow> bytes" where
  "Bytes w = wbuf w"

definition Len :: "bit_writer \<Rightarrow> nat" where
  "Len w = length (wbuf w)"

definition Reset :: "bit_writer \<Rightarrow> bit_writer" where
  "Reset w = w\<lparr>wbuf := [], wbits := 0\<rparr>"

subsection \<open>The bits of a reader\<close>

definition byte_bits :: "u8 \<Rightarrow> bool list" where
  "byte_bits b = map (bit b) (rev [0..<8])"

definition byte_list_bits :: "bytes \<Rightarrow> bool list" where
  "byte_list_bits bs = concat (map byte_bits bs)"

text \<open>What is left to read.\<close>

definition pending :: "bit_reader \<Rightarrow> bool list" where
  "pending r = map (bit (rbyte r)) (rev [0..<rbits r]) @ byte_list_bits (drop (rpos r) (rbuf r))"

text \<open>The number that a list of bits stands for.\<close>

fun bits_value :: "bool list \<Rightarrow> 'a::len word" where
  "bits_value [] = 0"
| "bits_value (b # bs) = push_bit (length bs) (of_bool b) OR bits_value bs"

lemma byte_list_bits_simps [simp]:
  "byte_list_bits [] = []" "byte_list_bits (b # bs) = byte_bits b @ byte_list_bits bs"
  "byte_list_bits (bs @ cs) = byte_list_bits bs @ byte_list_bits cs"
  by (simp_all add: byte_list_bits_def)

lemma length_byte_bits [simp]: "length (byte_bits b) = 8"
  by (simp add: byte_bits_def)

lemma length_byte_list_bits [simp]: "length (byte_list_bits bs) = 8 * length bs"
  by (induction bs) simp_all

lemma byte_bits_Cons: "byte_bits b = bit b 7 # map (bit b) (rev [0..<7])"
  by (simp add: byte_bits_def eval_nat_numeral)

lemma pending_NewReader [simp]: "pending (NewReader b) = byte_list_bits b"
  by (simp add: pending_def NewReader_def)

lemma drop_bit_and_1: "drop_bit n x AND 1 = of_bool (bit (x :: 'a::len word) n)"
  by (simp add: and_one_eq bit_iff_odd_drop_bit mod_2_eq_odd)

lemma ReadBit_pending:
  assumes "pending r = b # bs"
  obtains r' where "ReadBit r = (of_bool b, r')" "pending r' = bs" "rEOF r' = rEOF r"
proof (cases "rbits r = 0")
  case True
  with assms have d: "byte_list_bits (drop (rpos r) (rbuf r)) = b # bs" by (simp add: pending_def)
  then have p: "rpos r < length (rbuf r)" by (cases "rpos r < length (rbuf r)") auto
  let ?x = "rbuf r ! rpos r"
  have "drop (rpos r) (rbuf r) = ?x # drop (Suc (rpos r)) (rbuf r)"
    using p by (simp add: Cons_nth_drop_Suc)
  with d have e: "b = bit ?x 7" "bs = map (bit ?x) (rev [0..<7]) @ byte_list_bits (drop (Suc (rpos r)) (rbuf r))"
    by (simp_all add: byte_bits_Cons)
  show ?thesis
    by (rule that [of "r\<lparr>rpos := rpos r + 1, rbyte := ?x, rbits := 7\<rparr>"])
      (use True p e in \<open>simp_all add: ReadBit_def nextByte_def pending_def drop_bit_and_1\<close>)
next
  case False
  then obtain k where k: "rbits r = Suc k" by (cases "rbits r") auto
  with assms have e: "b = bit (rbyte r) k"
      "bs = map (bit (rbyte r)) (rev [0..<k]) @ byte_list_bits (drop (rpos r) (rbuf r))"
    by (simp_all add: pending_def)
  show ?thesis
    by (rule that [of "r\<lparr>rbits := k\<rparr>"]) (use k e in \<open>simp_all add: ReadBit_def pending_def drop_bit_and_1\<close>)
qed

lemma readLoop_pending:
  "pending r = bs @ rest \<Longrightarrow>
   \<exists>r'. readLoop (length bs) r res = (res OR bits_value bs, r') \<and> pending r' = rest \<and> rEOF r' = rEOF r"
proof (induction bs arbitrary: r res)
  case (Cons b bs)
  from Cons.prems obtain r1 where r1: "ReadBit r = (of_bool b, r1)" "pending r1 = bs @ rest" "rEOF r1 = rEOF r"
    by (auto elim: ReadBit_pending [of r b "bs @ rest"])
  have u: "ucast (of_bool b :: u8) = (of_bool b :: 'a word)" by simp
  from Cons.IH [OF r1(2), of "res OR push_bit (length bs) (of_bool b)"] show ?case
    by (auto simp: r1(1,3) u or.assoc)
qed simp

lemma bit_bits_value:
  "length bs \<le> LENGTH('a) \<Longrightarrow> i < LENGTH('a) \<Longrightarrow>
   bit (bits_value bs :: 'a::len word) i \<longleftrightarrow> i < length bs \<and> bs ! (length bs - 1 - i)"
proof (induction bs)
  case (Cons b bs)
  then show ?case
    by (cases "i = length bs") (auto simp: bit_simps nth_Cons' not_le)
qed simp

lemma bits_value_map:
  "n \<le> LENGTH('a) \<Longrightarrow> bits_value (map (bit v) (rev [0..<n])) = take_bit n (v :: 'a::len word)"
  by (rule bit_word_eqI) (auto simp: bit_bits_value rev_nth bit_simps)

lemma bits_value_byte [simp]: "bits_value (byte_bits b) = b"
  by (simp add: byte_bits_def bits_value_map take_bit_word_eq_self del: upt_rec_numeral)

subsection \<open>The bits of a writer\<close>

definition writer_ok :: "bit_writer \<Rightarrow> bool" where
  "writer_ok w \<longleftrightarrow> wbits w < 8 \<and>
     (wbits w \<noteq> 0 \<longrightarrow> wbuf w \<noteq> [] \<and> wbyte w = Some (length (wbuf w) - 1) \<and>
        (\<forall>i < wbits w. \<not> bit (last (wbuf w)) i))"

definition written :: "bit_writer \<Rightarrow> bool list" where
  "written w = take (8 * length (wbuf w) - wbits w) (byte_list_bits (wbuf w))"

lemma writer_ok_NewWriter [simp]: "writer_ok (NewWriter b c)"
  by (simp add: writer_ok_def NewWriter_def)

lemma written_NewWriter [simp]: "written (NewWriter b c) = byte_list_bits b"
  by (simp add: written_def NewWriter_def)

lemma take_byte_bits: "k \<le> 8 \<Longrightarrow> take (8 - k) (byte_bits x) = map (bit x) (rev [k..<8])"
proof -
  assume k: "k \<le> 8"
  then have "[0..<8] = [0..<k] @ [k..<8]" using upt_add_eq_append [of 0 k "8 - k"] by (simp del: upt_rec_numeral)
  then show ?thesis by (simp add: byte_bits_def k del: upt_rec_numeral)
qed

lemma byte_list_bits_last: "bs \<noteq> [] \<Longrightarrow> byte_list_bits bs = byte_list_bits (butlast bs) @ byte_bits (last bs)"
  by (induction bs) auto

lemma written_last:
  assumes "wbits w < 8" "wbuf w \<noteq> []"
  shows "written w = byte_list_bits (butlast (wbuf w)) @ map (bit (last (wbuf w))) (rev [wbits w..<8])"
proof -
  have n: "8 * length (wbuf w) - wbits w = 8 * length (butlast (wbuf w)) + (8 - wbits w)"
    using assms by (cases "wbuf w" rule: rev_cases) simp_all
  show ?thesis
    unfolding written_def n byte_list_bits_last [OF assms(2)]
    using assms(1) by (simp add: take_byte_bits)
qed

lemma WriteBit_written:
  assumes "writer_ok w"
  shows "writer_ok (WriteBit grow b w) \<and> written (WriteBit grow b w) = written w @ [bit b 0]"
proof (cases "wbits w")
  case 0
  let ?w = "WriteBit grow b w" and ?x = "push_bit 7 (b AND 1)"
  have f: "wbuf ?w = wbuf w @ [?x]" "wbits ?w = 7" "wbyte ?w = Some (length (wbuf w))"
    using 0 by (simp_all add: WriteBit_def append_buf_def Let_def)
  have "written w = byte_list_bits (wbuf w)" using 0 by (simp add: written_def)
  moreover have "written ?w = byte_list_bits (wbuf w) @ [bit ?x 7]"
    using f by (subst written_last) simp_all
  ultimately show ?thesis using f
    by (auto simp: writer_ok_def bit_simps)
next
  case (Suc k)
  let ?w = "WriteBit grow b w" and ?l = "last (wbuf w)"
  let ?x = "?l OR push_bit k (b AND 1)"
  from assms Suc have o: "wbuf w \<noteq> []" "wbyte w = Some (length (wbuf w) - 1)" "k < 7" "\<forall>i \<le> k. \<not> bit ?l i"
    by (simp_all add: writer_ok_def less_Suc_eq_le)
  have f: "wbuf ?w = butlast (wbuf w) @ [?x]" "wbits ?w = k" "wbyte ?w = wbyte w"
    using Suc o(2) by (cases "wbuf w" rule: rev_cases; use o(1) in \<open>simp add: WriteBit_def\<close>)+
  have u: "[k..<8] = k # [Suc k..<8]" using o(3) by (simp add: upt_conv_Cons del: upt_rec_numeral)
  have "written ?w = byte_list_bits (butlast (wbuf w)) @ map (bit ?x) (rev [Suc k..<8]) @ [bit ?x k]"
    using f o(3) by (subst written_last) (simp_all add: u del: upt_rec_numeral)
  also have "map (bit ?x) (rev [Suc k..<8]) = map (bit ?l) (rev [Suc k..<8])"
    by (auto simp: bit_simps simp del: upt_rec_numeral)
  also have "bit ?x k = bit b 0" using o(3,4) by (auto simp: bit_simps)
  finally have "written ?w = written w @ [bit b 0]"
    using Suc o(1,3) by (subst written_last [of w]) (simp_all del: upt_rec_numeral)
  moreover have "writer_ok ?w" using f o by (auto simp: writer_ok_def bit_simps)
  ultimately show ?thesis by simp
qed

lemma writeLoop_written:
  "writer_ok w \<Longrightarrow> writer_ok (writeLoop grow v n w) \<and>
     written (writeLoop grow v n w) = written w @ map (bit v) (rev [0..<n])"
proof (induction n arbitrary: w)
  case (Suc n)
  let ?b = "ucast (drop_bit n v) AND 1 :: u8"
  from WriteBit_written [OF Suc.prems, of grow ?b]
  have w: "writer_ok (WriteBit grow ?b w)" "written (WriteBit grow ?b w) = written w @ [bit v n]"
    by (simp_all add: bit_simps)
  from Suc.IH [OF w(1)] w(2) show ?case by simp
qed simp

lemma WriteAllBits_written:
  "writer_ok w \<Longrightarrow> writer_ok (WriteAllBits grow b n w) \<and>
     written (WriteAllBits grow b n w) = written w @ replicate (unat n) (bit b 0)"
proof -
  assume w: "writer_ok w"
  have "writer_ok ((WriteBit grow b ^^ k) w) \<and> written ((WriteBit grow b ^^ k) w) = written w @ replicate k (bit b 0)" for k
  proof (induction k)
    case (Suc k)
    then show ?case using WriteBit_written [of "(WriteBit grow b ^^ k) w"] by (simp add: replicate_append_same)
  qed (simp add: w)
  then show ?thesis by (simp add: WriteAllBits_def)
qed

text \<open>What the buffer holds in the end: the bits that were written, and zeros up to a full byte.\<close>

lemma Bytes_written:
  assumes "writer_ok w"
  shows "byte_list_bits (Bytes w) = written w @ replicate (wbits w) False"
proof (cases "wbits w = 0")
  case True
  then show ?thesis by (simp add: Bytes_def written_def)
next
  case False
  with assms have o: "wbuf w \<noteq> []" "wbits w < 8" "\<forall>i < wbits w. \<not> bit (last (wbuf w)) i"
    by (simp_all add: writer_ok_def)
  have "[0..<8] = [0..<wbits w] @ [wbits w..<8]"
    using o(2) upt_add_eq_append [of 0 "wbits w" "8 - wbits w"] by (simp del: upt_rec_numeral)
  then have "byte_bits (last (wbuf w)) =
      map (bit (last (wbuf w))) (rev [wbits w..<8]) @ map (bit (last (wbuf w))) (rev [0..<wbits w])"
    by (simp add: byte_bits_def del: upt_rec_numeral)
  moreover have "map (bit (last (wbuf w))) (rev [0..<wbits w]) = replicate (wbits w) False"
    using o(3) by (intro replicate_eqI) auto
  ultimately show ?thesis
    using byte_list_bits_last [OF o(1)] o by (simp add: Bytes_def written_last del: upt_rec_numeral)
qed

subsection \<open>Properties\<close>

definition writeFields :: "(nat \<Rightarrow> nat) \<Rightarrow> (u32 \<times> u8) list \<Rightarrow> bit_writer \<Rightarrow> bit_writer" where
  "writeFields grow fs w = fold (\<lambda>(v, n). WriteBits grow v n) fs w"

fun readFields :: "u8 list \<Rightarrow> bit_reader \<Rightarrow> u32 list \<times> bit_reader" where
  "readFields [] r = ([], r)"
| "readFields (n # ns) r =
     (case ReadBits n r of (v, r1) \<Rightarrow> (case readFields ns r1 of (vs, r2) \<Rightarrow> (v # vs, r2)))"

definition field_bits :: "u32 \<times> u8 \<Rightarrow> bool list" where
  "field_bits = (\<lambda>(v, n). map (bit v) (rev [0..<unat n]))"

lemma ReadBits_pending:
  assumes "pending r = map (bit v) (rev [0..<unat n]) @ rest" "unat n \<le> 32"
  shows "\<exists>r'. ReadBits n r = (take_bit (unat n) v, r') \<and> pending r' = rest \<and> rEOF r' = rEOF r"
  using readLoop_pending [OF assms(1), of "0 :: u32"] assms(2)
  by (simp add: ReadBits_def bits_value_map)

lemma ReadBits8_pending:
  assumes "pending r = map (bit v) (rev [0..<unat n]) @ rest" "unat n \<le> 8"
  shows "\<exists>r'. ReadBits8 n r = (take_bit (unat n) v, r') \<and> pending r' = rest \<and> rEOF r' = rEOF r"
  using readLoop_pending [OF assms(1), of "0 :: u8"] assms(2)
  by (simp add: ReadBits8_def bits_value_map)

lemma writeFields_written:
  "writer_ok w \<Longrightarrow> writer_ok (writeFields grow fs w) \<and>
     written (writeFields grow fs w) = written w @ concat (map field_bits fs)"
proof (induction fs arbitrary: w)
  case (Cons f fs)
  obtain v n where f: "f = (v, n)" by force
  from writeLoop_written [OF Cons.prems, of grow v "unat n"]
  have w: "writer_ok (WriteBits grow v n w)" "written (WriteBits grow v n w) = written w @ field_bits f"
    by (simp_all add: WriteBits_def field_bits_def f)
  from Cons.IH [OF w(1)] w(2) show ?case by (simp add: writeFields_def f)
qed (simp add: writeFields_def)

lemma readFields_pending:
  "pending r = concat (map field_bits fs) @ rest \<Longrightarrow> \<forall>(v, n) \<in> set fs. unat n \<le> 32 \<Longrightarrow>
   \<exists>r'. readFields (map snd fs) r = (map (\<lambda>(v, n). take_bit (unat n) v) fs, r') \<and> pending r' = rest \<and> rEOF r' = rEOF r"
proof (induction fs arbitrary: r)
  case (Cons f fs)
  obtain v n where f: "f = (v, n)" by force
  from Cons.prems f have "pending r = map (bit v) (rev [0..<unat n]) @ concat (map field_bits fs) @ rest" "unat n \<le> 32"
    by (simp_all add: field_bits_def)
  from ReadBits_pending [OF this] obtain r1 where
    r1: "ReadBits n r = (take_bit (unat n) v, r1)" "pending r1 = concat (map field_bits fs) @ rest" "rEOF r1 = rEOF r"
    by blast
  from Cons.IH [OF r1(2)] Cons.prems(2) r1 show ?case by (auto simp: f)
qed simp

text \<open>
  Bits that were written are read back: fields of up to 32 bits, written one after the
  other from an empty writer and read with the same widths, give their values again (as many low
  bits as the width), never reach the end of the buffer, and leave only the zeros that fill the last
  byte; and this for every growth of the buffer.
\<close>

lemma bits_roundtrip:
  assumes "\<forall>(v, n) \<in> set fs. unat n \<le> 32"
  shows "\<exists>r. readFields (map snd fs) (NewReader (Bytes (writeFields grow fs (NewWriter [] cap)))) =
      (map (\<lambda>(v, n). take_bit (unat n) v) fs, r) \<and> \<not> rEOF r \<and>
    (\<exists>k < 8. pending r = replicate k False)"
proof -
  let ?w = "writeFields grow fs (NewWriter [] cap)"
  from writeFields_written [of "NewWriter [] cap" grow fs]
  have w: "writer_ok ?w" "written ?w = concat (map field_bits fs)" by simp_all
  have "pending (NewReader (Bytes ?w)) = concat (map field_bits fs) @ replicate (wbits ?w) False"
    using Bytes_written [OF w(1)] w(2) by simp
  from readFields_pending [OF this assms] w(1) show ?thesis
    by (auto simp: NewReader_def writer_ok_def)
qed

lemma golombSize_pending:
  "pending r = replicate k False @ True # rest \<Longrightarrow> k < fuel \<Longrightarrow> \<not> rEOF r \<Longrightarrow>
   \<exists>r'. golombSize z fuel r = (z + k, r') \<and> pending r' = rest \<and> \<not> rEOF r'"
proof (induction k arbitrary: r fuel z)
  case 0
  then obtain r' where "ReadBit r = (1, r')" "pending r' = rest" "rEOF r' = rEOF r"
    by (auto elim: ReadBit_pending [of r True rest])
  with 0 show ?case by (cases fuel) auto
next
  case (Suc k)
  then obtain r1 where r1: "ReadBit r = (0, r1)" "pending r1 = replicate k False @ True # rest" "rEOF r1 = rEOF r"
    by (auto elim: ReadBit_pending [of r False "replicate k False @ True # rest"])
  from Suc.prems(2) obtain g where g: "fuel = Suc g" by (cases fuel) auto
  from Suc.IH [OF r1(2), of g "z + 1"] Suc.prems r1 g show ?case by simp
qed

lemma sint_small: "uint (x :: u32) < 2 ^ 31 \<Longrightarrow> sint x = uint x \<and> sint (- x) = - uint x"
proof -
  assume x: "uint x < 2 ^ 31"
  have "0 \<le> uint x" by simp
  with x have b: "- (2 ^ 31) \<le> uint x" "- (2 ^ 31) \<le> - uint x" "- uint x < 2 ^ 31" by linarith+
  have "sint (- x) = signed_take_bit 31 (take_bit 32 (- uint x))"
    by (simp add: sint_uint uint_word_ariths take_bit_eq_mod)
  also have "\<dots> = signed_take_bit 31 (- uint x)" by (simp add: signed_take_bit_take_bit)
  also have "\<dots> = - uint x" using b(2,3) by (rule signed_take_bit_int_eq_self)
  finally show ?thesis
    using signed_take_bit_int_eq_self [OF b(1) x] by (simp add: sint_uint)
qed

lemma bit_unat [simp]: "bit (unat w) k \<longleftrightarrow> bit w k"
  by (simp add: bit_unsigned_iff)

lemma even_unat: "even (unat w) \<longleftrightarrow> even w"
  using bit_unat [of w 0] by (simp only: bit_0) simp

lemma signed_golomb:
  fixes n :: u32
  assumes "unat n + 1 < 2 ^ 32"
  shows "(if n AND 1 = 0 then sint (- (drop_bit 1 n)) else sint (drop_bit 1 (n + 1))) =
    (if even (unat n) then - (int (unat n) div 2) else (int (unat n) + 1) div 2)"
proof -
  let ?a = "drop_bit 1 n" and ?b = "drop_bit 1 (n + 1)"
  have e: "n AND 1 = 0 \<longleftrightarrow> even (unat n)"
    unfolding even_unat and_one_eq by (simp add: mod_2_eq_odd)
  have u: "uint (drop_bit 1 w) = int (unat w div 2)" for w :: u32
    unfolding uint_nat unat_drop_bit_eq drop_bit_eq_div [of 1 "unat w"] by simp
  have b: "uint (drop_bit 1 w) < 2 ^ 31" for w :: u32
    unfolding u using unsigned_less [of w, where 'a = nat] by simp
  have s: "unat (n + 1) = unat n + 1" using assms by (simp add: unat_word_ariths)
  have "sint (- ?a) = - int (unat n div 2)" "sint ?b = int ((unat n + 1) div 2)"
    using sint_small [OF b, of n] sint_small [OF b, of "n + 1"] unfolding u s by blast+
  then show ?thesis unfolding e by (simp add: zdiv_int add.commute)
qed

text \<open>
  The code of a number: as many zeros as its successor has bits below the highest one, and the
  successor.
\<close>

definition golomb_code :: "nat \<Rightarrow> u32 \<Rightarrow> bool list" where
  "golomb_code k n = replicate k False @ map (bit (n + 1)) (rev [0..<Suc k])"

text \<open>
  Exponential Golomb codes: for every number below \<open>2^32 - 1\<close>, \<open>ReadUEGolomb\<close> reads its
  code back to the number, from any position, and \<open>ReadSEGolomb\<close> to the signed number that the
  code stands for: 0, 1, -1, 2, -2 and so on.
\<close>

lemma bits_golomb:
  assumes "pending r = golomb_code k n @ rest" "2 ^ k \<le> unat n + 1" "unat n + 1 < 2 ^ Suc k" "k < 32" "\<not> rEOF r"
  shows "\<exists>r'. ReadUEGolomb r = (n, r') \<and> pending r' = rest \<and> \<not> rEOF r' \<and>
    ReadSEGolomb r = ((if even (unat n) then - (int (unat n) div 2) else (int (unat n) + 1) div 2), r')"
proof -
  let ?m = "n + 1"
  have m: "unat ?m = unat n + 1"
  proof -
    have "(2 :: nat) ^ Suc k \<le> 2 ^ 32" using assms(4) by (intro power_increasing) auto
    then have "unat n + 1 < 2 ^ 32" using assms(3) by linarith
    then show ?thesis by (simp add: unat_word_ariths)
  qed
  have d: "unat ?m div 2 ^ k = 1"
    using assms(2,3) m by (intro div_nat_eqI) simp_all
  have top: "bit ?m k"
    using d by (simp only: bit_unat [symmetric]) (simp add: bit_iff_odd)
  have "pending r = replicate k False @ True # map (bit ?m) (rev [0..<k]) @ rest"
    using assms(1) top by (simp add: golomb_code_def)
  from golombSize_pending [OF this, of 32 0] assms(4,5) obtain r1 where
    r1: "golombSize 0 32 r = (k, r1)" "pending r1 = map (bit ?m) (rev [0..<k]) @ rest" "\<not> rEOF r1" by auto
  have k: "unat (of_nat k :: u8) = k" using assms(4) by (simp add: unat_of_nat)
  from ReadBits_pending [of r1 ?m "of_nat k" rest] r1(2) assms(4) obtain r' where
    r': "ReadBits (of_nat k) r1 = (take_bit k ?m, r')" "pending r' = rest" "rEOF r' = rEOF r1" by (auto simp: k)
  have "unat (drop_bit k ?m) = 1"
    unfolding unat_drop_bit_eq drop_bit_eq_div [of k "unat ?m"] by (rule d)
  then have "drop_bit k ?m = 1" by (simp only: word_unat_eq_iff) simp
  then have "push_bit k 1 + take_bit k ?m = ?m" using bits_ident [of k ?m] by simp
  then have g: "ReadUEGolomb r = (n, r')" using r1(1) r'(1) by (simp add: ReadUEGolomb_def add.commute)
  have "unat n + 1 < 2 ^ 32"
    using m unsigned_less [of ?m, where 'a = nat] by simp
  from signed_golomb [OF this] g r' r1(3) show ?thesis by (simp add: ReadSEGolomb_def)
qed

text \<open>
  The bytes that are written whole: on a byte boundary they are appended; off a boundary they are
  written twice, once bit by bit and once more behind.
\<close>

lemma WriteByte_whole:
  assumes "writer_ok w"
  shows "(wbits w = 0 \<longrightarrow> writer_ok (WriteByte grow b w) \<and> written (WriteByte grow b w) = written w @ byte_bits b) \<and>
    (wbits w \<noteq> 0 \<longrightarrow> Len (WriteByte grow b w) = Len w + 2)"
proof (intro conjI impI)
  assume 0: "wbits w = 0"
  then have "wbuf (WriteByte grow b w) = wbuf w @ [b]" "wbits (WriteByte grow b w) = 0"
    by (simp_all add: WriteByte_def append_buf_def Let_def)
  with 0 show "writer_ok (WriteByte grow b w)" "written (WriteByte grow b w) = written w @ byte_bits b"
    by (simp_all add: writer_ok_def written_def)
next
  assume n: "wbits w \<noteq> 0"
  let ?w = "WriteBits8 grow b 8 w"
  from writeLoop_written [OF assms, of grow b 8]
  have w: "writer_ok ?w" "length (written ?w) = length (written w) + 8"
    by (simp_all add: WriteBits8_def del: upt_rec_numeral)
  have l: "8 * length (wbuf v) = length (written v) + wbits v" if "writer_ok v" for v
    using arg_cong [OF Bytes_written [OF that], of length] by (simp add: Bytes_def)
  have "8 * length (wbuf ?w) + wbits w = 8 * length (wbuf w) + 8 + wbits ?w"
    using l [OF assms] l [OF w(1)] w(2) by simp
  moreover have "wbits w < 8" "wbits ?w < 8" using assms w(1) by (simp_all add: writer_ok_def)
  ultimately have "length (wbuf ?w) = length (wbuf w) + 1" by linarith
  with n show "Len (WriteByte grow b w) = Len w + 2"
    by (simp add: WriteByte_def append_buf_def Len_def Let_def)
qed

subsection \<open>Rules for longer texts of bits\<close>

lemma writer_ok_simps [simp]:
  assumes "writer_ok w"
  shows "writer_ok (WriteBit grow b w)" "writer_ok (WriteBits grow v32 n w)" "writer_ok (WriteBits8 grow v8 n w)"
    "writer_ok (WriteBits16 grow v16 n w)" "writer_ok (WriteAllBits grow b n w)" "writer_ok (WriteBool grow t w)"
  using WriteBit_written [OF assms] writeLoop_written [OF assms, of grow v32] writeLoop_written [OF assms, of grow v8]
    writeLoop_written [OF assms, of grow v16] WriteAllBits_written [OF assms]
  by (simp_all add: WriteBits_def WriteBits8_def WriteBits16_def WriteBool_def)

lemma written_simps [simp]:
  assumes "writer_ok w"
  shows "written (WriteBit grow b w) = written w @ [bit b 0]"
    "written (WriteBits grow v32 n w) = written w @ map (bit v32) (rev [0..<unat n])"
    "written (WriteBits8 grow v8 n w) = written w @ map (bit v8) (rev [0..<unat n])"
    "written (WriteBits16 grow v16 n w) = written w @ map (bit v16) (rev [0..<unat n])"
    "written (WriteAllBits grow b n w) = written w @ replicate (unat n) (bit b 0)"
    "written (WriteBool grow t w) = written w @ [t]"
  using WriteBit_written [OF assms, of grow b] writeLoop_written [OF assms, of grow v32 "unat n"]
    writeLoop_written [OF assms, of grow v8 "unat n"] writeLoop_written [OF assms, of grow v16 "unat n"]
    WriteAllBits_written [OF assms, of grow b n] WriteBit_written [OF assms, of grow 0] WriteBit_written [OF assms, of grow 1]
  by (simp_all add: WriteBits_def WriteBits8_def WriteBits16_def WriteBool_def)

lemma byte_eqI:
  fixes a b :: u8
  assumes "bit a 0 = bit b 0" "bit a 1 = bit b 1" "bit a 2 = bit b 2" "bit a 3 = bit b 3"
    "bit a 4 = bit b 4" "bit a 5 = bit b 5" "bit a 6 = bit b 6" "bit a 7 = bit b 7"
  shows "a = b"
proof (rule bit_word_eqI)
  fix n assume "n < LENGTH(8)"
  then have "n = 0 \<or> n = 1 \<or> n = 2 \<or> n = 3 \<or> n = 4 \<or> n = 5 \<or> n = 6 \<or> n = 7" by fastforce
  with assms show "bit a n = bit b n" by auto
qed

text \<open>The bytes of a buffer, from its bits.\<close>

lemma byte_of_bits:
  "k < length b \<Longrightarrow> b ! k = bits_value (take 8 (drop (8 * k) (byte_list_bits b)))"
proof (induction b arbitrary: k)
  case (Cons x b)
  then show ?case by (cases k) simp_all
qed simp

lemma byte_list_bits_inj: "byte_list_bits a = byte_list_bits b \<Longrightarrow> a = b"
proof (rule nth_equalityI)
  assume e: "byte_list_bits a = byte_list_bits b"
  from arg_cong [OF this, of length] show l: "length a = length b" by simp
  show "a ! i = b ! i" if "i < length a" for i
    using byte_of_bits [OF that] byte_of_bits [of i b] that l e by simp
qed

end
