(* ===== verification/H265Rtp.thy ===== *)
theory H265Rtp
  imports AnnexB Bits GoWeb
begin

section \<open>H.265 over RTP\<close>

text \<open>
  Models \<open>EmitNalus\<close> of \<open>pkg/h264/payloader.go\<close>, the payloader of \<open>pkg/h265/payloader.go\<close> and
  \<open>RTPPay\<close> and \<open>RTPDepay\<close> of \<open>pkg/h265/rtp.go\<close>: how the pictures of a camera go to the clients of the
  RTSP server and how such packets are read. \<open>RTPPay\<close> makes a \<open>Payloader{}\<close>, so there are no decoding
  order numbers. The first sequence number is a parameter. A panic is \<open>None\<close>. The handler is done with
  a picture before the next packet, whose bytes go into the same array.
\<close>

subsection \<open>The units of a buffer\<close>

text \<open>\<open>nextInd\<close>: the loop at position \<open>i\<close>, with the number of zeros before it.\<close>

fun nextInd :: "nat \<Rightarrow> nat \<Rightarrow> bytes \<Rightarrow> (nat \<times> nat) option" where
  "nextInd i zeroCount [] = None"
| "nextInd i zeroCount (b # bs) =
     (if b = 0 then nextInd (i + 1) (zeroCount + 1) bs
      else if b = 1 \<and> 2 \<le> zeroCount then Some (i - zeroCount, zeroCount + 1)
      else nextInd (i + 1) 0 bs)"

lemma nextInd_bound:
  "nextInd i z bs = Some (s, n) \<Longrightarrow> z \<le> i \<Longrightarrow> i < s + n \<and> s + n \<le> i + length bs"
  by (induction i z bs rule: nextInd.induct) (force split: if_splits)+

function annexBUnits :: "bytes \<Rightarrow> nat \<Rightarrow> bytes list" where
  "annexBUnits nals prev =
     (case nextInd prev 0 (drop prev nals) of
        None \<Rightarrow> [drop prev nals]
      | Some (start, len) \<Rightarrow> take (start - prev) (drop prev nals) # annexBUnits nals (start + len))"
  by pat_completeness auto
termination
  by (relation "measure (\<lambda>(nals, prev). length nals - prev)") (auto dest!: nextInd_bound)

text \<open>With lengths: the sizes are 32-bit words, and the sum with 4 wraps.\<close>

function avccUnits :: "bytes \<Rightarrow> bytes list option" where
  "avccUnits nals =
     (let n = of_nat (length nals) :: u32; stop = 4 + get_be32 nals in
      if n < 4 \<or> n < stop then Some []
      else if stop < 4 then None
      else map_option ((#) (take (unat stop - 4) (drop 4 nals))) (avccUnits (drop (unat stop) nals)))"
  by pat_completeness auto
termination
proof (relation "measure length", simp, goal_cases)
  case (1 nals n stop)
  then have "4 \<le> unat stop" "unat stop \<le> unat n" "unat n \<le> length nals"
    by (auto simp: word_le_nat_alt not_less unsigned_of_nat take_bit_nat_less_eq_self)
  then show ?case by simp
qed

definition EmitNalus :: "bytes \<Rightarrow> bool \<Rightarrow> bytes list option" where
  "EmitNalus nals isAVC =
     (if isAVC then avccUnits nals
      else case nextInd 0 0 nals of
        None \<Rightarrow> Some [nals]
      | Some (start, len) \<Rightarrow> Some (annexBUnits nals (start + len)))"

declare annexBUnits.simps [simp del] avccUnits.simps [simp del]

subsection \<open>The payloader\<close>

definition newH265NALUHeader :: "u8 \<Rightarrow> u8 \<Rightarrow> u16" where
  "newH265NALUHeader hi lo = push_bit 8 (ucast hi) OR ucast lo"

definition headerType :: "u16 \<Rightarrow> u8" where
  "headerType h = ucast (drop_bit 9 (h AND push_bit 8 0x7E))"

definition headerLayerID :: "u16 \<Rightarrow> u8" where
  "headerLayerID h = ucast (drop_bit 3 (h AND (push_bit 8 1 OR 0xF8)))"

definition headerTID :: "u16 \<Rightarrow> u8" where
  "headerTID h = ucast (h AND 7)"

text \<open>What \<open>Payload\<close> keeps while it goes through the units.\<close>

record pay_state =
  payloads :: "bytes list"
  bufferedNALUs :: "bytes list"
  aggregationBufferSize :: nat

text \<open>An aggregation packet: its header has the least layer and the least temporal identifier.\<close>

definition aggregate :: "bytes list \<Rightarrow> bytes" where
  "aggregate ns =
     (let hs = map (\<lambda>n. newH265NALUHeader (n ! 0) (n ! 1)) ns;
          layer = fold (\<lambda>h l. if headerLayerID h < l then headerLayerID h else l) hs 255;
          tid = fold (\<lambda>h t. if headerTID h < t then headerTID h else t) hs 255
      in be16 (push_bit 9 48 OR push_bit 3 (ucast layer) OR ucast tid) @
         concat (map (\<lambda>n. be16 (of_nat (length n)) @ n) ns))"

definition flushBufferedNals :: "pay_state \<Rightarrow> pay_state option" where
  "flushBufferedNals s =
     (case bufferedNALUs s of
        [] \<Rightarrow> Some s
      | [n] \<Rightarrow> Some \<lparr>payloads = payloads s @ [n], bufferedNALUs = [], aggregationBufferSize = 0\<rparr>
      | ns \<Rightarrow>
          if list_ex (\<lambda>n. length n < 2) ns then None
          else Some \<lparr>payloads = payloads s @ [aggregate ns], bufferedNALUs = [], aggregationBufferSize = 0\<rparr>)"

text \<open>The first byte of a fragment, and the first byte of the unit again from that of a fragment.\<close>

definition fuIndicator :: "u8 \<Rightarrow> u8" where
  "fuIndicator hi = (hi AND 0x81) OR push_bit 1 49"

definition unitByte :: "u8 \<Rightarrow> u8 \<Rightarrow> u8" where
  "unitByte p0 h = (p0 AND 0x81) OR push_bit 1 (h AND 0x3F)"

definition unitType :: "u8 \<Rightarrow> u8" where
  "unitType b = drop_bit 1 b AND 0x3F"

definition fuFlags :: "u8 \<Rightarrow> u8" where
  "fuFlags h = drop_bit 6 h"

text \<open>The fragments of a unit of \<open>full\<close> bytes behind its header, of which \<open>d\<close> is left.\<close>

function fuLoop :: "nat \<Rightarrow> nat \<Rightarrow> u8 \<Rightarrow> u8 \<Rightarrow> bytes \<Rightarrow> bytes list" where
  "fuLoop maxSize full hi lo d =
     (if d = [] \<or> maxSize = 0 then []
      else
        let k = (if maxSize < length d then maxSize else length d);
            t = headerType (newH265NALUHeader hi lo);
            h = (if length d = full then t OR push_bit 7 1
                 else if length d - k = 0 then t OR push_bit 6 1 else t)
        in (fuIndicator hi # lo # h # take k d) # fuLoop maxSize full hi lo (drop k d))"
  by pat_completeness auto
termination by (relation "measure (\<lambda>(m, f, hi, lo, d). length d)") (auto simp: Let_def)

declare fuLoop.simps [simp del]

definition payNalu :: "bool \<Rightarrow> u16 \<Rightarrow> bytes \<Rightarrow> pay_state \<Rightarrow> pay_state option" where
  "payNalu skipAggregation mtu nalu s =
     (if nalu = [] then Some s
      else if length nalu \<le> unat mtu then
        (let marginal = length nalu + 2 in
         case (if unat mtu < aggregationBufferSize s + marginal then flushBufferedNals s else Some s) of
           None \<Rightarrow> None
         | Some s1 \<Rightarrow>
             let s2 = s1\<lparr>bufferedNALUs := bufferedNALUs s1 @ [nalu],
                         aggregationBufferSize := aggregationBufferSize s1 + marginal\<rparr>
             in if skipAggregation then flushBufferedNals s2 else Some s2)
      else if length nalu < 2 then None
      else
        let maxFUPayloadSize = int (unat mtu) - 3; d = drop 2 nalu in
        if maxFUPayloadSize = 0 \<or> d = [] then Some s
        else if maxFUPayloadSize < 0 then None
        else map_option
          (\<lambda>s1. s1\<lparr>payloads := payloads s1 @ fuLoop (nat maxFUPayloadSize) (length d) (nalu ! 0) (nalu ! 1) d\<rparr>)
          (flushBufferedNals s))"

fun payNalus :: "bool \<Rightarrow> u16 \<Rightarrow> bytes list \<Rightarrow> pay_state \<Rightarrow> pay_state option" where
  "payNalus skip mtu [] s = Some s"
| "payNalus skip mtu (n # ns) s = (case payNalu skip mtu n s of None \<Rightarrow> None | Some s1 \<Rightarrow> payNalus skip mtu ns s1)"

definition Payload :: "bool \<Rightarrow> u16 \<Rightarrow> bytes \<Rightarrow> bytes list option" where
  "Payload skip mtu payload =
     (if payload = [] then Some []
      else case EmitNalus payload True of
        None \<Rightarrow> None
      | Some ns \<Rightarrow>
          (case payNalus skip mtu ns \<lparr>payloads = [], bufferedNALUs = [], aggregationBufferSize = 0\<rparr> of
             None \<Rightarrow> None
           | Some s \<Rightarrow> map_option payloads (flushBufferedNals s)))"

subsection \<open>Packets\<close>

text \<open>\<open>RTPPay\<close>: the size of a payload, the packets of the payloads, and the handler.\<close>

definition payMTU :: "u16 \<Rightarrow> u16" where
  "payMTU mtu = (if mtu = 0 then 1472 else mtu) - 12"

fun rtpPackets :: "u32 \<Rightarrow> u16 \<Rightarrow> bytes list \<Rightarrow> rtp_packet list" where
  "rtpPackets ts sq [] = []"
| "rtpPackets ts sq (p # ps) =
     \<lparr>rtpVersion = 2, rtpMarker = (ps = []), rtpSeq = sq, rtpTS = ts, rtpPayload = p\<rparr> # rtpPackets ts (sq + 1) ps"

definition h265RTPPay :: "u16 \<Rightarrow> rtp_packet \<Rightarrow> u16 \<Rightarrow> (rtp_packet list \<times> u16) option" where
  "h265RTPPay mtu pkt sq =
     (if rtpVersion pkt \<noteq> 0 then Some ([pkt], sq)
      else map_option (\<lambda>ps. (rtpPackets (rtpTS pkt) sq ps, sq + of_nat (length ps)))
        (Payload False (payMTU mtu) (rtpPayload pkt)))"

text \<open>\<open>RTPDepay\<close>: the captured variables and the handler, with the parameter sets as a buffer.\<close>

record depay_state =
  dBuf :: bytes
  nuStart :: nat
  seqNum :: u16

definition psMaxSize :: nat where
  "psMaxSize = 128"

text \<open>The end of the handler: a packet with the marker completes the picture.\<close>

definition depayEnd :: "bool \<Rightarrow> rtp_packet \<Rightarrow> depay_state \<Rightarrow> rtp_packet list \<times> depay_state" where
  "depayEnd marker pkt s =
     (if \<not> marker then ([], s)
      else ([pkt\<lparr>rtpVersion := 0, rtpMarker := marker, rtpPayload := dBuf s\<rparr>], s\<lparr>dBuf := []\<rparr>))"

definition h265RTPDepay :: "bytes \<Rightarrow> rtp_packet \<Rightarrow> depay_state \<Rightarrow> (rtp_packet list \<times> depay_state) option" where
  "h265RTPDepay ps pkt s =
     (let d = rtpPayload pkt in
      if length d < 3 then Some ([], s)
      else
        let nuType = unitType (d ! 0); short = rtpMarker pkt \<and> length d < psMaxSize;
            marker = rtpMarker pkt \<and> \<not> (short \<and> nuType \<in> {32, 33, 34})
        in
        if short \<and> nuType \<in> {39, 40} then Some ([], s)
        else if dBuf s \<noteq> [] \<and> rtpSeq pkt - seqNum s \<noteq> 1 then Some ([], s\<lparr>dBuf := []\<rparr>)
        else
          let s0 = s\<lparr>seqNum := rtpSeq pkt\<rparr>; fu = fuFlags (d ! 2); t = d ! 2 AND 0x3F;
              hdr = [unitByte (d ! 0) (d ! 2), d ! 1]
          in
          if nuType \<noteq> 49 then
            Some (depayEnd marker pkt (s0\<lparr>dBuf := dBuf s @ be32 (of_nat (length d)) @ d\<rparr>))
          else if fu = 2 then
            (let b = (if dBuf s = [] \<and> 19 \<le> t \<and> t \<le> 21 then ps else dBuf s) in
             Some ([], s0\<lparr>dBuf := b @ [0, 0, 0, 0] @ hdr @ drop 3 d, nuStart := length b\<rparr>))
          else if fu = 0 then
            Some ([], if dBuf s = [] then s0 else s0\<lparr>dBuf := dBuf s @ drop 3 d\<rparr>)
          else if fu = 1 then
            (if dBuf s = [] then Some ([], s0)
             else
               let b = dBuf s @ drop 3 d; n = nuStart s in
               if length b + 4 < n then Some ([], s0\<lparr>dBuf := []\<rparr>)
               else if length b < n + 4 then None
               else Some (depayEnd marker pkt (s0\<lparr>dBuf := go_copy b n (be32 (of_nat (length b - n - 4)))\<rparr>)))
          else
            Some (depayEnd marker pkt (s0\<lparr>dBuf := dBuf s @ be32 (of_nat (length d) - 1) @ hdr @ drop 3 d\<rparr>)))"

fun depays :: "bytes \<Rightarrow> rtp_packet list \<Rightarrow> depay_state \<Rightarrow> (rtp_packet list \<times> depay_state) option" where
  "depays ps [] s = Some ([], s)"
| "depays ps (p # pk) s =
     (case h265RTPDepay ps p s of
        None \<Rightarrow> None
      | Some (out, s1) \<Rightarrow> map_option (\<lambda>(out', s2). (out @ out', s2)) (depays ps pk s1))"

subsection \<open>Headers\<close>

lemma u16_of_bytes: "bit (newH265NALUHeader hi lo) k \<longleftrightarrow> (if k < 8 then bit lo k else k < 16 \<and> bit hi (k - 8))"
  by (auto simp: newH265NALUHeader_def bit_simps)

lemma headerType_bytes: "headerType (newH265NALUHeader hi lo) = unitType hi"
  unfolding unitType_def by (rule byte_eqI) (simp_all add: headerType_def bit_simps u16_of_bytes numeral_eq_Suc)

lemma unitType_fuIndicator [simp]: "unitType (fuIndicator hi) = 49"
  unfolding unitType_def fuIndicator_def by (rule byte_eqI; simp add: bit_simps)

lemma fuFlags_simps [simp]:
  "fuFlags (unitType hi) = 0" "fuFlags (unitType hi OR 128) = 2" "fuFlags (unitType hi OR 64) = 1"
  unfolding unitType_def fuFlags_def by (rule byte_eqI; simp add: bit_simps)+

lemma unitByte_fragment [simp]: "unitByte (fuIndicator hi) (unitType hi OR 128) = hi"
  unfolding unitType_def unitByte_def fuIndicator_def
  by (rule byte_eqI) (simp_all add: bit_simps bit_double_iff mult.commute [of _ 2] numeral_eq_Suc)


subsection \<open>The payload format\<close>

text \<open>
  A reader of the payload format of RFC 7798 without decoding order numbers: single units, aggregation
  packets and fragments. The state is the unit of which fragments came; a unit may not be left open.
\<close>

definition nalType :: "bytes \<Rightarrow> u8" where
  "nalType p = unitType (p ! 0)"

function apUnits :: "bytes \<Rightarrow> bytes list option" where
  "apUnits d =
     (if d = [] then Some []
      else if length d < 2 \<or> length d < 2 + unat (get_be16 d) then None
      else map_option ((#) (take (unat (get_be16 d)) (drop 2 d))) (apUnits (drop (2 + unat (get_be16 d)) d)))"
  by pat_completeness auto
termination by (relation "measure length") auto

declare apUnits.simps [simp del]

fun rfcUnits :: "bytes option \<Rightarrow> bytes list \<Rightarrow> bytes list option" where
  "rfcUnits cur [] = (if cur = None then Some [] else None)"
| "rfcUnits cur (p # ps) =
     (if length p < 2 \<or> nalType p = 49 \<and> length p < 4 then None
      else if nalType p = 49 then
        (let fu = fuFlags (p ! 2); d = drop 3 p in
         case cur of
           None \<Rightarrow> if fu = 2 then rfcUnits (Some ([unitByte (p ! 0) (p ! 2), p ! 1] @ d)) ps else None
         | Some c \<Rightarrow> if fu = 1 then map_option ((#) (c @ d)) (rfcUnits None ps)
                     else if fu = 0 then rfcUnits (Some (c @ d)) ps else None)
      else if cur \<noteq> None then None
      else if nalType p = 48 then
        (case (apUnits (drop 2 p), rfcUnits None ps) of (Some us, Some vs) \<Rightarrow> Some (us @ vs) | _ \<Rightarrow> None)
      else map_option ((#) p) (rfcUnits None ps))"

lemma rfcUnits_append:
  "rfcUnits cur a = Some us \<Longrightarrow> rfcUnits cur (a @ b) = map_option ((@) us) (rfcUnits None b)"
proof (induction cur a arbitrary: us rule: rfcUnits.induct)
  case (1 cur)
  then show ?case by (cases "rfcUnits None b") (auto split: if_splits)
next
  case (2 cur p ps)
  then show ?case
    by (cases "rfcUnits None b") (auto simp: Let_def split: if_splits option.splits)
qed

text \<open>The fragments of a unit after the first.\<close>

lemma rfcUnits_fragments:
  assumes "0 < m" "d \<noteq> []" "length d < full"
  shows "rfcUnits (Some c) (fuLoop m full hi lo d) = Some [c @ d]"
  using assms(2,3)
proof (induction "length d" arbitrary: c d rule: less_induct)
  case less
  let ?k = "if m < length d then m else length d"
  show ?case
  proof (cases "m < length d")
    case True
    with less.prems assms(1) less.hyps [of "drop m d" "c @ take m d"] show ?thesis
      by (subst fuLoop.simps) (simp add: Let_def nalType_def headerType_bytes)
  next
    case False
    with less.prems assms(1) show ?thesis
      by (subst fuLoop.simps) (simp add: Let_def nalType_def headerType_bytes fuLoop.simps)
  qed
qed

lemma rfcUnits_fragmented:
  assumes "0 < m" "m < length d"
  shows "rfcUnits None (fuLoop m (length d) hi lo d) = Some [hi # lo # d]"
proof -
  have "d \<noteq> []" using assms by auto
  moreover have "rfcUnits (Some ([hi, lo] @ take m d)) (fuLoop m (length d) hi lo (drop m d)) = Some [[hi, lo] @ take m d @ drop m d]"
    using rfcUnits_fragments [OF assms(1), of "drop m d" "length d" "[hi, lo] @ take m d"] assms by simp
  ultimately show ?thesis using assms
    by (subst fuLoop.simps) (simp add: Let_def nalType_def headerType_bytes)
qed


subsection \<open>The payloader writes that format\<close>

definition sendable :: "bytes \<Rightarrow> bool" where
  "sendable n \<longleftrightarrow> 2 \<le> length n \<and> nalType n \<noteq> 48 \<and> nalType n \<noteq> 49"

lemma rfcUnits_single: "sendable n \<Longrightarrow> rfcUnits None [n] = Some [n]"
  by (simp add: sendable_def)

lemma fold_least:
  fixes a :: "'b::linorder"
  shows "fold (\<lambda>h l. if f h < l then f h else l) hs a \<le> a \<and> (\<forall>h \<in> set hs. fold (\<lambda>h l. if f h < l then f h else l) hs a \<le> f h)"
proof (induction hs arbitrary: a)
  case (Cons h hs)
  show ?case using Cons.IH [of "if f h < a then f h else a"] by (auto intro: order_trans split: if_splits)
qed simp

lemma headerLayerID_less: "headerLayerID h < 64"
proof -
  have "headerLayerID h = take_bit 6 (headerLayerID h)"
    by (rule byte_eqI) (simp_all add: headerLayerID_def bit_simps)
  then show ?thesis 
    using take_bit_nat_less_exp [of 6 "unat (headerLayerID h)"] by (simp add: word_less_nat_alt flip: unsigned_take_bit_eq)
qed

lemma aggregate_type:
  assumes "ns \<noteq> []"
  shows "nalType (aggregate ns) = 48"
proof -
  let ?hs = "map (\<lambda>n. newH265NALUHeader (n ! 0) (n ! 1)) ns"
  define layer where "layer = fold (\<lambda>h l. if headerLayerID h < l then headerLayerID h else l) ?hs 255"
  define tid where "tid = fold (\<lambda>h t. if headerTID h < t then headerTID h else t) ?hs 255"
  have "layer \<le> headerLayerID (hd ?hs)"
    unfolding layer_def by (intro fold_least [THEN conjunct2, rule_format] hd_in_set) (simp add: assms)
  then have "layer < 64" using headerLayerID_less [of "hd ?hs"] by (rule le_less_trans)
  then have l: "take_bit 6 layer = layer" 
    by (simp add: word_unat_eq_iff word_less_nat_alt unsigned_take_bit_eq take_bit_nat_eq_self)
  have b: "\<not> bit layer 6" "\<not> bit layer 7" by (subst l [symmetric], simp add: bit_simps)+
  have "unitType (ucast (drop_bit 8 (push_bit 9 48 OR push_bit 3 (ucast layer) OR ucast tid :: u16))) = 48"
    unfolding unitType_def by (rule byte_eqI) (simp_all add: bit_simps b)
  then show ?thesis
    by (simp add: nalType_def aggregate_def be16_def Let_def layer_def tid_def)
qed

lemma apUnits_sized:
  "\<forall>n \<in> set ns. length n < 2 ^ 16 \<Longrightarrow> apUnits (concat (map (\<lambda>n. be16 (of_nat (length n)) @ n) ns)) = Some ns"
proof (induction ns)
  case (Cons n ns)
  have "unat (of_nat (length n) :: u16) = length n" using Cons.prems by (simp add: unsigned_of_nat take_bit_nat_eq_self)
  moreover have "be16 x \<noteq> []" for x by (simp add: be16_def)
  ultimately show ?case using Cons by (subst apUnits.simps) simp
qed (simp add: apUnits.simps)

lemma length_aggregate: "length (aggregate ns) = 2 + sum_list (map (\<lambda>n. length n + 2) ns)"
  by (simp add: aggregate_def Let_def length_concat comp_def)

lemma rfcUnits_aggregate:
  assumes "ns \<noteq> []" "\<forall>n \<in> set ns. length n < 2 ^ 16"
  shows "rfcUnits None [aggregate ns] = Some ns"
proof -
  have "drop 2 (aggregate ns) = concat (map (\<lambda>n. be16 (of_nat (length n)) @ n) ns)"
    by (simp add: aggregate_def Let_def)
  with assms show ?thesis by (simp add: aggregate_type apUnits_sized length_aggregate)
qed


text \<open>
  The units so far are those of the payloads, then those that wait; the packets are no longer than the
  limit, aggregation packets no longer than two bytes more.
\<close>

definition pay_ok :: "nat \<Rightarrow> bytes list \<Rightarrow> pay_state \<Rightarrow> bool" where
  "pay_ok mtu us s \<longleftrightarrow>
     (\<exists>vs. rfcUnits None (payloads s) = Some vs \<and> us = vs @ bufferedNALUs s) \<and>
     (\<forall>n \<in> set (bufferedNALUs s). sendable n \<and> length n \<le> mtu) \<and>
     aggregationBufferSize s = sum_list (map (\<lambda>n. length n + 2) (bufferedNALUs s)) \<and>
     (length (bufferedNALUs s) \<le> 1 \<or> aggregationBufferSize s \<le> mtu) \<and>
     (\<forall>p \<in> set (payloads s). length p \<le> mtu \<or> nalType p = 48 \<and> length p \<le> mtu + 2)"

lemma flush_ok:
  assumes "pay_ok mtu us s" "mtu < 2 ^ 16"
  obtains s' where "flushBufferedNals s = Some s'" "pay_ok mtu us s'" "bufferedNALUs s' = []"
proof -
  obtain vs where v: "rfcUnits None (payloads s) = Some vs" "us = vs @ bufferedNALUs s"
    using assms(1) by (auto simp: pay_ok_def)
  have b: "\<forall>n \<in> set (bufferedNALUs s). sendable n \<and> length n \<le> mtu"
    "\<forall>p \<in> set (payloads s). length p \<le> mtu \<or> nalType p = 48 \<and> length p \<le> mtu + 2"
    using assms(1) by (simp_all add: pay_ok_def)
  consider "bufferedNALUs s = []" | n where "bufferedNALUs s = [n]" | n m ns where "bufferedNALUs s = n # m # ns"
    by (metis list.exhaust)
  then show thesis
  proof cases
    case 1
    with assms(1) that [of s] show ?thesis by (simp add: flushBufferedNals_def)
  next
    case (2 n)
    then have "rfcUnits None (payloads s @ [n]) = Some (vs @ [n])"
      using rfcUnits_append [OF v(1), of "[n]"] rfcUnits_single [of n] b(1) by simp
    with 2 b v that show ?thesis by (simp add: flushBufferedNals_def pay_ok_def)
  next
    case (3 n m ns)
    let ?ns = "bufferedNALUs s"
    have "rfcUnits None [aggregate ?ns] = Some ?ns"
      using 3 b(1) assms(2) by (intro rfcUnits_aggregate) auto
    then have "rfcUnits None (payloads s @ [aggregate ?ns]) = Some us"
      using rfcUnits_append [OF v(1), of "[aggregate ?ns]"] v(2) by simp
    moreover have "length (aggregate ?ns) \<le> mtu + 2" "nalType (aggregate ?ns) = 48"
      using assms(1) 3 by (auto simp: pay_ok_def length_aggregate aggregate_type)
    moreover have "\<not> list_ex (\<lambda>n. length n < 2) ?ns"
      using b(1) by (auto simp: list_ex_iff sendable_def)
    ultimately show ?thesis using 3 b(2) that by (simp add: flushBufferedNals_def pay_ok_def)
  qed
qed

lemma fuLoop_length: "0 < m \<Longrightarrow> p \<in> set (fuLoop m full hi lo d) \<Longrightarrow> length p \<le> m + 3"
  by (induction m full hi lo d rule: fuLoop.induct) (subst (asm) (2) fuLoop.simps, auto simp: Let_def split: if_splits)

lemma pay_ok_buffer:
  assumes "pay_ok mtu us s" "sendable n" "length n \<le> mtu"
    and "mtu < aggregationBufferSize s + (length n + 2) \<Longrightarrow> bufferedNALUs s = []"
  shows "pay_ok mtu (us @ [n]) (s\<lparr>bufferedNALUs := bufferedNALUs s @ [n],
    aggregationBufferSize := aggregationBufferSize s + (length n + 2)\<rparr>)"
proof -
  have "length (bufferedNALUs s @ [n]) \<le> 1 \<or> aggregationBufferSize s + (length n + 2) \<le> mtu"
    using assms(4) by (cases "mtu < aggregationBufferSize s + (length n + 2)") auto
  moreover have "\<exists>vs. rfcUnits None (payloads s) = Some vs \<and> us @ [n] = vs @ bufferedNALUs s @ [n]"
    using assms(1) by (auto simp: pay_ok_def)
  ultimately show ?thesis using assms(1-3) by (auto simp: pay_ok_def)
qed

lemma pay_ok_fragments:
  assumes "pay_ok mtu us s" "bufferedNALUs s = []" "rfcUnits None fs = Some [n]" "\<forall>p \<in> set fs. length p \<le> mtu"
  shows "pay_ok mtu (us @ [n]) (s\<lparr>payloads := payloads s @ fs\<rparr>)"
proof -
  have "rfcUnits None (payloads s) = Some us" using assms(1,2) by (auto simp: pay_ok_def)
  then have "rfcUnits None (payloads s @ fs) = Some (us @ [n])" using rfcUnits_append [of None "payloads s" us fs] assms(3) by simp
  then show ?thesis using assms by (auto simp: pay_ok_def)
qed

lemma payNalu_short:
  assumes "pay_ok (unat mtu) us s" "sendable n" "length n \<le> unat mtu"
  obtains s' where "payNalu skip mtu n s = Some s'" "pay_ok (unat mtu) (us @ [n]) s'"
proof -
  have m: "unat mtu < 2 ^ 16" using unsigned_less [of mtu, where 'a = nat] by simp
  have n: "n \<noteq> []" using assms(2) by (auto simp: sendable_def)
  obtain s1 where s1: "(if unat mtu < aggregationBufferSize s + (length n + 2) then flushBufferedNals s else Some s) = Some s1"
    "pay_ok (unat mtu) us s1" "unat mtu < aggregationBufferSize s1 + (length n + 2) \<Longrightarrow> bufferedNALUs s1 = []"
  proof (cases "unat mtu < aggregationBufferSize s + (length n + 2)")
    case True
    then show ?thesis using flush_ok [OF assms(1) m] that by auto
  qed (use assms(1) that in auto)
  note s2 = pay_ok_buffer [OF s1(2) assms(2,3) s1(3)]
  obtain s3 where "flushBufferedNals (s1\<lparr>bufferedNALUs := bufferedNALUs s1 @ [n],
      aggregationBufferSize := aggregationBufferSize s1 + (length n + 2)\<rparr>) = Some s3" "pay_ok (unat mtu) (us @ [n]) s3"
    by (rule flush_ok [OF s2 m])
  with s1(1) s2 assms(3) n that show ?thesis
    by (cases skip) (simp_all add: payNalu_def Let_def)
qed

lemma payNalu_long:
  assumes "pay_ok (unat mtu) us s" "sendable n" "unat mtu < length n" "4 \<le> mtu"
  obtains s' where "payNalu skip mtu n s = Some s'" "pay_ok (unat mtu) (us @ [n]) s'"
proof -
  have m: "4 \<le> unat mtu" "unat mtu < 2 ^ 16"
    using assms(4) unsigned_less [of mtu, where 'a = nat] by (simp_all add: word_le_nat_alt)
  obtain s1 where s1: "flushBufferedNals s = Some s1" "pay_ok (unat mtu) us s1" "bufferedNALUs s1 = []"
    by (rule flush_ok [OF assms(1) m(2)])
  obtain hi lo d where n: "n = hi # lo # d" using assms(2)
    by (cases n; cases "tl n") (auto simp: sendable_def)
  let ?fs = "fuLoop (unat mtu - 3) (length d) hi lo d"
  have f: "rfcUnits None ?fs = Some [n]" unfolding n using assms(3) n m by (intro rfcUnits_fragmented) auto
  have l: "\<forall>p \<in> set ?fs. length p \<le> unat mtu" using fuLoop_length [of "unat mtu - 3" _ "length d" hi lo d] m(1) by force
  obtain k where k: "unat mtu = k" "uint mtu = int k" by simp
  then have u: "nat (uint mtu - 3) = unat mtu - 3" "uint mtu \<noteq> 3" "\<not> uint mtu - 3 < 0" using m(1) by simp_all
  have "d \<noteq> []" using assms(3) n m(1) by auto
  with u have "payNalu skip mtu n s = Some (s1\<lparr>payloads := payloads s1 @ ?fs\<rparr>)"
    using assms(3) s1(1) unfolding payNalu_def n Let_def by simp
  with pay_ok_fragments [OF s1(2,3) f l] that show ?thesis by blast
qed

lemma payNalu_ok:
  assumes "pay_ok (unat mtu) us s" "sendable n" "4 \<le> mtu"
  obtains s' where "payNalu skip mtu n s = Some s'" "pay_ok (unat mtu) (us @ [n]) s'"
  using payNalu_short [OF assms(1,2)] payNalu_long [OF assms(1,2) _ assms(3)] by (metis linorder_not_less)

lemma payNalus_ok:
  "pay_ok (unat mtu) us s \<Longrightarrow> \<forall>n \<in> set ns. sendable n \<Longrightarrow> 4 \<le> mtu \<Longrightarrow>
   \<exists>s'. payNalus skip mtu ns s = Some s' \<and> pay_ok (unat mtu) (us @ ns) s'"
proof (induction ns arbitrary: us s)
  case (Cons n ns)
  then obtain s1 where "payNalu skip mtu n s = Some s1" "pay_ok (unat mtu) (us @ [n]) s1"
    using payNalu_ok [of mtu us s n skip] by auto
  with Cons.IH [of "us @ [n]" s1] Cons.prems show ?case by simp
qed simp


lemma unat_size: "x < 2 ^ 32 \<Longrightarrow> unat (of_nat x :: u32) = x"
  by (simp add: unsigned_of_nat take_bit_nat_eq_self)

lemma avccUnits_units:
  assumes "length (avcc_units us) < 2 ^ 32"
  shows "avccUnits (avcc_units us) = Some us"
  using assms
proof (induction us)
  case Nil
  then show ?case by (simp add: avccUnits.simps)
next
  case (Cons n us)
  let ?a = "avcc_units (n # us)" and ?w = "of_nat (length (avcc_units (n # us))) :: u32"
  have w: "unat ?w = length ?a" by (rule unat_size [OF Cons.prems])
  have s: "small n" using Cons.prems by (simp add: small_def)
  have g: "get_be32 ?a = of_nat (length n)" by (simp add: unit_bytes_def)
  have u: "unat (4 + of_nat (length n) :: u32) = 4 + length n"
  proof -
    have "4 + of_nat (length n) = (of_nat (4 + length n) :: u32)" by simp
    moreover have "4 + length n < 2 ^ 32" using Cons.prems by simp
    ultimately show ?thesis by (simp only: unat_size)
  qed
  have "\<not> (?w < 4 \<or> ?w < 4 + get_be32 ?a)" "\<not> 4 + get_be32 ?a < 4"
    unfolding g word_less_nat_alt w u by simp_all
  moreover have "take (unat (4 + get_be32 ?a) - 4) (drop 4 ?a) = n" "drop (unat (4 + get_be32 ?a)) ?a = avcc_units us"
    unfolding g u by (simp_all add: unit_bytes_def)
  ultimately show ?case using Cons by (subst avccUnits.simps) (simp only: Let_def if_False option.map, simp)
qed

lemma Payload_units:
  assumes "us \<noteq> []" "length (avcc_units us) < 2 ^ 32"
  shows "Payload skip mtu (avcc_units us) =
    (case payNalus skip mtu us \<lparr>payloads = [], bufferedNALUs = [], aggregationBufferSize = 0\<rparr> of
       None \<Rightarrow> None | Some s \<Rightarrow> map_option payloads (flushBufferedNals s))"
  using assms by (simp add: Payload_def EmitNalus_def avccUnits_units avcc_units_Nil)

text \<open>
  Claim C36. For every picture of units with a header of two bytes, of the types that cameras send, the
  payloader makes payloads that a reader of RFC 7798 reads as these units in order, whole, aggregated
  or in fragments. A payload is not longer than the limit, except that an aggregation packet may have
  two bytes more: its own header is not counted.
\<close>

theorem h265_payload_format:
  assumes "list_all sendable us" "length (avcc_units us) < 2 ^ 32" "4 \<le> mtu"
  shows "\<exists>ps. Payload skip mtu (avcc_units us) = Some ps \<and> rfcUnits None ps = Some us \<and>
    list_all (\<lambda>p. length p \<le> unat mtu \<or> nalType p = 48 \<and> length p \<le> unat mtu + 2) ps"
proof (cases "us = []")
  case False
  let ?s = "\<lparr>payloads = [], bufferedNALUs = [], aggregationBufferSize = 0\<rparr>"
  have "pay_ok (unat mtu) [] ?s" by (simp add: pay_ok_def)
  then obtain s where s: "payNalus skip mtu us ?s = Some s" "pay_ok (unat mtu) us s"
    using payNalus_ok [of mtu "[]" ?s us skip] assms(1,3) by (auto simp: list_all_iff)
  have "unat mtu < 2 ^ 16" using unsigned_less [of mtu, where 'a = nat] by simp
  then obtain s' where "flushBufferedNals s = Some s'" "pay_ok (unat mtu) us s'" "bufferedNALUs s' = []"
    by (rule flush_ok [OF s(2)])
  with s(1) False show ?thesis
    by (auto simp: Payload_units [OF False assms(2)] pay_ok_def list_all_iff)
qed (simp add: Payload_def)

text \<open>Two units that fill the limit with their sizes make a packet of two bytes more.\<close>

theorem h265_payload_format_witness:
  "\<exists>ps. Payload False 10 (avcc_units [[64, 1, 7], [66, 1, 7], [38, 1, 1, 2, 3, 4, 5, 6, 7, 8, 9]]) = Some ps \<and>
    rfcUnits None ps = Some [[64, 1, 7], [66, 1, 7], [38, 1, 1, 2, 3, 4, 5, 6, 7, 8, 9]] \<and>
    length (hd ps) = 12"
proof -
  let ?us = "[[64, 1, 7], [66, 1, 7], [38, 1, 1, 2, 3, 4, 5, 6, 7, 8, 9]] :: bytes list"
  have "list_all sendable ?us" by (simp add: sendable_def nalType_def unitType_def)
  then obtain ps where ps: "Payload False 10 (avcc_units ?us) = Some ps" "rfcUnits None ps = Some ?us"
    using h265_payload_format [of ?us 10 False] by (auto simp: unit_bytes_def)
  moreover have "map_option (\<lambda>ps. length (hd ps)) (Payload False 10 (avcc_units ?us)) = Some 12"
    by (subst Payload_units) (simp_all add: unit_bytes_def payNalu_def Let_def flushBufferedNals_def length_aggregate)
  ultimately show ?thesis by auto
qed


subsection \<open>Reading what the payloader wrote\<close>

text \<open>The payloads of one unit, and the pictures of which no two units fit into one packet.\<close>

definition unitPayloads :: "u16 \<Rightarrow> bytes \<Rightarrow> bytes list" where
  "unitPayloads mtu n =
     (if length n \<le> unat mtu then [n]
      else fuLoop (unat mtu - 3) (length (drop 2 n)) (n ! 0) (n ! 1) (drop 2 n))"

fun apart :: "u16 \<Rightarrow> bytes list \<Rightarrow> bool" where
  "apart mtu (n # m # us) \<longleftrightarrow>
     (unat mtu < length n \<or> unat mtu < length m \<or> unat mtu < length n + 2 + (length m + 2)) \<and> apart mtu (m # us)"
| "apart mtu us \<longleftrightarrow> True"

lemma payNalus_apart:
  assumes "\<forall>n \<in> set us. sendable n" "4 \<le> mtu" "apart mtu (bufferedNALUs s @ us)" "length (bufferedNALUs s) \<le> 1"
    "aggregationBufferSize s = sum_list (map (\<lambda>n. length n + 2) (bufferedNALUs s))"
    "\<forall>n \<in> set (bufferedNALUs s). length n \<le> unat mtu"
  shows "\<exists>s'. payNalus False mtu us s = Some s' \<and> map_option payloads (flushBufferedNals s') =
    Some (payloads s @ bufferedNALUs s @ concat (map (unitPayloads mtu) us))"
  using assms(1,3-6)
proof (induction us arbitrary: s)
  case Nil
  then show ?case by (cases "bufferedNALUs s") (auto simp: flushBufferedNals_def)
next
  case (Cons n us)
  let ?s1 = "\<lparr>payloads = payloads s @ bufferedNALUs s, bufferedNALUs = [], aggregationBufferSize = 0\<rparr>"
  have f: "flushBufferedNals s = Some ?s1"
    using Cons.prems(3,4) by (cases s; cases "bufferedNALUs s") (auto simp: flushBufferedNals_def)
  have a: "apart mtu (n # us)" using Cons.prems(2,3) by (cases "bufferedNALUs s") auto
  obtain hi lo d where n: "n = hi # lo # d" using Cons.prems(1)
    by (cases n; cases "tl n") (auto simp: sendable_def)
  show ?case
  proof (cases "length n \<le> unat mtu")
    case True
    have "payNalu False mtu n s = Some (?s1\<lparr>bufferedNALUs := [n], aggregationBufferSize := length n + 2\<rparr>)"
    proof (cases "bufferedNALUs s")
      case Nil
      with Cons.prems True n show ?thesis by (cases s) (auto simp: payNalu_def Let_def flushBufferedNals_def)
    next
      case (Cons m ms)
      with Cons.prems have "bufferedNALUs s = [m]" "unat mtu < length m + 2 + (length n + 2)" using True by auto
      with Cons.prems True n f show ?thesis by (simp add: payNalu_def Let_def)
    qed
    with Cons.IH [of "?s1\<lparr>bufferedNALUs := [n], aggregationBufferSize := length n + 2\<rparr>"] Cons.prems(1) a True
    show ?thesis by (simp add: unitPayloads_def)
  next
    case False
    obtain k where k: "unat mtu = k" "uint mtu = int k" by simp
    then have "nat (uint mtu - 3) = unat mtu - 3" "uint mtu \<noteq> 3" "\<not> uint mtu - 3 < 0" "d \<noteq> []"
      using assms(2) False n by (auto simp: word_le_nat_alt)
    then have "payNalu False mtu n s = Some (?s1\<lparr>payloads := payloads ?s1 @ unitPayloads mtu n\<rparr>)"
      using False f unfolding payNalu_def n Let_def unitPayloads_def by simp
    moreover have "apart mtu us" using a by (cases us) auto
    ultimately show ?thesis
      using Cons.IH [of "?s1\<lparr>payloads := payloads ?s1 @ unitPayloads mtu n\<rparr>"] Cons.prems(1) by simp
  qed
qed

lemma Payload_apart:
  assumes "\<forall>n \<in> set us. sendable n" "4 \<le> mtu" "apart mtu us" "length (avcc_units us) < 2 ^ 32"
  shows "Payload False mtu (avcc_units us) = Some (concat (map (unitPayloads mtu) us))"
proof (cases "us = []")
  case False
  with payNalus_apart [of us mtu "\<lparr>payloads = [], bufferedNALUs = [], aggregationBufferSize = 0\<rparr>"] assms
  show ?thesis by (auto simp: Payload_units [OF False assms(4)])
qed (simp add: Payload_def)

text \<open>Packets of which only the last has a marker, or none.\<close>

fun stamp :: "bool \<Rightarrow> u32 \<Rightarrow> u16 \<Rightarrow> bytes list \<Rightarrow> rtp_packet list" where
  "stamp mk ts sq [] = []"
| "stamp mk ts sq (p # ps) =
     \<lparr>rtpVersion = 2, rtpMarker = (mk \<and> ps = []), rtpSeq = sq, rtpTS = ts, rtpPayload = p\<rparr> # stamp mk ts (sq + 1) ps"

lemma rtpPackets_stamp: "rtpPackets ts sq ps = stamp True ts sq ps"
  by (induction ps arbitrary: sq) simp_all

lemma stamp_append:
  "b \<noteq> [] \<Longrightarrow> stamp mk ts sq (a @ b) = stamp False ts sq a @ stamp mk ts (sq + of_nat (length a)) b"
  by (induction a arbitrary: sq) (simp_all add: add.assoc)

lemma depays_append:
  "depays ps (a @ b) s = (case depays ps a s of None \<Rightarrow> None
     | Some (out, s1) \<Rightarrow> map_option (\<lambda>(out', s2). (out @ out', s2)) (depays ps b s1))"
proof (induction a arbitrary: s)
  case Nil
  show ?case by (cases "depays ps b s") auto
next
  case (Cons p a)
  then show ?case
    by (auto simp: option.map_comp comp_def split_def split: option.split)
qed


text \<open>What the end of a unit leaves: the picture goes out with the marker.\<close>

definition finish :: "bool \<Rightarrow> u32 \<Rightarrow> bytes \<Rightarrow> depay_state \<Rightarrow> rtp_packet list \<times> depay_state" where
  "finish mk ts b s =
     (if mk then ([\<lparr>rtpVersion = 0, rtpMarker = True, rtpSeq = seqNum s, rtpTS = ts, rtpPayload = b\<rparr>], s\<lparr>dBuf := []\<rparr>)
      else ([], s\<lparr>dBuf := b\<rparr>))"

lemma fuLoop_nonempty: "0 < m \<Longrightarrow> d \<noteq> [] \<Longrightarrow> fuLoop m full hi lo d \<noteq> []"
  by (subst fuLoop.simps) (simp add: Let_def)

lemma depay_fragment:
  assumes "rtpPayload pkt = fuIndicator hi # lo # h # d" "dBuf s \<noteq> []" "rtpSeq pkt = seqNum s + 1"
  shows "fuFlags h = 0 \<Longrightarrow> h265RTPDepay ps pkt s = Some ([], s\<lparr>seqNum := rtpSeq pkt, dBuf := dBuf s @ d\<rparr>)"
    "fuFlags h = 1 \<Longrightarrow> nuStart s + 4 \<le> length (dBuf s @ d) \<Longrightarrow>
     h265RTPDepay ps pkt s = Some (depayEnd (rtpMarker pkt) pkt
       (s\<lparr>seqNum := rtpSeq pkt, dBuf := go_copy (dBuf s @ d) (nuStart s) (be32 (of_nat (length (dBuf s @ d) - nuStart s - 4)))\<rparr>))"
  using assms by (simp_all add: h265RTPDepay_def Let_def)

lemma depay_fragments:
  assumes "0 < m" "d \<noteq> []" "length d < full" "dBuf s = B @ [0, 0, 0, 0] @ x" "nuStart s = length B" "sq = seqNum s + 1"
  shows "depays ps (stamp mk ts sq (fuLoop m full hi lo d)) s =
    Some (finish mk ts (B @ unit_bytes (x @ d)) (s\<lparr>seqNum := seqNum s + of_nat (length (fuLoop m full hi lo d))\<rparr>))"
  using assms(2-6)
proof (induction "length d" arbitrary: d x s sq rule: less_induct)
  case less
  let ?fs = "fuLoop m full hi lo (drop m d)"
  show ?case
  proof (cases "m < length d")
    case True
    let ?s1 = "s\<lparr>seqNum := sq, dBuf := B @ [0, 0, 0, 0] @ (x @ take m d)\<rparr>"
    let ?pkt = "\<lparr>rtpVersion = 2, rtpMarker = False, rtpSeq = sq, rtpTS = ts,
      rtpPayload = fuIndicator hi # lo # unitType hi # take m d\<rparr>"
    have l: "fuLoop m full hi lo d = (fuIndicator hi # lo # unitType hi # take m d) # ?fs"
      using True less.prems assms(1) by (subst fuLoop.simps) (simp add: Let_def headerType_bytes)
    have ne: "?fs \<noteq> []" using fuLoop_nonempty [OF assms(1), of "drop m d"] True by simp
    have "h265RTPDepay ps ?pkt s = Some ([], ?s1)"
      using depay_fragment(1) [of ?pkt hi lo "unitType hi" "take m d" s] less.prems by simp
    moreover have "depays ps (stamp mk ts (sq + 1) ?fs) ?s1 =
        Some (finish mk ts (B @ unit_bytes ((x @ take m d) @ drop m d)) (?s1\<lparr>seqNum := sq + of_nat (length ?fs)\<rparr>))"
      using less.hyps [of "drop m d" ?s1 "x @ take m d" "sq + 1"] True less.prems assms(1) by simp
    ultimately show ?thesis
      using ne less.prems(5) by (simp add: l finish_def add.commute add.left_commute)
  next
    case False
    have l: "fuLoop m full hi lo d = [fuIndicator hi # lo # (unitType hi OR 64) # d]"
      using False less.prems assms(1) by (subst fuLoop.simps) (simp add: Let_def headerType_bytes fuLoop.simps)
    let ?pkt = "\<lparr>rtpVersion = 2, rtpMarker = mk, rtpSeq = sq, rtpTS = ts,
      rtpPayload = fuIndicator hi # lo # (unitType hi OR 64) # d\<rparr>"
    have c: "go_copy (dBuf s @ d) (nuStart s) (be32 (of_nat (length (dBuf s @ d) - nuStart s - 4))) = B @ unit_bytes (x @ d)"
      using go_copy_fit [of B "length B" "[0, 0, 0, 0]" "be32 (of_nat (length (x @ d)))" "x @ d"] less.prems
      by (simp add: unit_bytes_def)
    have "h265RTPDepay ps ?pkt s = Some (depayEnd mk ?pkt (s\<lparr>seqNum := sq, dBuf := B @ unit_bytes (x @ d)\<rparr>))"
      using depay_fragment(2) [of ?pkt hi lo "unitType hi OR 64" d s] less.prems c by simp
    then show ?thesis using less.prems(5) by (cases mk) (simp_all add: l depayEnd_def finish_def)
  qed
qed


text \<open>
  A whole unit. A keyframe that comes in fragments gets the parameter sets in front when nothing was
  read before; a short parameter set or message with the marker does not end the picture.
\<close>

definition ending :: "u16 \<Rightarrow> bytes \<Rightarrow> bool" where
  "ending mtu n \<longleftrightarrow> unat mtu < length n \<or> psMaxSize \<le> length n \<or> nalType n \<notin> {32, 33, 34, 39, 40}"

definition unitStart :: "bytes \<Rightarrow> u16 \<Rightarrow> bytes \<Rightarrow> bytes \<Rightarrow> bytes" where
  "unitStart ps mtu n b = (if b = [] \<and> unat mtu < length n \<and> 19 \<le> nalType n \<and> nalType n \<le> 21 then ps else b)"

lemma restored_type: "unitType hi AND 63 = unitType hi" "(unitType hi OR 128) AND 63 = unitType hi"
  unfolding unitType_def by (rule byte_eqI; simp add: bit_simps)+

lemma depays_unit:
  assumes "sendable n" "3 \<le> length n" "4 \<le> mtu" "dBuf s = [] \<or> sq = seqNum s + 1" "mk \<Longrightarrow> ending mtu n"
  obtains s' where "depays ps (stamp mk ts sq (unitPayloads mtu n)) s =
      Some (finish mk ts (unitStart ps mtu n (dBuf s) @ unit_bytes n) s')"
    "seqNum s' = sq + of_nat (length (unitPayloads mtu n)) - 1"
proof (cases "length n \<le> unat mtu")
  case True
  let ?pkt = "\<lparr>rtpVersion = 2, rtpMarker = mk, rtpSeq = sq, rtpTS = ts, rtpPayload = n\<rparr>"
  have "h265RTPDepay ps ?pkt s = Some (depayEnd mk ?pkt (s\<lparr>seqNum := sq, dBuf := dBuf s @ unit_bytes n\<rparr>))"
    using assms True
    by (cases mk) (auto simp: h265RTPDepay_def Let_def sendable_def ending_def nalType_def unit_bytes_def)
  then show ?thesis using True that [of "s\<lparr>seqNum := sq\<rparr>"]
    by (cases mk) (simp_all add: unitPayloads_def unitStart_def depayEnd_def finish_def)
next
  case False
  obtain hi lo d where n: "n = hi # lo # d" using assms(1) by (cases n; cases "tl n") (auto simp: sendable_def)
  let ?m = "unat mtu - 3" and ?b = "unitStart ps mtu n (dBuf s)"
  have m: "0 < ?m" "?m < length d" using assms(3) False n by (auto simp: word_le_nat_alt)
  let ?fs = "fuLoop ?m (length d) hi lo (drop ?m d)"
  let ?s1 = "s\<lparr>seqNum := sq, dBuf := ?b @ [0, 0, 0, 0] @ [hi, lo] @ take ?m d, nuStart := length ?b\<rparr>"
  let ?pkt = "\<lparr>rtpVersion = 2, rtpMarker = False, rtpSeq = sq, rtpTS = ts,
    rtpPayload = fuIndicator hi # lo # (unitType hi OR 128) # take ?m d\<rparr>"
  have l: "unitPayloads mtu n = (fuIndicator hi # lo # (unitType hi OR 128) # take ?m d) # ?fs"
    unfolding unitPayloads_def using False m n by (subst fuLoop.simps) (auto simp: Let_def headerType_bytes)
  have ne: "?fs \<noteq> []" using fuLoop_nonempty [OF m(1), of "drop ?m d"] m(2) by simp
  have "h265RTPDepay ps ?pkt s = Some ([], ?s1)"
    using assms(4) m False by (auto simp: h265RTPDepay_def Let_def unitStart_def nalType_def n restored_type)
  moreover have "depays ps (stamp mk ts (sq + 1) ?fs) ?s1 =
      Some (finish mk ts (?b @ unit_bytes (([hi, lo] @ take ?m d) @ drop ?m d)) (?s1\<lparr>seqNum := seqNum ?s1 + of_nat (length ?fs)\<rparr>))"
    using m by (intro depay_fragments) auto
  moreover have "([hi, lo] @ take ?m d) @ drop ?m d = n" by (simp add: n)
  ultimately show ?thesis
    using ne by (intro that [of "?s1\<lparr>seqNum := sq + of_nat (length ?fs)\<rparr>"]) (simp_all add: l finish_def)
qed

lemma unitPayloads_nonempty:
  assumes "4 \<le> mtu"
  shows "unitPayloads mtu n \<noteq> []"
proof (cases "length n \<le> unat mtu")
  case False
  have "4 \<le> unat mtu" using assms by (simp add: word_le_nat_alt)
  then have "0 < unat mtu - 3" "drop 2 n \<noteq> []" using False by auto
  then have "fuLoop (unat mtu - 3) (length (drop 2 n)) (n ! 0) (n ! 1) (drop 2 n) \<noteq> []" by (rule fuLoop_nonempty)
  with False show ?thesis by (simp add: unitPayloads_def)
qed (simp add: unitPayloads_def)

lemma depays_units:
  assumes "us \<noteq> []" "\<forall>n \<in> set us. sendable n \<and> 3 \<le> length n" "4 \<le> mtu" "ending mtu (last us)"
    "dBuf s = [] \<or> sq = seqNum s + 1"
  shows "\<exists>s'. depays ps (stamp True ts sq (concat (map (unitPayloads mtu) us))) s =
      Some (finish True ts (unitStart ps mtu (hd us) (dBuf s) @ avcc_units us) s') \<and>
    seqNum s' = sq + of_nat (length (concat (map (unitPayloads mtu) us))) - 1"
  using assms
proof (induction us arbitrary: s sq)
  case (Cons n us)
  let ?rest = "concat (map (unitPayloads mtu) us)" and ?sq = "sq + of_nat (length (unitPayloads mtu n))"
  let ?b = "unitStart ps mtu n (dBuf s) @ unit_bytes n"
  have n: "sendable n" "3 \<le> length n" using Cons.prems(2) by simp_all
  have e: "ending mtu n" if "us = []" using Cons.prems(4) that by simp
  obtain s1 where s1: "depays ps (stamp (us = []) ts sq (unitPayloads mtu n)) s = Some (finish (us = []) ts ?b s1)"
    "seqNum s1 = ?sq - 1"
    by (rule depays_unit [OF n assms(3) Cons.prems(5) e])
  show ?case
  proof (cases "us = []")
    case True
    with s1 show ?thesis by auto
  next
    case False
    have ne: "?rest \<noteq> []" using False unitPayloads_nonempty [OF assms(3)] by (cases us) auto
    have b: "unitStart ps mtu (hd us) ?b = ?b" by (simp add: unitStart_def unit_bytes_def)
    have "\<exists>s2. depays ps (stamp True ts ?sq ?rest) (s1\<lparr>dBuf := ?b\<rparr>) =
        Some (finish True ts (unitStart ps mtu (hd us) (dBuf (s1\<lparr>dBuf := ?b\<rparr>)) @ avcc_units us) s2) \<and>
      seqNum s2 = ?sq + of_nat (length ?rest) - 1"
      by (rule Cons.IH) (use False Cons.prems(2-4) s1(2) in auto)
    then obtain s2 where s2: "depays ps (stamp True ts ?sq ?rest) (s1\<lparr>dBuf := ?b\<rparr>) = Some (finish True ts (?b @ avcc_units us) s2)"
      "seqNum s2 = ?sq + of_nat (length ?rest) - 1"
      using b by auto
    have "depays ps (stamp True ts sq (unitPayloads mtu n @ ?rest)) s = Some (finish True ts (?b @ avcc_units us) s2)"
      using s1(1) s2(1) False by (simp add: stamp_append [OF ne] depays_append finish_def)
    then show ?thesis using s2(2) by (intro exI [of _ s2]) (simp add: add.assoc)
  qed
qed simp



definition demoPicture :: "bytes list" where
  "demoPicture = [[38, 1, 10, 20, 30, 40, 50, 60, 70, 80, 90, 100, 110, 120], [2, 1, 5, 6, 7]]"


text \<open>
  Units that fit into one packet are aggregated, and \<open>RTPDepay\<close> does not take aggregation packets apart:
  two parameter sets are read as one unit of type 48.
\<close>

lemma h265_aggregate_not_read:
  "\<exists>u s'. nalType u = 48 \<and>
    (case Payload False 100 (avcc_units [[64, 1, 7], [66, 1, 7]]) of None \<Rightarrow> None
     | Some ps \<Rightarrow> depays [] (rtpPackets ts 1 ps) \<lparr>dBuf = [], nuStart = 0, seqNum = 0\<rparr>) =
    Some ([\<lparr>rtpVersion = 0, rtpMarker = True, rtpSeq = 1, rtpTS = ts, rtpPayload = unit_bytes u\<rparr>], s')"
proof -
  let ?u = "aggregate [[64, 1, 7], [66, 1, 7]]"
  have p: "Payload False 100 (avcc_units [[64, 1, 7], [66, 1, 7]]) = Some [?u]"
    by (subst Payload_units) (simp_all add: unit_bytes_def payNalu_def Let_def flushBufferedNals_def)
  have t: "unitType (?u ! 0) = 48" using aggregate_type [of "[[64, 1, 7], [66, 1, 7]]"] by (simp add: nalType_def)
  have l: "length ?u = 12" by (simp add: length_aggregate)
  have "depays [] (rtpPackets ts 1 [?u]) \<lparr>dBuf = [], nuStart = 0, seqNum = 0\<rparr> =
      Some ([\<lparr>rtpVersion = 0, rtpMarker = True, rtpSeq = 1, rtpTS = ts, rtpPayload = unit_bytes ?u\<rparr>],
        \<lparr>dBuf = [], nuStart = 0, seqNum = 1\<rparr>)"
    by (simp add: h265RTPDepay_def Let_def t l depayEnd_def unit_bytes_def)
  with p t show ?thesis by (intro exI [of _ ?u]) (simp add: nalType_def)
qed

text \<open>
  The check before the size of a fragmented unit is filled in compares the wrong way round: the last
  fragment of a unit whose first one is missing, behind a short unit, panics.
\<close>

lemma h265_depay_panics:
  "depays [] (stamp False 0 1 [[2, 1, 9], [98, 1, 0x81, 9], [98, 1, 0x41, 9]] @
     \<lparr>rtpVersion = 2, rtpMarker = True, rtpSeq = 4, rtpTS = 0, rtpPayload = [2, 1, 9]\<rparr> #
     stamp False 1 5 [[2, 1, 9], [98, 1, 0x41]]) \<lparr>dBuf = [], nuStart = 0, seqNum = 0\<rparr> = None"
  by (simp add: h265RTPDepay_def Let_def unitType_def unitByte_def fuFlags_def depayEnd_def go_copy_def)

end
