(* ===== verification/H264Rtp.thy ===== *)
theory H264Rtp
  imports H265Rtp
begin

section \<open>H.264 over RTP\<close>

text \<open>
  Models the payloader of \<open>pkg/h264/payloader.go\<close> and \<open>RTPPay\<close> and \<open>RTPDepay\<close> of \<open>pkg/h264/rtp.go\<close>.
  \<open>RTPDepay\<close> reads packets with \<open>codecs.H264Packet\<close> of another repository, which is the parameter
  \<open>depack\<close>: from its state and a payload it gives the units with their sizes, or \<open>None\<close> for an error,
  and its next state. A panic is \<open>None\<close>, and so is the loop over leading units that makes no progress,
  at a size of \<open>2 ^ 32 - 4\<close>.
\<close>

subsection \<open>The payloader\<close>

text \<open>The captured variables of \<open>Payload\<close>: the payloads so far and \<open>stapANalu\<close>.\<close>

record pay264_state =
  pays :: "bytes list"
  stapANalu :: "bytes option"

text \<open>The fragments of a unit, of which \<open>d\<close> remains.\<close>

function fuaLoop :: "nat \<Rightarrow> nat \<Rightarrow> u8 \<Rightarrow> u8 \<Rightarrow> bytes \<Rightarrow> bytes list" where
  "fuaLoop maxFragmentSize full naluRefIdc naluType d =
     (if d = [] \<or> maxFragmentSize = 0 then []
      else
        let k = min maxFragmentSize (length d);
            h = (if length d = full then naluType OR push_bit 7 1
                 else if length d - k = 0 then naluType OR push_bit 6 1 else naluType)
        in ((28 OR naluRefIdc) # h # take k d) # fuaLoop maxFragmentSize full naluRefIdc naluType (drop k d))"
  by pat_completeness auto
termination by (relation "measure (\<lambda>(m, f, r, t, d). length d)") (auto simp: Let_def)

declare fuaLoop.simps [simp del]

definition pay264Nalu :: "u16 \<Rightarrow> bytes \<Rightarrow> pay264_state \<Rightarrow> pay264_state" where
  "pay264Nalu mtu nalu s =
     (if nalu = [] then s
      else
        let naluType = nalu ! 0 AND 0x1F; naluRefIdc = nalu ! 0 AND 0x60 in
        if naluType = 9 \<or> naluType = 12 then s
        else if naluType = 7 \<or> naluType = 8 then
          s\<lparr>stapANalu := Some ((case stapANalu s of None \<Rightarrow> [0x78] | Some a \<Rightarrow> a) @ be16 (of_nat (length nalu)) @ nalu)\<rparr>
        else
          let s1 = (case stapANalu s of
                 None \<Rightarrow> s
               | Some a \<Rightarrow> s\<lparr>pays := pays s @ (if length a \<le> unat mtu then [a] else []), stapANalu := None\<rparr>)
          in if length nalu \<le> unat mtu then s1\<lparr>pays := pays s1 @ [nalu]\<rparr>
             else if unat mtu \<le> 2 then s1
             else s1\<lparr>pays := pays s1 @ fuaLoop (unat mtu - 2) (length nalu - 1) naluRefIdc naluType (drop 1 nalu)\<rparr>)"

definition Payload264 :: "bool \<Rightarrow> u16 \<Rightarrow> bytes \<Rightarrow> bytes option \<Rightarrow> (bytes list \<times> bytes option) option" where
  "Payload264 isAVC mtu payload stap =
     (if payload = [] then Some ([], stap)
      else map_option (\<lambda>ns. case fold (pay264Nalu mtu) ns \<lparr>pays = [], stapANalu = stap\<rparr> of s \<Rightarrow> (pays s, stapANalu s))
        (EmitNalus payload isAVC))"

text \<open>The handler of \<open>RTPPay\<close>: the state is the payloader's and the next sequence number.\<close>

definition h264RTPPay :: "u16 \<Rightarrow> rtp_packet \<Rightarrow> bytes option \<times> u16 \<Rightarrow> (rtp_packet list \<times> bytes option \<times> u16) option" where
  "h264RTPPay mtu pkt = (\<lambda>(stap, sq).
     if rtpVersion pkt \<noteq> 0 then Some ([pkt], stap, sq)
     else map_option (\<lambda>(ps, stap'). (rtpPackets (rtpTS pkt) sq ps, stap', sq + of_nat (length ps)))
       (Payload264 True (payMTU mtu) (rtpPayload pkt) stap))"

subsection \<open>Reading packets\<close>

type_synonym 'd depacker = "'d \<Rightarrow> bytes \<Rightarrow> bytes option \<times> 'd"

text \<open>
  The loop over the leading units when nothing was read yet: \<open>None\<close> panics, \<open>Some None\<close> drops the
  packet, \<open>Some (Some (start, rest))\<close> goes on with what the buffer starts with and the rest.
\<close>

function leadingUnits :: "bytes \<Rightarrow> bytes \<Rightarrow> (bytes \<times> bytes) option option" where
  "leadingUnits ps payload =
     (case h264NALUType payload of
        None \<Rightarrow> None
      | Some t \<Rightarrow>
          if t = 5 then Some (Some (ps, payload))
          else if t = 6 \<or> t = 9 then
            (let i = unat (4 + get_be32 payload) in
             if i = length payload then Some None
             else if i = 0 \<or> length payload < i then None
             else leadingUnits ps (drop i payload))
          else if t = 1 \<or> t = 7 \<or> t = 8 then Some (Some ([], payload))
          else Some None)"
  by pat_completeness auto
termination by (relation "measure (\<lambda>(ps, payload). length payload)") (auto simp: Let_def)

declare leadingUnits.simps [simp del]

text \<open>The size beyond which the collected bytes are dropped.\<close>

definition maxCollected :: nat where
  "maxCollected = 5 * 1024 * 1024"

text \<open>The handler: the state is the buffer and that of \<open>depack\<close>.\<close>

definition h264RTPDepay :: "'d depacker \<Rightarrow> bytes \<Rightarrow> rtp_packet \<Rightarrow> bytes \<times> 'd \<Rightarrow> (rtp_packet list \<times> bytes \<times> 'd) option" where
  "h264RTPDepay depack ps pkt = (\<lambda>(buf0, d0).
     case depack d0 (rtpPayload pkt) of
       (None, d) \<Rightarrow> Some ([], buf0, d)
     | (Some payload, d) \<Rightarrow>
         if payload = [] then Some ([], buf0, d)
         else
           let buf = (if maxCollected < length buf0 then [] else buf0);
               short = rtpMarker pkt \<and> length payload < psMaxSize
           in case (if short then h264NALUType payload else Some 0) of
             None \<Rightarrow> None
           | Some t \<Rightarrow>
               if t = 7 \<or> t = 8 then Some ([], buf @ payload, d)
               else if t = 6 then Some ([], buf, d)
               else (case (if buf = [] then leadingUnits ps payload else Some (Some (buf, payload))) of
                  None \<Rightarrow> None
                | Some None \<Rightarrow> Some ([], buf, d)
                | Some (Some (start, rest)) \<Rightarrow>
                    if \<not> rtpMarker pkt then Some ([], start @ rest, d)
                    else
                      let whole = start @ rest in
                      (case h264NALUType whole of
                         None \<Rightarrow> None
                       | Some u \<Rightarrow>
                           let whole1 = (if u = 7 \<and> psMaxSize \<le> unat (get_be32 whole) then FixAnnexBInAVCC whole else whole) in
                           Some ([pkt\<lparr>rtpVersion := 0, rtpPayload := whole1\<rparr>], [], d))))"

subsection \<open>The payload format\<close>

text \<open>
  A reader of the payload format of RFC 6184: single units, aggregation packets STAP-A, and fragments
  FU-A. The state is the unit of which fragments came.
\<close>

definition naluType264 :: "bytes \<Rightarrow> u8" where
  "naluType264 p = p ! 0 AND 0x1F"

fun rfc6184 :: "bytes option \<Rightarrow> bytes list \<Rightarrow> bytes list option" where
  "rfc6184 cur [] = (if cur = None then Some [] else None)"
| "rfc6184 cur (p # ps) =
     (if p = [] \<or> naluType264 p = 28 \<and> length p < 3 then None
      else if naluType264 p = 28 then
        (let fu = drop_bit 6 (p ! 1); d = drop 2 p in
         case cur of
           None \<Rightarrow> if fu = 2 then rfc6184 (Some ([(p ! 0 AND 0xE0) OR (p ! 1 AND 0x1F)] @ d)) ps else None
         | Some c \<Rightarrow> if fu = 1 then map_option ((#) (c @ d)) (rfc6184 None ps)
                     else if fu = 0 then rfc6184 (Some (c @ d)) ps else None)
      else if cur \<noteq> None then None
      else if naluType264 p = 24 then
        (case (apUnits (drop 1 p), rfc6184 None ps) of (Some us, Some vs) \<Rightarrow> Some (us @ vs) | _ \<Rightarrow> None)
      else map_option ((#) p) (rfc6184 None ps))"

lemma rfc6184_append:
  "rfc6184 cur a = Some us \<Longrightarrow> rfc6184 cur (a @ b) = map_option ((@) us) (rfc6184 None b)"
proof (induction cur a arbitrary: us rule: rfc6184.induct)
  case (1 cur)
  then show ?case by (cases "rfc6184 None b") (auto split: if_splits)
next
  case (2 cur p ps)
  then show ?case
    by (cases "rfc6184 None b") (auto simp: Let_def split: if_splits option.splits)
qed

text \<open>The bytes of a fragment, from the first byte of the unit.\<close>

lemma fua_bytes:
  fixes b :: u8
  shows "(28 OR (b AND 0x60)) AND 0x1F = 28" "drop_bit 6 (b AND 0x1F) = 0" "drop_bit 6 ((b AND 0x1F) OR 128) = 2"
    "drop_bit 6 ((b AND 0x1F) OR 64) = 1"
  by (rule byte_eqI; simp add: bit_simps)+

lemma fua_restored:
  fixes b :: u8
  assumes "\<not> bit b 7"
  shows "((28 OR (b AND 0x60)) AND 0xE0) OR (((b AND 0x1F) OR 128) AND 0x1F) = b"
  using assms by (intro byte_eqI) (simp_all add: bit_simps)

lemma rfc6184_fragment:
  "rfc6184 (Some c) (((28 OR (b AND 0x60)) # h # d) # ps) =
     (if d = [] then None
      else if drop_bit 6 h = 1 then map_option ((#) (c @ d)) (rfc6184 None ps)
      else if drop_bit 6 h = 0 then rfc6184 (Some (c @ d)) ps else None)"
  unfolding rfc6184.simps naluType264_def nth_Cons_0 fua_bytes(1) by (simp add: Let_def numeral_eq_Suc del: rfc6184.simps)

lemma rfc6184_fragments:
  assumes "0 < m" "d \<noteq> []" "length d < full"
  shows "rfc6184 (Some c) (fuaLoop m full (b AND 0x60) (b AND 0x1F) d) = Some [c @ d]"
  using assms(2,3)
proof (induction "length d" arbitrary: c d rule: less_induct)
  case less
  have l: "fuaLoop m full (b AND 0x60) (b AND 0x1F) d =
      ((28 OR (b AND 0x60)) # (if length d - min m (length d) = 0 then (b AND 0x1F) OR 64 else b AND 0x1F) # take m d) #
      fuaLoop m full (b AND 0x60) (b AND 0x1F) (drop m d)"
    using less.prems assms(1) by (subst fuaLoop.simps) (simp add: Let_def min_def)
  show ?case
  proof (cases "m < length d")
    case True
    then have "rfc6184 (Some (c @ take m d)) (fuaLoop m full (b AND 0x60) (b AND 0x1F) (drop m d)) = Some [(c @ take m d) @ drop m d]"
      using less.prems assms(1) by (intro less.hyps) auto
    with True less.prems assms(1) show ?thesis
      unfolding l rfc6184_fragment by (simp add: fua_bytes(2))
  next
    case False
    with less.prems assms(1) show ?thesis
      unfolding l rfc6184_fragment by (simp add: fua_bytes(4) fuaLoop.simps)
  qed
qed


lemma rfc6184_start:
  assumes "d \<noteq> []" "\<not> bit b 7"
  shows "rfc6184 None (((28 OR (b AND 0x60)) # ((b AND 0x1F) OR 128) # d) # ps) = rfc6184 (Some (b # d)) ps"
  unfolding rfc6184.simps naluType264_def nth_Cons_0 nth_Cons_Suc One_nat_def fua_bytes(1)
  using assms fua_restored [OF assms(2)] fua_bytes(3) [of b] by (simp add: Let_def numeral_eq_Suc del: rfc6184.simps)

lemma rfc6184_fragmented:
  assumes "0 < m" "m < length d" "\<not> bit b 7"
  shows "rfc6184 None (fuaLoop m (length d) (b AND 0x60) (b AND 0x1F) d) = Some [b # d]"
proof -
  have l: "fuaLoop m (length d) (b AND 0x60) (b AND 0x1F) d =
      ((28 OR (b AND 0x60)) # ((b AND 0x1F) OR 128) # take m d) # fuaLoop m (length d) (b AND 0x60) (b AND 0x1F) (drop m d)"
    using assms(1,2) by (subst fuaLoop.simps) (auto simp: Let_def min_def)
  have "rfc6184 (Some (b # take m d)) (fuaLoop m (length d) (b AND 0x60) (b AND 0x1F) (drop m d)) = Some [(b # take m d) @ drop m d]"
    using assms(1,2) by (intro rfc6184_fragments) auto
  moreover have "take m d \<noteq> []" using assms by auto
  ultimately show ?thesis unfolding l by (simp add: rfc6184_start [OF _ assms(3)] del: rfc6184.simps)
qed

text \<open>What units cameras send: with a clear first bit and none of the types of packets; sizes for STAP-A.\<close>

definition sendable264 :: "bytes \<Rightarrow> bool" where
  "sendable264 n \<longleftrightarrow> n \<noteq> [] \<and> \<not> bit (n ! 0) 7 \<and> naluType264 n \<noteq> 24 \<and> naluType264 n \<noteq> 28 \<and>
     (naluType264 n \<in> {7, 8} \<longrightarrow> length n < 2 ^ 16)"

definition kept264 :: "bytes \<Rightarrow> bool" where
  "kept264 n \<longleftrightarrow> naluType264 n \<noteq> 9 \<and> naluType264 n \<noteq> 12"

definition parameterSet :: "bytes \<Rightarrow> bool" where
  "parameterSet n \<longleftrightarrow> naluType264 n = 7 \<or> naluType264 n = 8"

text \<open>The parameter sets that wait, as the payloader holds them.\<close>

definition stapOf :: "bytes list \<Rightarrow> bytes option" where
  "stapOf ns = (if ns = [] then None else Some (0x78 # concat (map (\<lambda>n. be16 (of_nat (length n)) @ n) ns)))"

definition stapSize :: "bytes list \<Rightarrow> nat" where
  "stapSize ns = 1 + sum_list (map (\<lambda>n. 2 + length n) ns)"

text \<open>Every run of parameter sets fits into one packet, after those that wait.\<close>

fun stapFits :: "nat \<Rightarrow> bytes list \<Rightarrow> bytes list \<Rightarrow> bool" where
  "stapFits mtu pend [] \<longleftrightarrow> True"
| "stapFits mtu pend (n # us) \<longleftrightarrow>
     (if \<not> kept264 n then stapFits mtu pend us
      else if parameterSet n then stapFits mtu (pend @ [n]) us
      else (pend = [] \<or> stapSize pend \<le> mtu) \<and> stapFits mtu [] us)"

lemma length_stapOf: "ns \<noteq> [] \<Longrightarrow> length (the (stapOf ns)) = stapSize ns"
  by (simp add: stapOf_def stapSize_def length_concat comp_def)

lemma rfc6184_stap:
  assumes "ns \<noteq> []" "\<forall>n \<in> set ns. length n < 2 ^ 16"
  shows "rfc6184 None [the (stapOf ns)] = Some ns"
  using assms apUnits_sized [of ns] by (simp add: stapOf_def naluType264_def)

lemma rfc6184_single: "sendable264 n \<Longrightarrow> rfc6184 None [n] = Some [n]"
  by (simp add: sendable264_def)

text \<open>The units so far: those of the payloads, then those that wait.\<close>

definition pay264_ok :: "nat \<Rightarrow> bytes list \<Rightarrow> bytes list \<Rightarrow> pay264_state \<Rightarrow> bool" where
  "pay264_ok mtu us pend s \<longleftrightarrow>
     rfc6184 None (pays s) = Some us \<and> stapANalu s = stapOf pend \<and>
     (\<forall>n \<in> set pend. parameterSet n \<and> length n < 2 ^ 16) \<and> (\<forall>p \<in> set (pays s). length p \<le> mtu)"

lemma stapOf_snoc:
  "(case stapOf ns of None \<Rightarrow> [0x78] | Some a \<Rightarrow> a) @ be16 (of_nat (length n)) @ n = the (stapOf (ns @ [n]))"
  "stapOf (ns @ [n]) = Some (the (stapOf (ns @ [n])))"
  by (simp_all add: stapOf_def)

lemma pay264_flush:
  assumes "pay264_ok mtu us pend s" "pend = [] \<or> stapSize pend \<le> mtu"
  shows "pay264_ok mtu (us @ pend) [] (case stapANalu s of None \<Rightarrow> s
    | Some a \<Rightarrow> s\<lparr>pays := pays s @ (if length a \<le> mtu then [a] else []), stapANalu := None\<rparr>)"
proof (cases "pend = []")
  case True
  with assms(1) show ?thesis by (simp add: pay264_ok_def stapOf_def)
next
  case False
  let ?a = "the (stapOf pend)"
  have a: "stapANalu s = Some ?a" using assms(1) False by (simp add: pay264_ok_def stapOf_def)
  have "rfc6184 None [?a] = Some pend" using assms(1) False by (intro rfc6184_stap) (auto simp: pay264_ok_def)
  then have "rfc6184 None (pays s @ [?a]) = Some (us @ pend)"
    using rfc6184_append [of None "pays s" us "[?a]"] assms(1) by (simp add: pay264_ok_def)
  moreover have "length ?a \<le> mtu" using length_stapOf [OF False] assms(2) False by simp
  ultimately show ?thesis using assms(1) unfolding a by (simp add: pay264_ok_def stapOf_def)
qed

lemma fuaLoop_length: "p \<in> set (fuaLoop m full r t d) \<Longrightarrow> length p \<le> m + 2"
  by (induction m full r t d rule: fuaLoop.induct) (subst (asm) (2) fuaLoop.simps, auto simp: Let_def split: if_splits)


lemma pay264_skip: "\<not> kept264 n \<Longrightarrow> pay264Nalu mtu n s = s"
  by (auto simp: kept264_def pay264Nalu_def naluType264_def Let_def)

lemma pay264_parameterSet:
  assumes "pay264_ok (unat mtu) us pend s" "sendable264 n" "parameterSet n"
  shows "pay264_ok (unat mtu) us (pend @ [n]) (pay264Nalu mtu n s)"
proof -
  have "pay264Nalu mtu n s = s\<lparr>stapANalu := stapOf (pend @ [n])\<rparr>"
    using assms stapOf_snoc [of pend n]
    by (auto simp: pay264Nalu_def Let_def sendable264_def parameterSet_def naluType264_def pay264_ok_def)
  moreover have "length n < 2 ^ 16" using assms(2,3) by (auto simp: sendable264_def parameterSet_def)
  ultimately show ?thesis using assms(1,3) by (auto simp: pay264_ok_def)
qed

lemma pay264_unit:
  assumes "pay264_ok (unat mtu) us pend s" "sendable264 n" "kept264 n" "\<not> parameterSet n"
    "pend = [] \<or> stapSize pend \<le> unat mtu" "3 \<le> mtu"
  shows "pay264_ok (unat mtu) (us @ pend @ [n]) [] (pay264Nalu mtu n s)"
proof -
  have m: "3 \<le> unat mtu" using assms(6) by (simp add: word_le_nat_alt)
  define s1 where "s1 = (case stapANalu s of None \<Rightarrow> s
    | Some a \<Rightarrow> s\<lparr>pays := pays s @ (if length a \<le> unat mtu then [a] else []), stapANalu := None\<rparr>)"
  have s1: "pay264_ok (unat mtu) (us @ pend) [] s1" unfolding s1_def by (rule pay264_flush [OF assms(1,5)])
  obtain b d where n: "n = b # d" "\<not> bit b 7" using assms(2) by (cases n) (auto simp: sendable264_def)
  define fs where "fs = (if length n \<le> unat mtu then [n] else fuaLoop (unat mtu - 2) (length n - 1) (n ! 0 AND 0x60) (n ! 0 AND 0x1F) (drop 1 n))"
  have "rfc6184 None fs = Some [n]"
  proof (cases "length n \<le> unat mtu")
    case True
    then show ?thesis using rfc6184_single [OF assms(2)] by (simp add: fs_def)
  next
    case False
    then have "0 < unat mtu - 2" "unat mtu - 2 < length d" using n m by simp_all
    then show ?thesis using rfc6184_fragmented [of "unat mtu - 2" d b] n False by (simp add: fs_def)
  qed
  then have "rfc6184 None (pays s1 @ fs) = Some (us @ pend @ [n])"
    using rfc6184_append [of None "pays s1" "us @ pend" fs] s1 by (simp add: pay264_ok_def)
  moreover have "\<forall>p \<in> set fs. length p \<le> unat mtu"
  proof
    fix p assume "p \<in> set fs"
    then show "length p \<le> unat mtu"
      using fuaLoop_length [of p "unat mtu - 2" "length n - 1" "n ! 0 AND 0x60" "n ! 0 AND 0x1F" "drop 1 n"] m
      by (auto simp: fs_def split: if_splits)
  qed
  moreover have "pay264Nalu mtu n s = s1\<lparr>pays := pays s1 @ fs\<rparr>"
    using assms(2-4) m unfolding pay264Nalu_def s1_def fs_def
    by (simp add: Let_def sendable264_def kept264_def parameterSet_def naluType264_def)
  ultimately show ?thesis using s1 by (auto simp: pay264_ok_def)
qed

lemma pay264_fold:
  assumes "pay264_ok (unat mtu) us pend s" "\<forall>n \<in> set ns. sendable264 n" "stapFits (unat mtu) pend ns" "3 \<le> mtu"
  shows "\<exists>us' pend'. pay264_ok (unat mtu) us' pend' (fold (pay264Nalu mtu) ns s) \<and> us' @ pend' = us @ pend @ filter kept264 ns"
  using assms(1-3)
proof (induction ns arbitrary: us pend s)
  case (Cons n ns)
  have n: "sendable264 n" using Cons.prems(2) by simp
  consider "\<not> kept264 n" | "kept264 n" "parameterSet n" | "kept264 n" "\<not> parameterSet n" by blast
  then show ?case
  proof cases
    case 1
    with Cons show ?thesis by (simp add: pay264_skip)
  next
    case 2
    then show ?thesis
      using Cons.IH [OF pay264_parameterSet [OF Cons.prems(1) n 2(2)]] Cons.prems(2,3) by simp
  next
    case 3
    then show ?thesis
      using Cons.IH [OF pay264_unit [OF Cons.prems(1) n 3 _ assms(4)]] Cons.prems(2,3) by simp
  qed
qed auto

text \<open>
  Claim C38. For every picture of units of the types that cameras send, the payloader makes payloads,
  none longer than the limit, that a reader of RFC 6184 reads as the units in order: first the parameter
  sets that waited, then the picture without delimiters and filler, but for the parameter sets at its
  end, which wait for the next picture. Runs of parameter sets have to fit into one packet: longer ones
  are lost.
\<close>

theorem h264_payload_format:
  assumes "list_all sendable264 us" "list_all (\<lambda>n. parameterSet n \<and> length n < 2 ^ 16) pend" "stapFits (unat mtu) pend us"
    "length (avcc_units us) < 2 ^ 32" "3 \<le> mtu"
  shows "\<exists>ps vs pend'. Payload264 True mtu (avcc_units us) (stapOf pend) = Some (ps, stapOf pend') \<and>
    rfc6184 None ps = Some vs \<and> vs @ pend' = pend @ filter kept264 us \<and> list_all parameterSet pend' \<and>
    list_all (\<lambda>p. length p \<le> unat mtu) ps"
proof (cases "us = []")
  case True
  then show ?thesis using assms(2) by (intro exI [of _ "[]"] exI [of _ pend]) (auto simp: Payload264_def list_all_iff)
next
  case False
  let ?s = "\<lparr>pays = [], stapANalu = stapOf pend\<rparr>"
  have "pay264_ok (unat mtu) [] pend ?s" using assms(2) by (simp add: pay264_ok_def list_all_iff)
  then obtain vs pend' where "pay264_ok (unat mtu) vs pend' (fold (pay264Nalu mtu) us ?s)" "vs @ pend' = pend @ filter kept264 us"
    using pay264_fold [of mtu "[]" pend ?s us] assms(1,3,5) by (auto simp: list_all_iff)
  then show ?thesis
    using False assms(4) unfolding Payload264_def EmitNalus_def
    by (intro exI [of _ "pays (fold (pay264Nalu mtu) us ?s)"] exI [of _ vs] exI [of _ pend'])
      (simp add: avccUnits_units avcc_units_Nil pay264_ok_def list_all_iff)
qed

theorem h264_payload_format_witness:
  "\<exists>ps. Payload264 True 6 (avcc_units [[9, 0xF0], [0x67, 1], [0x65, 1, 2, 3, 4, 5, 6, 7]]) None = Some (ps, None) \<and>
    rfc6184 None ps = Some [[0x67, 1], [0x65, 1, 2, 3, 4, 5, 6, 7]]"
proof -
  let ?us = "[[9, 0xF0], [0x67, 1], [0x65, 1, 2, 3, 4, 5, 6, 7]] :: bytes list"
  have t: "list_all sendable264 ?us" "filter kept264 ?us = [[0x67, 1], [0x65, 1, 2, 3, 4, 5, 6, 7]]"
    "stapFits 6 [] ?us"
    by (simp_all add: sendable264_def naluType264_def kept264_def parameterSet_def stapSize_def bit_iff_odd)
  obtain ps vs pend where *: "Payload264 True 6 (avcc_units ?us) (stapOf []) = Some (ps, stapOf pend)" "rfc6184 None ps = Some vs"
    "vs @ pend = [[0x67, 1], [0x65, 1, 2, 3, 4, 5, 6, 7]]" "list_all parameterSet pend"
    using h264_payload_format [of ?us "[]" 6] t by (auto simp: unit_bytes_def)
  have "pend = []"
  proof (rule ccontr)
    assume "pend \<noteq> []"
    then have "last pend = [0x65, 1, 2, 3, 4, 5, 6, 7]" using arg_cong [OF *(3), of last] by simp
    moreover have "parameterSet (last pend)" using *(4) \<open>pend \<noteq> []\<close> by (simp add: list_all_iff)
    ultimately show False by (simp add: parameterSet_def naluType264_def)
  qed
  with * show ?thesis by (simp add: stapOf_def)
qed


subsection \<open>Reading a picture\<close>

fun depays264 :: "'d depacker \<Rightarrow> bytes \<Rightarrow> rtp_packet list \<Rightarrow> bytes \<times> 'd \<Rightarrow> (rtp_packet list \<times> bytes \<times> 'd) option" where
  "depays264 depack ps [] s = Some ([], s)"
| "depays264 depack ps (p # pk) s =
     (case h264RTPDepay depack ps p s of
        None \<Rightarrow> None
      | Some (out, s1) \<Rightarrow> map_option (\<lambda>(out', s2). (out @ out', s2)) (depays264 depack ps pk s1))"

text \<open>What \<open>depack\<close> makes of the payloads, one after the other.\<close>

fun chunksOf :: "'d depacker \<Rightarrow> 'd \<Rightarrow> bytes list \<Rightarrow> (bytes list \<times> 'd) option" where
  "chunksOf depack d [] = Some ([], d)"
| "chunksOf depack d (p # ps) =
     (case depack d p of
        (None, d1) \<Rightarrow> None
      | (Some c, d1) \<Rightarrow> map_option (\<lambda>(cs, d2). (c # cs, d2)) (chunksOf depack d1 ps))"

text \<open>Messages and delimiters at the start of a picture are left out.\<close>

definition leading :: "bytes \<Rightarrow> bool" where
  "leading n \<longleftrightarrow> naluType264 n = 6 \<or> naluType264 n = 9"

definition sized264 :: "bytes \<Rightarrow> bool" where
  "sized264 n \<longleftrightarrow> n \<noteq> [] \<and> length n + 4 < 2 ^ 32"

definition pictureStart :: "bytes \<Rightarrow> bytes list \<Rightarrow> bytes" where
  "pictureStart ps us = (if us \<noteq> [] \<and> naluType264 (hd us) = 5 then ps else [])"

definition startsPicture :: "bytes list \<Rightarrow> bool" where
  "startsPicture us \<longleftrightarrow> us = [] \<or> naluType264 (hd us) \<in> {1, 5, 7, 8}"

lemma h264NALUType_units: "sized264 n \<Longrightarrow> h264NALUType (avcc_units (n # us)) = Some (naluType264 n)"
  by (cases n) (simp_all add: h264NALUType_def sized264_def naluType264_def unit_bytes_def nth_append)

lemma unat_4_size: "length n + 4 < 2 ^ 32 \<Longrightarrow> unat (4 + of_nat (length n) :: u32) = 4 + length n"
proof -
  assume "length n + 4 < 2 ^ 32"
  moreover have "4 + of_nat (length n) = (of_nat (4 + length n) :: u32)" by simp
  ultimately show ?thesis by (simp only: unat_size add.commute)
qed

lemma leadingUnits_units:
  assumes "\<forall>n \<in> set us. sized264 n" "us \<noteq> []" "startsPicture (dropWhile leading us)"
  shows "leadingUnits ps (avcc_units us) =
    Some (case dropWhile leading us of [] \<Rightarrow> None | v # vs \<Rightarrow> Some (pictureStart ps (v # vs), avcc_units (v # vs)))"
  using assms
proof (induction us)
  case (Cons n us)
  have n: "sized264 n" using Cons.prems(1) by simp
  have g: "unat (4 + get_be32 (avcc_units (n # us))) = 4 + length n"
    using n unat_4_size [of n] by (simp add: sized264_def unit_bytes_def)
  show ?case
  proof (cases "leading n")
    case True
    then have t: "naluType264 n = 6 \<or> naluType264 n = 9" by (simp add: leading_def)
    have a: "length (avcc_units (n # us)) = 4 + length n + length (avcc_units us)"
      "drop (4 + length n) (avcc_units (n # us)) = avcc_units us" "length (avcc_units us) = 0 \<longleftrightarrow> us = []"
      by (simp_all add: avcc_units_Nil)
    have "leadingUnits ps (avcc_units (n # us)) = (if us = [] then Some None else leadingUnits ps (avcc_units us))"
      unfolding leadingUnits.simps [of ps "avcc_units (n # us)"] h264NALUType_units [OF n] option.case Let_def g a
      using t a(3) by auto
    with Cons True show ?thesis by simp
  next
    case False
    with Cons.prems(3) n show ?thesis
      by (subst leadingUnits.simps) (auto simp: h264NALUType_units startsPicture_def pictureStart_def leading_def simp del: avcc_units_simps(2))
  qed
qed simp


text \<open>The units of the picture that comes out: without the leading ones, a keyframe behind the parameter sets.\<close>

definition pictureUnits :: "bytes list \<Rightarrow> bytes list \<Rightarrow> bytes list" where
  "pictureUnits pss us =
     (let w = dropWhile leading us in (if w \<noteq> [] \<and> naluType264 (hd w) = 5 then pss else []) @ w)"

lemma avcc_units_append [simp]: "avcc_units (a @ b) = avcc_units a @ avcc_units b"
  by (simp add: avcc_units_def)

lemma pictureUnits_append:
  assumes "dropWhile leading v \<noteq> []"
  shows "pictureUnits pss (v @ c) = pictureUnits pss v @ c"
proof -
  have "dropWhile leading (v @ c) = dropWhile leading v @ c"
    using assms by (induction v) auto
  with assms show ?thesis by (simp add: pictureUnits_def Let_def)
qed

lemma dropWhile_leading_append: "dropWhile leading v = [] \<Longrightarrow> dropWhile leading (v @ c) = dropWhile leading c"
  by (simp add: dropWhile_append)

lemma startsPicture_prefix: "startsPicture (dropWhile leading (a @ b)) \<Longrightarrow> startsPicture (dropWhile leading a)"
  by (auto simp: dropWhile_append startsPicture_def split: if_splits)

lemma pictureUnits_Nil: "dropWhile leading v = [] \<Longrightarrow> pictureUnits pss v = []"
  by (simp add: pictureUnits_def)

text \<open>What the loop over the leading units makes of the units of a packet.\<close>

lemma leading_buffer:
  assumes "c \<noteq> []" "\<forall>n \<in> set c. sized264 n" "startsPicture (dropWhile leading (v @ c))"
  shows "(if avcc_units (pictureUnits pss v) = [] then leadingUnits (avcc_units pss) (avcc_units c)
     else Some (Some (avcc_units (pictureUnits pss v), avcc_units c))) =
   Some (if dropWhile leading (v @ c) = [] then None else
     Some (if dropWhile leading v = [] then (pictureStart (avcc_units pss) (dropWhile leading c), avcc_units (dropWhile leading c))
           else (avcc_units (pictureUnits pss v), avcc_units c)))"
proof (cases "dropWhile leading v = []")
  case True
  note e = dropWhile_leading_append [OF True]
  have "leadingUnits (avcc_units pss) (avcc_units c) = Some (case dropWhile leading c of [] \<Rightarrow> None
      | w # ws \<Rightarrow> Some (pictureStart (avcc_units pss) (w # ws), avcc_units (w # ws)))"
    by (rule leadingUnits_units [OF assms(2,1) assms(3) [unfolded e]])
  then show ?thesis unfolding e pictureUnits_Nil [OF True] if_P [OF True]
    by (cases "dropWhile leading c") (simp_all only: list.case list.distinct if_False if_True simp_thms avcc_units_simps(1))
next
  case False
  then have "dropWhile leading (v @ c) \<noteq> []" by (auto simp: dropWhile_append)
  moreover have "avcc_units (pictureUnits pss v) \<noteq> []" using False by (simp add: pictureUnits_def Let_def avcc_units_Nil)
  ultimately show ?thesis using False by auto
qed

lemma pictureUnits_joined:
  assumes "dropWhile leading (v @ c) \<noteq> []"
  shows "(case if dropWhile leading v = [] then (pictureStart (avcc_units pss) (dropWhile leading c), avcc_units (dropWhile leading c))
           else (avcc_units (pictureUnits pss v), avcc_units c) of (a, b) \<Rightarrow> a @ b) = avcc_units (pictureUnits pss (v @ c))"
  using assms
  by (auto simp: pictureUnits_append dropWhile_leading_append) (auto simp: pictureUnits_def pictureStart_def dropWhile_leading_append Let_def)

text \<open>What the handler does with the units of a packet, after those of the packets before.\<close>

lemma depay264_units:
  assumes "depack d (rtpPayload pkt) = (Some (avcc_units c), d1)" "c \<noteq> []" "\<forall>n \<in> set c. sized264 n"
    "startsPicture (dropWhile leading (v @ c))" "length (avcc_units (pictureUnits pss v)) \<le> maxCollected"
    "rtpMarker pkt \<Longrightarrow> naluType264 (hd c) \<notin> {6, 7, 8} \<or> psMaxSize \<le> length (avcc_units c)"
  shows "h264RTPDepay depack (avcc_units pss) pkt (avcc_units (pictureUnits pss v), d) =
    (if dropWhile leading (v @ c) = [] then Some ([], [], d1)
     else if \<not> rtpMarker pkt then Some ([], avcc_units (pictureUnits pss (v @ c)), d1)
     else case h264NALUType (avcc_units (pictureUnits pss (v @ c))) of
       None \<Rightarrow> None
     | Some u \<Rightarrow> Some ([pkt\<lparr>rtpVersion := 0, rtpPayload :=
         (if u = 7 \<and> psMaxSize \<le> unat (get_be32 (avcc_units (pictureUnits pss (v @ c))))
          then FixAnnexBInAVCC (avcc_units (pictureUnits pss (v @ c))) else avcc_units (pictureUnits pss (v @ c)))\<rparr>], [], d1))"
proof -
  let ?buf = "avcc_units (pictureUnits pss v)" and ?p = "avcc_units c"
  have p: "?p \<noteq> []" using assms(2) by (simp add: avcc_units_Nil)
  have t: "h264NALUType ?p = Some (naluType264 (hd c))"
    using assms(2,3) h264NALUType_units [of "hd c" "tl c"] by (cases c) simp_all
  obtain u where u: "(if rtpMarker pkt \<and> length ?p < psMaxSize then h264NALUType ?p else Some 0) = Some u"
    "u \<noteq> 7" "u \<noteq> 8" "u \<noteq> 6"
    using assms(6) t by (cases "rtpMarker pkt \<and> length ?p < psMaxSize") auto
  have b: "(if maxCollected < length ?buf then [] else ?buf) = ?buf" using assms(5) by simp
  have e: "dropWhile leading (v @ c) = [] \<Longrightarrow> ?buf = []" by (auto simp: pictureUnits_def Let_def dropWhile_eq_Nil_conv [THEN iffD2])
  obtain a z where az: "(if dropWhile leading v = [] then (pictureStart (avcc_units pss) (dropWhile leading c), avcc_units (dropWhile leading c))
           else (avcc_units (pictureUnits pss v), avcc_units c)) = (a, z)"
    by (metis surj_pair)
  note l = leading_buffer [OF assms(2,3,4), of pss, unfolded az]
  note h = h264RTPDepay_def prod.case assms(1) Let_def b option.case if_not_P [OF p] u(1) if_not_P [OF u(2)] l
  show ?thesis
  proof (cases "dropWhile leading (v @ c) = []")
    case True
    with u(2-4) e show ?thesis unfolding h if_P [OF True] by simp
  next
    case False
    have "a @ z = avcc_units (pictureUnits pss (v @ c))"
      using pictureUnits_joined [OF False, of pss, unfolded az] by simp
    with u(2-4) show ?thesis unfolding h if_not_P [OF False] by (auto split: option.split)
  qed
qed


lemma pictureUnits_mono: "length (avcc_units (pictureUnits pss v)) \<le> length (avcc_units (pictureUnits pss (v @ c)))"
  by (cases "dropWhile leading v = []") (simp_all add: pictureUnits_Nil pictureUnits_append)

lemma depay264_empty:
  "depack d (rtpPayload pkt) = (Some [], d1) \<Longrightarrow> h264RTPDepay depack ps pkt (b, d) = Some ([], b, d1)"
  by (simp add: h264RTPDepay_def)

lemma depays264_prefix:
  assumes "chunksOf depack d pls = Some (map avcc_units uss, d')"
    "\<forall>n \<in> set (concat uss). sized264 n" "startsPicture (dropWhile leading (v @ concat uss))"
    "length (avcc_units (pictureUnits pss (v @ concat uss))) \<le> maxCollected"
  shows "depays264 depack (avcc_units pss) (stamp False ts sq pls) (avcc_units (pictureUnits pss v), d) =
    Some ([], avcc_units (pictureUnits pss (v @ concat uss)), d')"
  using assms
proof (induction pls arbitrary: d sq v uss)
  case (Cons p pls)
  obtain c uss' d1 where c: "uss = c # uss'" "depack d p = (Some (avcc_units c), d1)"
    "chunksOf depack d1 pls = Some (map avcc_units uss', d')"
    using Cons.prems(1) by (cases uss) (auto split: prod.splits option.splits)
  let ?pkt = "\<lparr>rtpVersion = 2, rtpMarker = False, rtpSeq = sq, rtpTS = ts, rtpPayload = p\<rparr>"
  have s: "startsPicture (dropWhile leading (v @ c))"
    using startsPicture_prefix [of "v @ c" "concat uss'"] Cons.prems(3) c(1) by simp
  have l: "length (avcc_units (pictureUnits pss v)) \<le> maxCollected"
    using pictureUnits_mono [of pss v "concat uss"] Cons.prems(4) by simp
  have "h264RTPDepay depack (avcc_units pss) ?pkt (avcc_units (pictureUnits pss v), d) = Some ([], avcc_units (pictureUnits pss (v @ c)), d1)"
  proof (cases "c = []")
    case True
    with c(2) show ?thesis by (simp add: depay264_empty)
  next
    case False
    have "h264RTPDepay depack (avcc_units pss) ?pkt (avcc_units (pictureUnits pss v), d) =
        (if dropWhile leading (v @ c) = [] then Some ([], [], d1) else Some ([], avcc_units (pictureUnits pss (v @ c)), d1))"
      using depay264_units [of depack d ?pkt c d1 v pss] c(1,2) False s l Cons.prems(2) by simp
    then show ?thesis using pictureUnits_Nil [of "v @ c" pss] by (cases "dropWhile leading (v @ c) = []") auto
  qed
  moreover have "depays264 depack (avcc_units pss) (stamp False ts (sq + 1) pls) (avcc_units (pictureUnits pss (v @ c)), d1) =
      Some ([], avcc_units (pictureUnits pss ((v @ c) @ concat uss')), d')"
    using Cons.prems(2-4) c by (intro Cons.IH) auto
  ultimately show ?case using c(1) by simp
qed simp

lemma depays264_append:
  "depays264 depack ps (a @ b) s = (case depays264 depack ps a s of None \<Rightarrow> None
     | Some (out, s1) \<Rightarrow> map_option (\<lambda>(out', s2). (out @ out', s2)) (depays264 depack ps b s1))"
proof (induction a arbitrary: s)
  case Nil
  show ?case by (cases "depays264 depack ps b s") auto
next
  case (Cons p a)
  then show ?case
    by (auto simp: option.map_comp comp_def split_def split: option.split)
qed

lemma chunksOf_snoc:
  assumes "chunksOf depack d (pls @ [p]) = Some (cs, d')"
  obtains cs0 c d1 where "chunksOf depack d pls = Some (cs0, d1)" "depack d1 p = (Some c, d')" "cs = cs0 @ [c]"
  using assms
proof (induction pls arbitrary: d cs thesis)
  case Nil
  from Nil(2) show ?case by (auto split: prod.splits option.splits intro: Nil(1))
next
  case (Cons q pls)
  obtain c1 d2 cs1 where 1: "depack d q = (Some c1, d2)" "chunksOf depack d2 (pls @ [p]) = Some (cs1, d')" "cs = c1 # cs1"
    using Cons.prems(2) by (auto split: prod.splits option.splits)
  obtain cs0 c d1 where "chunksOf depack d2 pls = Some (cs0, d1)" "depack d1 p = (Some c, d')" "cs1 = cs0 @ [c]"
    using Cons.IH [OF _ 1(2)] by blast
  with 1 Cons.prems(1) [of "c1 # cs0" d1 c] show ?case by simp
qed

text \<open>
  Claim C39. When the packets of a picture carry its units, as \<open>depack\<close> reads them, \<open>RTPDepay\<close> hands on one
  packet with the time and the marker of the last one. It has the units in order, without the messages
  and delimiters at the start, and behind the parameter sets of the codec when the picture starts with
  a keyframe; nothing is left in the buffer. The last packet must not hold a short parameter set or
  message, and the picture must not start with a parameter set of 128 bytes.
\<close>

theorem h264_depay_picture:
  assumes "chunksOf depack d pls = Some (map avcc_units uss, d')" "uss \<noteq> []" "last uss \<noteq> []"
    "list_all sized264 (pss @ concat uss)" "startsPicture (dropWhile leading (concat uss))" "dropWhile leading (concat uss) \<noteq> []"
    "naluType264 (hd (last uss)) \<notin> {6, 7, 8} \<or> psMaxSize \<le> length (avcc_units (last uss))"
    "length (hd (pictureUnits pss (concat uss))) < psMaxSize \<or> naluType264 (hd (pictureUnits pss (concat uss))) \<noteq> 7"
    "length (avcc_units (pictureUnits pss (concat uss))) \<le> maxCollected"
  shows "depays264 depack (avcc_units pss) (rtpPackets ts sq pls) ([], d) =
    Some ([\<lparr>rtpVersion = 0, rtpMarker = True, rtpSeq = sq + of_nat (length pls) - 1, rtpTS = ts,
      rtpPayload = avcc_units (pictureUnits pss (concat uss))\<rparr>], [], d')"
proof -
  obtain pls0 p where p: "pls = pls0 @ [p]" using assms(1,2) by (cases pls rule: rev_cases) auto
  obtain cs0 c1 d1 where c1: "chunksOf depack d pls0 = Some (cs0, d1)" "depack d1 p = (Some c1, d')" "map avcc_units uss = cs0 @ [c1]"
    by (rule chunksOf_snoc [OF assms(1) [unfolded p]])
  obtain vs c where u: "uss = vs @ [c]" using assms(2) by (cases uss rule: rev_cases) auto
  then have vs: "cs0 = map avcc_units vs" "c1 = avcc_units c" using c1(3) by simp_all
  have a: "\<forall>n \<in> set pss. sized264 n" "\<forall>n \<in> set (concat vs). sized264 n" "\<forall>n \<in> set c. sized264 n" "c \<noteq> []"
    using assms(3,4) u by (auto simp: list_all_iff)
  let ?R = "pictureUnits pss (concat vs @ c)"
  let ?pkt = "\<lparr>rtpVersion = 2, rtpMarker = True, rtpSeq = sq + of_nat (length pls0), rtpTS = ts, rtpPayload = p\<rparr>"
  have b: "length (avcc_units (pictureUnits pss (concat vs))) \<le> maxCollected"
    using pictureUnits_mono [of pss "concat vs" c] assms(9) u by simp
  have 1: "depays264 depack (avcc_units pss) (stamp False ts sq pls0) ([], d) =
      Some ([], avcc_units (pictureUnits pss (concat vs)), d1)"
    using depays264_prefix [of depack d pls0 vs d1 "[]" pss ts sq] c1(1) vs(1) a(2) b assms(5) u
      startsPicture_prefix [of "concat vs" c] by (simp add: pictureUnits_Nil)
  have n: "dropWhile leading (concat vs @ c) \<noteq> []" using assms(6) u by simp
  then have "?R \<noteq> []" unfolding pictureUnits_def Let_def by (metis append_is_Nil_conv)
  then obtain m ms where m: "?R = m # ms" by (cases ?R) auto
  have "set (dropWhile leading (concat vs @ c)) \<subseteq> set (concat vs @ c)" by (meson set_dropWhileD subsetI)
  moreover have "m \<in> set ?R" using m by simp
  ultimately have "m \<in> set (pss @ concat vs @ c)" by (auto simp: pictureUnits_def Let_def split: if_splits)
  then have sz: "sized264 m" using a by auto
  have t: "h264NALUType (avcc_units ?R) = Some (naluType264 m)" unfolding m by (rule h264NALUType_units [OF sz])
  have g: "unat (get_be32 (avcc_units ?R)) = length m"
    using sz unit_size [of m "avcc_units ms"] by (simp add: m sized264_def small_def)
  have "h264RTPDepay depack (avcc_units pss) ?pkt (avcc_units (pictureUnits pss (concat vs)), d1) =
      Some ([?pkt\<lparr>rtpVersion := 0, rtpPayload := avcc_units ?R\<rparr>], [], d')"
    using depay264_units [of depack d1 ?pkt c d' "concat vs" pss] c1(2) vs(2) a(3,4) assms(5,7,8) u b n
    by (simp add: t g m [symmetric]) (auto simp: m)
  with 1 show ?thesis by (simp add: p u rtpPackets_stamp stamp_append depays264_append)
qed


text \<open>Whole units as packets: a delimiter and a keyframe.\<close>

theorem h264_depay_picture_witness:
  "depays264 (\<lambda>d p. (Some (unit_bytes p), d)) (avcc_units [[0x67, 1], [0x68, 2]]) (rtpPackets 90000 7 [[9, 0xF0], [0x65, 1, 2]]) ([], ()) =
    Some ([\<lparr>rtpVersion = 0, rtpMarker = True, rtpSeq = 8, rtpTS = 90000,
      rtpPayload = avcc_units [[0x67, 1], [0x68, 2], [0x65, 1, 2]]\<rparr>], [], ())"
proof -
  let ?uss = "[[[9, 0xF0]], [[0x65, 1, 2]]] :: bytes list list" and ?pss = "[[0x67, 1], [0x68, 2]] :: bytes list"
  let ?depack = "\<lambda>d p. (Some (unit_bytes p), d) :: bytes option \<times> unit"
  have w: "dropWhile leading (concat ?uss) = [[0x65, 1, 2]]" by (simp add: leading_def naluType264_def)
  have r: "pictureUnits ?pss (concat ?uss) = [[0x67, 1], [0x68, 2], [0x65, 1, 2]]"
    unfolding pictureUnits_def w by (simp add: naluType264_def)
  have c: "chunksOf ?depack () [[9, 0xF0], [0x65, 1, 2]] = Some (map avcc_units ?uss, ())" by simp
  have s: "list_all sized264 (?pss @ concat ?uss)" "startsPicture (dropWhile leading (concat ?uss))"
    "naluType264 (hd (last ?uss)) \<notin> {6, 7, 8} \<or> psMaxSize \<le> length (avcc_units (last ?uss))"
    unfolding w by (simp_all add: sized264_def startsPicture_def naluType264_def)
  show ?thesis
    using h264_depay_picture [OF c _ _ s(1,2) _ s(3), of 90000 7]
    unfolding r w by (simp add: psMaxSize_def unit_bytes_def maxCollected_def)
qed

end
