(* ===== verification/VideoCodec.thy ===== *)
theory VideoCodec
  imports H264Rtp GoText
begin

section \<open>Codecs of pictures\<close>

text \<open>
  Models the codecs that the producers make from the first keyframe (\<open>AVCCToCodec\<close> of
  \<open>pkg/h264/avcc.go\<close> and \<open>pkg/h265/avcc.go\<close>), how the parameter sets are read back from the line of
  the session description (\<open>GetParameterSet\<close>, \<open>GetProfileLevelID\<close>), and the buffers of units
  (\<open>JoinNALU\<close>, \<open>SplitNALU\<close>, \<open>RepairAVCC\<close>). A panic is \<open>None\<close>. A slice expression may reach behind the
  length of a slice: \<open>behind\<close> is what the array has there. The errors of the decoders of base 64 and
  hexadecimal are ignored, so what they wrote before an error counts.
\<close>

subsection \<open>Decoders that stop at an error\<close>

fun b64_prefix :: "string \<Rightarrow> string" where
  "b64_prefix (a # b # c # d # s) =
     (case (b64_val a, b64_val b) of
        (Some x, Some y) \<Rightarrow>
          (if c = CHR ''='' then (if d = CHR ''='' then [char_of (x * 4 + y div 16)] else [])
           else case b64_val c of
             None \<Rightarrow> []
           | Some z \<Rightarrow>
               if d = CHR ''='' then [char_of (x * 4 + y div 16), char_of (y mod 16 * 16 + z div 4)]
               else (case b64_val d of
                 None \<Rightarrow> []
               | Some w \<Rightarrow>
                   [char_of (x * 4 + y div 16), char_of (y mod 16 * 16 + z div 4), char_of (z mod 4 * 64 + w)] @ b64_prefix s))
      | _ \<Rightarrow> [])"
| "b64_prefix s = []"

definition bytes_text :: "bytes \<Rightarrow> string" where
  "bytes_text b = map (\<lambda>x. char_of (unat x)) b"

definition b64_text :: "bytes \<Rightarrow> string" where
  "b64_text b = b64_encode (bytes_text b)"

definition b64_bytes :: "string \<Rightarrow> bytes" where
  "b64_bytes s = bytes_of (b64_prefix (filter (\<lambda>c. c \<noteq> CHR 0x0A \<and> c \<noteq> CHR 0x0D) s))"

fun hex_prefix :: "string \<Rightarrow> bytes" where
  "hex_prefix (c # d # cs) =
     (case (hex_value c, hex_value d) of (Some a, Some b) \<Rightarrow> of_nat (16 * a + b) # hex_prefix cs | _ \<Rightarrow> [])"
| "hex_prefix s = []"

subsection \<open>Buffers of units\<close>

definition JoinNALU :: "bytes list \<Rightarrow> bytes" where
  "JoinNALU nalus = concat (map (\<lambda>n. be32 (of_nat (length n)) @ n) (filter (\<lambda>n. n \<noteq> []) nalus))"

function SplitNALU :: "bytes \<Rightarrow> bytes list option" where
  "SplitNALU avcc =
     (if length avcc < 4 then None
      else
        let sz = unat (get_be32 avcc) + 4 in
        if sz < length avcc then map_option ((#) (take sz avcc)) (SplitNALU (drop sz avcc)) else Some [avcc])"
  by pat_completeness auto
termination by (relation "measure length") (auto simp: Let_def)

function NALUTypes :: "bytes \<Rightarrow> u8 list option" where
  "NALUTypes avcc =
     (case h264NALUType avcc of
        None \<Rightarrow> None
      | Some t \<Rightarrow>
          let sz = 4 + unat (get_be32 avcc) in
          if sz < length avcc then map_option ((#) t) (NALUTypes (drop sz avcc)) else Some [t])"
  by pat_completeness auto
termination by (relation "measure length") (auto simp: Let_def)

declare SplitNALU.simps [simp del] NALUTypes.simps [simp del]

text \<open>\<open>RepairAVCC\<close>: the payload that the handler goes on with.\<close>

definition h264RepairAVCC :: "bytes \<Rightarrow> bytes \<Rightarrow> bytes option" where
  "h264RepairAVCC ps payload =
     (case h264NALUType payload of
        None \<Rightarrow> None
      | Some t \<Rightarrow>
          (let sz = unat (get_be32 payload) + 4 in
           if t = 6 \<and> length payload < sz then None
           else
             let p1 = (if t = 6 then drop sz payload else payload) in
             case h264NALUType p1 of
               None \<Rightarrow> None
             | Some t1 \<Rightarrow> Some (if t1 = 5 then ps @ p1 else p1)))"

definition h265RepairAVCC :: "bytes \<Rightarrow> bytes \<Rightarrow> bytes option" where
  "h265RepairAVCC ps payload =
     map_option (\<lambda>t. if t \<in> {19, 20, 21} then ps @ payload else payload) (h265NALUType payload)"

subsection \<open>Codecs\<close>

record video_codec =
  vcName :: string
  vcRate :: nat
  vcFmtp :: string
  vcPayloadType :: u8

text \<open>The loops of \<open>AVCCToCodec\<close>: what is written for the units that are left.\<close>

function h264Fmtp :: "bytes \<Rightarrow> bytes \<Rightarrow> string option" where
  "h264Fmtp behind avcc =
     (let sz = 4 + unat (get_be32 avcc) in
      if length avcc < 4 \<or> length avcc < sz then Some []
      else case h264NALUType avcc of
        None \<Rightarrow> None
      | Some t \<Rightarrow>
          let unit = drop 4 (take sz avcc) in
          if t = 7 \<and> length (avcc @ behind) < 8 then None
          else map_option ((@)
              (if t = 7 then '';profile-level-id='' @ hex_text (take 3 (drop 5 (avcc @ behind))) @ '';sprop-parameter-sets='' @ b64_text unit
               else if t = 8 then '','' @ b64_text unit else []))
            (h264Fmtp behind (drop sz avcc)))"
  by pat_completeness auto
termination by (relation "measure (\<lambda>(behind, avcc). length avcc)") (auto simp: Let_def)

definition h264AVCCToCodec :: "bytes \<Rightarrow> bytes \<Rightarrow> video_codec option" where
  "h264AVCCToCodec behind avcc =
     map_option (\<lambda>s. \<lparr>vcName = ''H264'', vcRate = 90000, vcFmtp = ''packetization-mode=1'' @ s, vcPayloadType = 255\<rparr>)
       (h264Fmtp behind avcc)"

function h265Fmtp :: "bytes \<Rightarrow> bytes \<Rightarrow> string option" where
  "h265Fmtp behind avcc =
     (let sz = 4 + unat (get_be32 avcc) in
      case h265NALUType avcc of
        None \<Rightarrow> None
      | Some t \<Rightarrow>
          if t \<in> {32, 33, 34} \<and> length (avcc @ behind) < sz then None
          else
            let s = (if t = 32 then '';sprop-vps='' else if t = 33 then '';sprop-sps='' else if t = 34 then '';sprop-pps='' else []) @
                  (if t \<in> {32, 33, 34} then b64_text (drop 4 (take sz (avcc @ behind))) else [])
            in if sz < length avcc then map_option ((@) s) (h265Fmtp behind (drop sz avcc)) else Some s)"
  by pat_completeness auto
termination by (relation "measure (\<lambda>(behind, avcc). length avcc)") (auto simp: Let_def)

definition h265AVCCToCodec :: "bytes \<Rightarrow> bytes \<Rightarrow> video_codec option" where
  "h265AVCCToCodec behind avcc =
     map_option (\<lambda>s. \<lparr>vcName = ''H265'', vcRate = 90000, vcFmtp = ''profile-id=1'' @ s, vcPayloadType = 255\<rparr>)
       (h265Fmtp behind avcc)"

declare h264Fmtp.simps [simp del] h265Fmtp.simps [simp del]

text \<open>\<open>GetFmtpLine\<close> of H.264 ends at the last unit, without a check of its size.\<close>

function GetFmtpLine :: "bytes \<Rightarrow> bytes \<Rightarrow> string option" where
  "GetFmtpLine behind avc =
     (let sz = 4 + unat (get_be32 avc) in
      case h264NALUType avc of
        None \<Rightarrow> None
      | Some t \<Rightarrow>
          if t = 7 \<and> (length (avc @ behind) < 8 \<or> length (avc @ behind) < sz) \<or> t = 8 \<and> length (avc @ behind) < sz then None
          else
            let unit = drop 4 (take sz (avc @ behind));
                s = (if t = 7 then '';profile-level-id='' @ hex_text (take 3 (drop 5 (avc @ behind))) @ '';sprop-parameter-sets='' @ b64_text unit
                     else if t = 8 then '','' @ b64_text unit else [])
            in if sz < length avc then map_option ((@) s) (GetFmtpLine behind (drop sz avc)) else Some s)"
  by pat_completeness auto
termination by (relation "measure (\<lambda>(behind, avc). length avc)") (auto simp: Let_def)

declare GetFmtpLine.simps [simp del]

subsection \<open>Reading the line\<close>

definition h264GetParameterSet :: "string \<Rightarrow> bytes \<times> bytes" where
  "h264GetParameterSet fmtp =
     (if fmtp = [] then ([], [])
      else
        let s = Between fmtp ''sprop-parameter-sets='' '';'' in
        if s = [] then ([], [])
        else case cut CHR '','' s of
          None \<Rightarrow> ([], [])
        | Some (a, b) \<Rightarrow> (b64_bytes a, b64_bytes b))"

definition h265GetParameterSet :: "string \<Rightarrow> bytes \<times> bytes \<times> bytes" where
  "h265GetParameterSet fmtp =
     (if fmtp = [] then ([], [], [])
      else (b64_bytes (Between fmtp ''sprop-vps='' '';''), b64_bytes (Between fmtp ''sprop-sps='' '';''),
            b64_bytes (Between fmtp ''sprop-pps='' '';'')))"

text \<open>\<open>GetProfileLevelID\<close>: profile, constraints and level, each limited to values that players know.\<close>

definition profileConf :: "string \<Rightarrow> bytes" where
  "profileConf fmtp =
     (let s = Between fmtp ''sprop-parameter-sets='' '','' in
      if s \<noteq> [] then (let sps = b64_bytes s in if 4 \<le> length sps then take 3 (drop 1 sps) else [])
      else
        let t = Between fmtp ''profile-level-id='' '';'' in
        if t \<noteq> [] then hex_prefix t else [])"

definition upper_hex :: "u8 \<Rightarrow> string" where
  "upper_hex b = to_upper (hex_text [b])"

definition GetProfileLevelID :: "string \<Rightarrow> string" where
  "GetProfileLevelID fmtp =
     (let conf = (if fmtp \<noteq> [] then profileConf fmtp else []);
          profile = (if length conf = 3 \<and> conf ! 0 \<in> {0x42, 0x4D} then conf ! 0 else 0x64);
          capab = (if length conf = 3 \<and> conf ! 1 \<in> {0xE0, 0x40} then conf ! 1 else 0);
          level = (if length conf = 3 \<and> conf ! 2 \<in> {30, 31, 40} then conf ! 2 else 41)
      in upper_hex profile @ upper_hex capab @ upper_hex level)"

subsection \<open>Parameter sets through the line\<close>

lemma b64_prefix_encode: "b64_prefix (b64_encode s) = s"
  by (induction s rule: b64_encode.induct) simp_all

lemma of_char_byte: "of_char (char_of (unat (x :: u8))) = x"
proof -
  have "of_nat (of_char (char_of (unat x))) = (of_nat (unat x) :: u8)"
    using unsigned_less [of x, where 'a = nat] by (simp only: of_char_of) simp
  then show ?thesis by (simp only: of_nat_of_char) simp
qed

lemma bytes_of_text [simp]: "bytes_of (bytes_text b) = b"
  by (induction b) (simp_all add: bytes_of_def bytes_text_def of_char_byte)

lemma b64_bytes_text [simp]: "b64_bytes (b64_text b) = b"
proof -
  have "filter (\<lambda>c. c \<noteq> CHR 0x0A \<and> c \<noteq> CHR 0x0D) (b64_text b) = b64_text b"
    unfolding b64_text_def by (rule filter_True) (blast dest: b64_encode_chars)
  then show ?thesis by (simp add: b64_bytes_def) (simp add: b64_text_def b64_prefix_encode)
qed

text \<open>The characters of base 64 are none of those that the line has a meaning for.\<close>

lemma b64_char_cases: "n < 64 \<Longrightarrow> b64_val c = None \<Longrightarrow> b64_char n \<noteq> c"
  by auto

lemma b64_encode_no: "b64_val c = None \<Longrightarrow> c \<noteq> CHR ''='' \<Longrightarrow> c \<notin> set (b64_encode s)"
  by (induction s rule: b64_encode.induct) (auto dest: b64_char_cases [rotated, of c] simp del: b64_char_not)

lemma b64_text_no:
  "CHR '';'' \<notin> set (b64_text b)" "CHR '','' \<notin> set (b64_text b)" "CHR ''-'' \<notin> set (b64_text b)"
  unfolding b64_text_def by (rule b64_encode_no; code_simp)+

lemma b64_text_Nil [simp]: "b64_text b = [] \<longleftrightarrow> b = []"
  unfolding b64_text_def by (cases "bytes_text b" rule: b64_encode.cases) (auto simp: bytes_text_def)

lemma index_of_head: "c \<notin> set a \<Longrightarrow> index_of (a @ (c # q) @ r) (c # q) = Some (length a)"
  by (rule index_of_found) (auto simp: is_prefix_iff nth_append Cons_eq_append_conv drop_Cons' hd_drop_conv_nth dest!: arg_cong [of _ _ hd])

text \<open>What a unit adds to the line.\<close>

definition part264 :: "bytes \<Rightarrow> string" where
  "part264 n =
     (if naluType264 n = 7 then '';profile-level-id='' @ hex_text (take 3 (drop 1 n)) @ '';sprop-parameter-sets='' @ b64_text n
      else if naluType264 n = 8 then '','' @ b64_text n else [])"

lemma h264Fmtp_units:
  assumes "\<forall>n \<in> set us. sized264 n \<and> (naluType264 n = 7 \<longrightarrow> 4 \<le> length n)"
  shows "h264Fmtp behind (avcc_units us) = Some (concat (map part264 us))"
  using assms
proof (induction us)
  case Nil
  then show ?case by (simp add: h264Fmtp.simps)
next
  case (Cons n us)
  let ?a = "avcc_units (n # us)"
  have n: "sized264 n" "naluType264 n = 7 \<longrightarrow> 4 \<le> length n" using Cons.prems by simp_all
  have g: "4 + unat (get_be32 ?a) = 4 + length n" using n(1) unit_size [of n "avcc_units us"] by (simp add: sized264_def small_def)
  have l: "length ?a = 4 + length n + length (avcc_units us)" "drop (4 + length n) ?a = avcc_units us"
    "drop 4 (take (4 + length n) ?a) = n"
    by (simp_all add: unit_bytes_def)
  have p: "take 3 (drop 5 (?a @ behind)) = take 3 (drop 1 n)" if "4 \<le> length n"
    using that by (simp add: unit_bytes_def)
  have "h264Fmtp behind ?a = map_option ((@) (part264 n)) (h264Fmtp behind (avcc_units us))"
    unfolding h264Fmtp.simps [of behind ?a] Let_def g l(2,3) h264NALUType_units [OF n(1)] option.case
    using n(2) p l(1) by (auto simp: part264_def)
  with Cons show ?case by simp
qed

lemma concat_filtered: "(\<And>n. \<not> P n \<Longrightarrow> f n = []) \<Longrightarrow> concat (map f us) = concat (map f (filter P us))"
  by (induction us) auto

lemma hex_text_no: "hex_value c = None \<Longrightarrow> c \<notin> set (hex_text b)"
proof (induction b)
  case Nil
  then show ?case by (simp add: hex_text_def hex_encode_def)
next
  case (Cons x b)
  then show ?case using hex_nibbles [of x] by (auto simp: hex_text_Cons hex_value_digit)
qed

lemma Between_last:
  assumes "c \<notin> set a" "d \<notin> set t"
  shows "Between (a @ (c # q) @ t) (c # q) [d] = t"
proof -
  have "index_of t [d] = None" using assms(2) by (auto simp: index_of_None contains_iff)
  moreover have "drop (length a + length (c # q)) (a @ (c # q) @ t) = t" by simp
  ultimately show ?thesis unfolding Between_def index_of_head [OF assms(1)] by (simp only: option.case Let_def)
qed

lemma h264_line:
  "h264GetParameterSet (''packetization-mode=1'' @ '';profile-level-id='' @ hex_text h @ '';sprop-parameter-sets='' @
     b64_text sps @ '','' @ b64_text pps) = (sps, pps)"
proof -
  let ?a = "''packetization-mode=1'' @ '';profile-level-id='' @ hex_text h @ '';''" and ?t = "b64_text sps @ '','' @ b64_text pps"
  have a: "CHR ''s'' \<notin> set ?a" using hex_text_no [of "CHR ''s''" h] by (simp add: hex_value_def)
  have t: "CHR '';'' \<notin> set ?t" using b64_text_no(1) by simp
  have "Between (?a @ ''sprop-parameter-sets='' @ ?t) ''sprop-parameter-sets='' '';'' = ?t"
    by (rule Between_last [OF a t])
  moreover have "cut CHR '','' ?t = Some (b64_text sps, b64_text pps)" using b64_text_no(2) by (simp add: cut_Some)
  ultimately show ?thesis
    unfolding h264GetParameterSet_def by (simp add: Let_def)
qed

lemma h264_parameter_sets:
  assumes "\<forall>n \<in> set us. sized264 n \<and> (naluType264 n = 7 \<longrightarrow> 4 \<le> length n)" "filter parameterSet us = [sps, pps]"
    "naluType264 sps = 7" "naluType264 pps = 8"
  shows "\<exists>c. h264AVCCToCodec behind (avcc_units us) = Some c \<and> h264GetParameterSet (vcFmtp c) = (sps, pps)"
proof -
  have s: "sps \<in> set (filter parameterSet us)" using assms(2) by simp
  have "concat (map part264 us) = concat (map part264 (filter parameterSet us))"
    by (rule concat_filtered) (simp add: part264_def parameterSet_def)
  then have "h264Fmtp behind (avcc_units us) = Some (part264 sps @ part264 pps)"
    using h264Fmtp_units [OF assms(1), of behind] assms(2) by simp
  moreover have "sps \<noteq> []" using s assms(1) by (auto simp: sized264_def)
  ultimately show ?thesis
    using h264_line [of "take 3 (drop 1 sps)" sps pps] assms(3,4) by (simp add: h264AVCCToCodec_def part264_def)
qed


text \<open>Searching behind what cannot hold the key.\<close>

lemma Between_Cons:
  "\<not> is_prefix k (x # xs) \<Longrightarrow> Between (x # xs) k e = Between xs k e"
  by (simp add: Between_def split: option.split)

lemma Between_skip:
  assumes "c \<notin> set a" "c \<notin> set (take (length p) r)"
  shows "Between (a @ r) (p @ c # q) e = Between r (p @ c # q) e"
  using assms(1)
proof (induction a)
  case (Cons x a)
  have "\<not> is_prefix (p @ c # q) (x # a @ r)"
  proof
    assume "is_prefix (p @ c # q) (x # a @ r)"
    then obtain t where t: "x # a @ r = p @ c # q @ t" by (auto simp: is_prefix_iff)
    have "(x # a @ r) ! length p = c" by (simp add: t)
    moreover have "length p < length (x # a) + length r" using arg_cong [OF t, of length] by simp
    ultimately show False
    proof (cases "length p < length (x # a)")
      case True
      then have "(x # a @ r) ! length p = (x # a) ! length p" by (metis append_Cons nth_append)
      with \<open>(x # a @ r) ! length p = c\<close> Cons.prems True show False by (metis nth_mem)
    next
      case False
      let ?j = "length p - length (x # a)"
      have "(x # a @ r) ! length p = r ! ?j" using False by (metis append_Cons nth_append)
      moreover have "?j < length (take (length p) r)"
        using \<open>length p < length (x # a) + length r\<close> False by (simp, linarith)
      then have "take (length p) r ! ?j \<in> set (take (length p) r)" by (rule nth_mem)
      moreover have "take (length p) r ! ?j = r ! ?j" using False by simp
      ultimately show False using \<open>(x # a @ r) ! length p = c\<close> assms(2) by simp
    qed
  qed
  with Cons show ?case by (simp add: Between_Cons)
qed simp

lemma Between_here:
  assumes "k = x # k'" "d \<notin> set t"
  shows "Between (k @ t @ d # r) k [d] = t"
proof -
  have "index_of (k @ t @ d # r) k = Some 0" using assms(1) index_of_found [of k "t @ d # r" "[]"] by simp
  moreover have "index_of (t @ [d] @ r) [d] = Some (length t)" using index_of_head [OF assms(2), of "[]" r] by simp
  ultimately show ?thesis by (simp add: Between_def)
qed

lemma h265_line:
  "h265GetParameterSet (''profile-id=1'' @ '';sprop-vps='' @ b64_text vps @ '';sprop-sps='' @ b64_text sps @ '';sprop-pps='' @ b64_text pps) =
     (vps, sps, pps)"
proof -
  let ?P = "'';sprop-pps='' @ b64_text pps" let ?S = "'';sprop-sps='' @ b64_text sps @ ?P" let ?V = "b64_text vps @ ?S"
  note no = b64_text_no
  have v: "Between (''profile-id=1'' @ '';sprop-vps='' @ ?V) ''sprop-vps='' '';'' = b64_text vps"
    using Between_here [of "''sprop-vps=''" "CHR ''s''" "''prop-vps=''" "CHR '';''" "b64_text vps" "''sprop-sps='' @ b64_text sps @ ?P"] no(1) [of vps]
    by (simp add: Between_Cons)
  have vs: "Between ?V (''sprop'' @ CHR ''-'' # k) e = Between ?S (''sprop'' @ CHR ''-'' # k) e" for k e
    using no(3) [of vps] by (intro Between_skip) simp_all
  have sp: "Between (b64_text sps @ ?P) (''sprop'' @ CHR ''-'' # k) e = Between ?P (''sprop'' @ CHR ''-'' # k) e" for k e
    using no(3) [of sps] by (intro Between_skip) simp_all
  have s: "Between (''profile-id=1'' @ '';sprop-vps='' @ ?V) ''sprop-sps='' '';'' = b64_text sps"
    using Between_here [of "''sprop-sps=''" "CHR ''s''" "''prop-sps=''" "CHR '';''" "b64_text sps" "''sprop-pps='' @ b64_text pps"] no(1) [of sps]
      vs [of "''sps=''" "'';''"] by (simp add: Between_Cons)
  have p: "Between (''profile-id=1'' @ '';sprop-vps='' @ ?V) ''sprop-pps='' '';'' = b64_text pps"
    using Between_last [of "CHR ''s''" "[]" "CHR '';''" "b64_text pps" "''prop-pps=''"] no(1) [of pps]
      vs [of "''pps=''" "'';''"] sp [of "''pps=''" "'';''"] by (simp add: Between_Cons)
  show ?thesis unfolding h265GetParameterSet_def v s p by simp
qed


definition part265 :: "bytes \<Rightarrow> string" where
  "part265 n =
     (if nalType n = 32 then '';sprop-vps='' @ b64_text n else if nalType n = 33 then '';sprop-sps='' @ b64_text n
      else if nalType n = 34 then '';sprop-pps='' @ b64_text n else [])"

definition parameterSet265 :: "bytes \<Rightarrow> bool" where
  "parameterSet265 n \<longleftrightarrow> nalType n \<in> {32, 33, 34}"

lemma h265NALUType_units: "n \<noteq> [] \<Longrightarrow> h265NALUType (avcc_units (n # us)) = Some (nalType n)"
  by (cases n) (simp_all add: h265NALUType_def nalType_def unitType_def unit_bytes_def nth_append)

lemma h265Fmtp_units:
  assumes "\<forall>n \<in> set us. sized264 n" "us \<noteq> []"
  shows "h265Fmtp behind (avcc_units us) = Some (concat (map part265 us))"
  using assms
proof (induction us)
  case (Cons n us)
  let ?a = "avcc_units (n # us)"
  have n: "sized264 n" "n \<noteq> []" using Cons.prems by (simp_all add: sized264_def)
  have g: "4 + unat (get_be32 ?a) = 4 + length n" using n(1) unit_size [of n "avcc_units us"] by (simp add: sized264_def small_def)
  have l: "length ?a = 4 + length n + length (avcc_units us)" "drop (4 + length n) ?a = avcc_units us"
    "drop 4 (take (4 + length n) (?a @ behind)) = n" "length (avcc_units us) = 0 \<longleftrightarrow> us = []"
    by (simp_all add: unit_bytes_def avcc_units_Nil)
  have "h265Fmtp behind ?a = (if us = [] then Some (part265 n) else map_option ((@) (part265 n)) (h265Fmtp behind (avcc_units us)))"
    unfolding h265Fmtp.simps [of behind ?a] Let_def g l(2,3) h265NALUType_units [OF n(2)] option.case
    using l(1,4) by (auto simp: part265_def)
  with Cons show ?case by simp
qed simp

lemma JoinNALU_units: "\<forall>n \<in> set us. n \<noteq> [] \<Longrightarrow> JoinNALU us = avcc_units us"
  by (simp add: JoinNALU_def avcc_units_def unit_bytes_def [abs_def] filter_id_conv)

lemma h265_parameter_sets:
  assumes "\<forall>n \<in> set us. sized264 n" "filter parameterSet265 us = [vps, sps, pps]"
    "nalType vps = 32" "nalType sps = 33" "nalType pps = 34"
  shows "\<exists>c. h265AVCCToCodec behind (avcc_units us) = Some c \<and> h265GetParameterSet (vcFmtp c) = (vps, sps, pps)"
proof -
  have "concat (map part265 us) = concat (map part265 (filter parameterSet265 us))"
    by (rule concat_filtered) (simp add: part265_def parameterSet265_def)
  moreover have "us \<noteq> []" using assms(2) by auto
  ultimately have "h265Fmtp behind (avcc_units us) = Some (part265 vps @ part265 sps @ part265 pps)"
    using h265Fmtp_units [OF assms(1), of behind] assms(2) by simp
  then show ?thesis
    using h265_line [of vps sps pps] assms(3-5) by (simp add: h265AVCCToCodec_def part265_def)
qed

text \<open>
  Claim C40. The codec that a producer makes from the first keyframe of a camera carries its parameter
  sets: whatever other units the keyframe has and whatever lies behind it in memory, reading the line
  of the codec gives back the parameter sets of H.264 and of H.265 byte by byte, and joining them gives
  the buffer that \<open>RTPDepay\<close> and \<open>RepairAVCC\<close> put in front of a keyframe.
\<close>

theorem codec_parameter_sets:
  assumes "list_all (\<lambda>n. sized264 n \<and> (naluType264 n = 7 \<longrightarrow> 4 \<le> length n)) us" "filter parameterSet us = [sps, pps]"
    "naluType264 sps = 7" "naluType264 pps = 8"
    and "list_all sized264 us'" "filter parameterSet265 us' = [vps', sps', pps']"
    "nalType vps' = 32" "nalType sps' = 33" "nalType pps' = 34"
  shows "(\<exists>c. h264AVCCToCodec behind (avcc_units us) = Some c \<and> h264GetParameterSet (vcFmtp c) = (sps, pps)) \<and>
    JoinNALU [sps, pps] = avcc_units [sps, pps] \<and>
    (\<exists>c. h265AVCCToCodec behind (avcc_units us') = Some c \<and> h265GetParameterSet (vcFmtp c) = (vps', sps', pps')) \<and>
    JoinNALU [vps', sps', pps'] = avcc_units [vps', sps', pps']"
proof -
  have a: "\<forall>n \<in> set us. sized264 n \<and> (naluType264 n = 7 \<longrightarrow> 4 \<le> length n)" "\<forall>n \<in> set us'. sized264 n"
    using assms(1,5) by (simp_all add: list_all_iff)
  have "set [sps, pps] \<subseteq> set us" "set [vps', sps', pps'] \<subseteq> set us'"
    using filter_is_subset [of parameterSet us] filter_is_subset [of parameterSet265 us'] assms(2,6) by simp_all
  then have j: "\<forall>n \<in> set [sps, pps]. n \<noteq> []" "\<forall>n \<in> set [vps', sps', pps']. n \<noteq> []"
    using a by (auto simp: sized264_def)
  show ?thesis
    using h264_parameter_sets [OF a(1) assms(2-4)] h265_parameter_sets [OF a(2) assms(6-9)]
      JoinNALU_units [OF j(1)] JoinNALU_units [OF j(2)] by blast
qed

theorem codec_parameter_sets_witness:
  "\<exists>c. h264AVCCToCodec [] (avcc_units [[9, 0xF0], [0x67, 0x64, 0, 0x1F], [0x68, 2], [0x65, 3]]) = Some c \<and>
    h264GetParameterSet (vcFmtp c) = ([0x67, 0x64, 0, 0x1F], [0x68, 2])"
proof -
  have a: "list_all (\<lambda>n. sized264 n \<and> (naluType264 n = 7 \<longrightarrow> 4 \<le> length n)) [[9, 0xF0], [0x67, 0x64, 0, 0x1F], [0x68, 2], [0x65, 3]]"
    "filter parameterSet [[9, 0xF0], [0x67, 0x64, 0, 0x1F], [0x68, 2], [0x65, 3]] = [[0x67, 0x64, 0, 0x1F], [0x68, 2]]"
    "naluType264 [0x67, 0x64, 0, 0x1F] = 7" "naluType264 [0x68, 2] = 8"
    by (simp_all add: sized264_def naluType264_def parameterSet_def)
  have b: "list_all sized264 [[64, 1], [66, 1], [68, 1], [38, 1]]"
    "filter parameterSet265 [[64, 1], [66, 1], [68, 1], [38, 1]] = [[64, 1], [66, 1], [68, 1]]"
    "nalType [64, 1] = 32" "nalType [66, 1] = 33" "nalType [68, 1] = 34"
    by (simp_all add: sized264_def nalType_def unitType_def parameterSet265_def)
  show ?thesis using codec_parameter_sets [OF a b, of "[]"] by simp
qed

text \<open>The identification for players has only profiles, constraints and levels that they know.\<close>

lemma GetProfileLevelID_known:
  "\<exists>p c l. GetProfileLevelID fmtp = upper_hex p @ upper_hex c @ upper_hex l \<and>
    p \<in> {0x42, 0x4D, 0x64} \<and> c \<in> {0xE0, 0x40, 0} \<and> l \<in> {30, 31, 40, 41}"
  unfolding GetProfileLevelID_def Let_def by (intro exI conjI) (rule refl, auto)


text \<open>On whole units \<open>GetFmtpLine\<close> writes what \<open>AVCCToCodec\<close> writes, and \<open>SplitNALU\<close> finds the units.\<close>

lemma GetFmtpLine_units:
  assumes "\<forall>n \<in> set us. sized264 n \<and> (naluType264 n = 7 \<longrightarrow> 4 \<le> length n)" "us \<noteq> []"
  shows "GetFmtpLine behind (avcc_units us) = h264Fmtp behind (avcc_units us)"
  using assms
proof (induction us)
  case (Cons n us)
  let ?a = "avcc_units (n # us)"
  have n: "sized264 n" "naluType264 n = 7 \<longrightarrow> 4 \<le> length n" using Cons.prems by simp_all
  have g: "4 + unat (get_be32 ?a) = 4 + length n" using n(1) unit_size [of n "avcc_units us"] by (simp add: sized264_def small_def)
  have l: "length ?a = 4 + length n + length (avcc_units us)" "drop (4 + length n) ?a = avcc_units us"
    "drop 4 (take (4 + length n) (?a @ behind)) = n" "length (avcc_units us) = 0 \<longleftrightarrow> us = []"
    by (simp_all add: unit_bytes_def avcc_units_Nil)
  have p: "take 3 (drop 5 (?a @ behind)) = take 3 (drop 1 n)" if "4 \<le> length n"
    using that by (simp add: unit_bytes_def)
  have "GetFmtpLine behind ?a = (if us = [] then Some (part264 n) else map_option ((@) (part264 n)) (GetFmtpLine behind (avcc_units us)))"
    unfolding GetFmtpLine.simps [of behind ?a] Let_def g l(2,3) h264NALUType_units [OF n(1)] option.case
    using n(2) p l(1,4) by (auto simp: part264_def)
  moreover have "h264Fmtp behind (avcc_units us) = Some (concat (map part264 us))" "h264Fmtp behind ?a = Some (concat (map part264 (n # us)))"
    using Cons.prems by (intro h264Fmtp_units; simp)+
  ultimately show ?case using Cons by simp
qed simp

lemma SplitNALU_units:
  assumes "\<forall>n \<in> set us. small n" "us \<noteq> []"
  shows "SplitNALU (avcc_units us) = Some (map unit_bytes us)"
  using assms
proof (induction us)
  case (Cons n us)
  have g: "unat (get_be32 (avcc_units (n # us))) = length n" using unit_size [of n "avcc_units us"] Cons.prems by simp
  have l: "length (avcc_units (n # us)) = 4 + length n + length (avcc_units us)" "length (avcc_units us) = 0 \<longleftrightarrow> us = []"
    "drop (length n + 4) (avcc_units (n # us)) = avcc_units us" "take (length n + 4) (avcc_units (n # us)) = unit_bytes n"
    by (simp_all add: avcc_units_Nil unit_bytes_def)
  have "SplitNALU (avcc_units (n # us)) =
      (if us = [] then Some [avcc_units (n # us)] else map_option ((#) (unit_bytes n)) (SplitNALU (avcc_units us)))"
    unfolding SplitNALU.simps [of "avcc_units (n # us)"] Let_def g l(3,4) using l(1,2) by auto
  with Cons show ?case by simp
qed simp

end
