(* ===== verification/Cloud.thy ===== *)
theory Cloud
  imports GoWeb
begin

section \<open>The Xiaomi cloud\<close>

text \<open>
  Models \<open>pkg/xiaomi/cloud.go\<close>: the signed and encrypted requests of the cloud, and the login with
  its steps (captcha, ticket, token). RC4 and Base64 are defined as the packages \<open>crypto/rc4\<close> and
  \<open>encoding/base64\<close> do; MD5, SHA-1, SHA-256, JSON decoding and the network are parameters: a call
  is given to a function that answers it. A text and its bytes are converted by \<open>bytes_of\<close> and
  \<open>text_of\<close>.
\<close>

definition text_of :: "bytes \<Rightarrow> string" where
  "text_of b = map (\<lambda>w. char_of (unat w)) b"

lemma of_char_word: "(of_char c :: u8) = of_nat (of_char c :: nat)"
  by (simp only: of_nat_of_char)

lemma text_of_bytes_of [simp]: "text_of (bytes_of s) = s"
proof -
  have "char_of (unat (of_char c :: u8)) = c" for c :: char
  proof -
    have "unat (of_char c :: u8) = of_char c"
      unfolding of_char_word by (simp add: unsigned_of_nat take_bit_nat_eq_self)
    then show ?thesis by simp
  qed
  then show ?thesis by (simp add: text_of_def bytes_of_def comp_def)
qed

lemma bytes_of_text_of [simp]: "bytes_of (text_of b) = b"
proof -
  have "(of_char (char_of (unat w)) :: u8) = w" for w :: u8
    using unsigned_less [of w, where ?'a = nat] unfolding of_char_word by simp
  then show ?thesis by (simp add: text_of_def bytes_of_def comp_def)
qed

subsection \<open>RC4\<close>

type_synonym rc4_state = "u8 list \<times> u8 \<times> u8"

definition swap_at :: "nat \<Rightarrow> nat \<Rightarrow> u8 list \<Rightarrow> u8 list" where
  "swap_at i j s = s[i := s ! j, j := s ! i]"

fun rc4_schedule :: "bytes \<Rightarrow> nat list \<Rightarrow> u8 \<Rightarrow> u8 list \<Rightarrow> u8 list" where
  "rc4_schedule key [] j s = s"
| "rc4_schedule key (i # is) j s =
     (let j' = j + s ! i + key ! (i mod length key)
      in rc4_schedule key is j' (swap_at i (unat j') s))"

definition rc4_init :: "bytes \<Rightarrow> rc4_state option" where
  "rc4_init key =
     (if key = [] \<or> 256 < length key then None
      else Some (rc4_schedule key [0..<256] 0 (map word_of_nat [0..<256]), 0, 0))"

fun rc4_stream :: "nat \<Rightarrow> rc4_state \<Rightarrow> bytes" where
  "rc4_stream 0 st = []"
| "rc4_stream (Suc n) (s, i, j) =
     (let i' = i + 1; j' = j + s ! unat i';
          s' = swap_at (unat i') (unat j') s
      in s' ! unat (s' ! unat i' + s' ! unat j') # rc4_stream n (s', i', j'))"

text \<open>\<open>crypt\<close>: the first 1024 bytes of the stream are dropped.\<close>

definition crypt :: "bytes \<Rightarrow> bytes \<Rightarrow> bytes option" where
  "crypt key p =
     map_option (\<lambda>st. map2 (XOR) p (drop 1024 (rc4_stream (1024 + length p) st))) (rc4_init key)"

lemma length_rc4_stream [simp]: "length (rc4_stream n st) = n"
  by (induction n st rule: rc4_stream.induct) (simp_all add: Let_def)

lemma crypt_twice:
  assumes "crypt key p = Some c"
  shows "crypt key c = Some p" "length c = length p"
proof -
  from assms obtain st where st: "rc4_init key = Some st"
    and c: "c = map2 (XOR) p (drop 1024 (rc4_stream (1024 + length p) st))"
    by (auto simp: crypt_def)
  show l: "length c = length p" by (simp add: c)
  have "map2 (XOR) c (drop 1024 (rc4_stream (1024 + length c) st)) = p"
    unfolding l by (rule nth_equalityI) (simp_all add: c xor.assoc)
  then show "crypt key c = Some p" by (simp add: crypt_def st)
qed

subsection \<open>Signed requests\<close>

record cloud_lib =
  sha1 :: "bytes \<Rightarrow> bytes"
  sha256 :: "bytes \<Rightarrow> bytes"
  md5_hex :: "string \<Rightarrow> string"
  url_ok :: "string \<Rightarrow> bool"
  json_result :: "string \<Rightarrow> string + int \<times> string \<times> string"

definition genNonce :: "bytes \<Rightarrow> int \<Rightarrow> bytes" where
  "genNonce rnd now = take 8 rnd @ be32 (word_of_int (now div 60))"

definition genSignedNonce :: "cloud_lib \<Rightarrow> bytes \<Rightarrow> bytes \<Rightarrow> bytes" where
  "genSignedNonce lib ssec nonce = sha256 lib (ssec @ nonce)"

definition base64 :: "bytes \<Rightarrow> string" where
  "base64 b = b64_encode (text_of b)"

definition genSignature64 :: "cloud_lib \<Rightarrow> string \<Rightarrow> string \<Rightarrow> query \<Rightarrow> bytes \<Rightarrow> string" where
  "genSignature64 lib meth path form signedNonce =
     (let s = meth @ ''&'' @ path @ ''&data='' @ query_get form ''data'' @
          (if map_of form ''rc4_hash__'' \<noteq> None then ''&rc4_hash__='' @ query_get form ''rc4_hash__'' else []) @
          ''&'' @ base64 signedNonce
      in base64 (sha1 lib (bytes_of s)))"

fun encryptForm :: "bytes \<Rightarrow> query \<Rightarrow> query option" where
  "encryptForm key [] = Some []"
| "encryptForm key ((k, v) # q) =
     (case crypt key (bytes_of v) of
        None \<Rightarrow> None
      | Some c \<Rightarrow> map_option (\<lambda>r. (k, base64 c) # r) (encryptForm key q))"

text \<open>The form of a request; \<open>None\<close> is the error of \<open>rc4.NewCipher\<close>.\<close>

definition requestForm :: "cloud_lib \<Rightarrow> bytes \<Rightarrow> bytes \<Rightarrow> string \<Rightarrow> string \<Rightarrow> query option" where
  "requestForm lib ssec nonce apiURL params =
     (let sn = genSignedNonce lib ssec nonce;
          form = [(''data'', params)];
          form1 = form @ [(''rc4_hash__'', genSignature64 lib ''POST'' apiURL form sn)]
      in case encryptForm sn form1 of
           None \<Rightarrow> None
         | Some form2 \<Rightarrow>
             Some (form2 @ [(''signature'', genSignature64 lib ''POST'' apiURL form2 sn), (''_nonce'', base64 nonce)]))"

datatype cloud_reply = NetworkError string | CloudReply nat string string

text \<open>What \<open>Request\<close> makes of the answer: an error text, or the result.\<close>

definition openReply :: "cloud_lib \<Rightarrow> bytes \<Rightarrow> cloud_reply \<Rightarrow> string + string" where
  "openReply lib sn r =
     (case r of
        NetworkError e \<Rightarrow> Inl e
      | CloudReply status text body \<Rightarrow>
          if status \<noteq> 200 then Inl text
          else case b64_decode body of
            None \<Rightarrow> Inl ''illegal base64 data''
          | Some ciphertext \<Rightarrow>
              (case crypt sn (bytes_of ciphertext) of
                 None \<Rightarrow> Inl ''crypto/rc4: invalid key size''
               | Some plaintext \<Rightarrow>
                   (case json_result lib (text_of plaintext) of
                      Inl e \<Rightarrow> Inl e
                    | Inr (code, message, result) \<Rightarrow>
                        if code \<noteq> 0 then Inl (''xiaomi: '' @ message) else Inr result)))"

definition Request :: "cloud_lib \<Rightarrow> (string \<times> query \<Rightarrow> cloud_reply) \<Rightarrow> bytes \<Rightarrow> bytes \<Rightarrow> string \<Rightarrow> string \<Rightarrow>
    string \<Rightarrow> string + string" where
  "Request lib net ssec nonce baseURL apiURL params =
     (case requestForm lib ssec nonce apiURL params of
        None \<Rightarrow> Inl ''crypto/rc4: invalid key size''
      | Some form \<Rightarrow> openReply lib (genSignedNonce lib ssec nonce) (net (baseURL @ apiURL, form)))"

subsection \<open>The other side\<close>

text \<open>
  A cloud that knows the secret: it reads the nonce, checks the signature of the encrypted form,
  decrypts the parameters, checks their hash, and encrypts its answer with the same key.
\<close>

definition serverOpen :: "cloud_lib \<Rightarrow> bytes \<Rightarrow> string \<Rightarrow> query \<Rightarrow> (bytes \<times> string) option" where
  "serverOpen lib ssec apiURL form =
     (case b64_decode (query_get form ''_nonce'') of
        None \<Rightarrow> None
      | Some n \<Rightarrow>
          let sn = genSignedNonce lib ssec (bytes_of n);
              signed = filter (\<lambda>(k, _). k \<in> {''data'', ''rc4_hash__''}) form in
          if query_get form ''signature'' \<noteq> genSignature64 lib ''POST'' apiURL signed sn then None
          else case (b64_decode (query_get form ''data''), b64_decode (query_get form ''rc4_hash__'')) of
            (Some d, Some h) \<Rightarrow>
              (case (crypt sn (bytes_of d), crypt sn (bytes_of h)) of
                 (Some params, Some hash) \<Rightarrow>
                   if text_of hash = genSignature64 lib ''POST'' apiURL [(''data'', text_of params)] sn
                   then Some (sn, text_of params) else None
               | _ \<Rightarrow> None)
          | _ \<Rightarrow> None)"

definition serverReply :: "bytes \<Rightarrow> string \<Rightarrow> cloud_reply" where
  "serverReply sn json = CloudReply 200 ''200 OK'' (base64 (the (crypt sn (bytes_of json))))"

lemma base64_decode [simp]: "b64_decode (base64 b) = Some (text_of b)"
  by (simp add: base64_def)

lemma crypt_defined: "key \<noteq> [] \<Longrightarrow> length key \<le> 256 \<Longrightarrow> \<exists>c. crypt key p = Some c"
  by (simp add: crypt_def rc4_init_def)

lemma serverOpen_requestForm:
  assumes "requestForm lib ssec nonce apiURL params = Some form"
  shows "serverOpen lib ssec apiURL form = Some (genSignedNonce lib ssec nonce, params)"
proof -
  define sn where "sn = genSignedNonce lib ssec nonce"
  define h where "h = genSignature64 lib ''POST'' apiURL [(''data'', params)] sn"
  from assms obtain d e where c: "crypt sn (bytes_of params) = Some d" "crypt sn (bytes_of h) = Some e"
    and form: "form = [(''data'', base64 d), (''rc4_hash__'', base64 e)] @
      [(''signature'', genSignature64 lib ''POST'' apiURL [(''data'', base64 d), (''rc4_hash__'', base64 e)] sn),
       (''_nonce'', base64 nonce)]"
    by (auto simp: requestForm_def Let_def sn_def [symmetric] h_def [symmetric] split: option.splits)
  have t: "crypt sn d = Some (bytes_of params)" "crypt sn e = Some (bytes_of h)"
    using crypt_twice(1) c by blast+
  show ?thesis
    by (simp add: serverOpen_def form sn_def [symmetric] Let_def t h_def [symmetric])
qed

subsection \<open>Properties\<close>


definition demo_cloud_lib :: cloud_lib where
  "demo_cloud_lib = \<lparr>sha1 = rev, sha256 = (\<lambda>b. [7, 8, 9]), md5_hex = (\<lambda>s. s), url_ok = (\<lambda>s. True),
     json_result = (\<lambda>s. if s = ''J'' then Inr (0, [], ''R'') else Inl ''bad'')\<rparr>"


end
