(* ===== verification/CloudLogin.thy ===== *)
theory CloudLogin
  imports Cloud
begin

section \<open>Logging in to the cloud\<close>

text \<open>
  Models the login of \<open>pkg/xiaomi/cloud.go\<close>: \<open>Login\<close>, \<open>LoginWithCaptcha\<close>, \<open>LoginWithVerify\<close>,
  \<open>LoginWithToken\<close> and what they call, as functions on the state of \<open>Cloud\<close>. The network is a
  function from a call to its answer; an answer carries the hops of its redirects, the last response
  first, each with its cookies and its \<open>Extension-Pragma\<close> header. The JSON decoders are the fields
  of a parameter.
\<close>

record login_form =
  qs :: string
  sign :: string
  form_sid :: string
  callback :: string

record login_answer =
  ans_ssecurity :: bytes
  ans_passToken :: string
  ans_location :: string
  captchaURL :: string
  notificationURL :: string

record login_lib =
  json_form :: "string \<Rightarrow> string + login_form"
  json_answer :: "string \<Rightarrow> string + login_answer"
  json_location :: "string \<Rightarrow> string + string"
  json_flag :: "string \<Rightarrow> string + int"
  json_masked :: "string \<Rightarrow> string + string \<times> string"
  json_ticket :: "string \<Rightarrow> string + int \<times> string"
  json_pragma :: "string \<Rightarrow> string + bytes"
  url_valid :: "string \<Rightarrow> bool"
  md5_upper :: "string \<Rightarrow> string"
  replace_start :: "string \<Rightarrow> string"

record login_state =
  sid :: string
  cookies :: string
  ssecurity :: bytes
  userID :: string
  passToken :: string
  auth :: "(string \<rightharpoonup> string) option"

datatype login_result = LoggedIn | LoginFailed string | CaptchaNeeded string | VerifyNeeded string string | Panicked

definition NewCloud :: "string \<Rightarrow> login_state" where
  "NewCloud s = \<lparr>sid = s, cookies = [], ssecurity = [], userID = [], passToken = [], auth = None\<rparr>"

subsection \<open>Calls\<close>

record http_call =
  call_method :: string
  call_url :: string
  call_form :: "query option"
  call_cookies :: string

record hop =
  hop_cookies :: query
  pragma :: string

datatype http_answer = Failed string | Answer string "hop list"

type_synonym network = "http_call \<Rightarrow> http_answer"

definition plain_get :: "string \<Rightarrow> http_call" where
  "plain_get url = \<lparr>call_method = ''GET'', call_url = url, call_form = None, call_cookies = []\<rparr>"

text \<open>\<open>Request.Encode\<close>: \<open>None\<close> is the nil that it returns for an invalid address.\<close>

definition encodeRequest :: "login_lib \<Rightarrow> string \<Rightarrow> string \<Rightarrow> string \<Rightarrow> query option \<Rightarrow> string \<Rightarrow> http_call option" where
  "encodeRequest lib meth url rawParams form rawCookies =
     (let u = (if rawParams \<noteq> [] then url @ ''?'' @ rawParams else url) in
      if url_valid lib u
      then Some \<lparr>call_method = (if meth = [] then ''GET'' else meth), call_url = u, call_form = form,
                  call_cookies = rawCookies\<rparr>
      else None)"

definition readLoginResponse :: "(string \<Rightarrow> string + 'a) \<Rightarrow> string \<Rightarrow> string + string \<times> 'a" where
  "readLoginResponse dec body =
     (if has_prefix body ''&&&START&&&'' then
        (let rest = drop 11 body in case dec rest of Inl e \<Rightarrow> Inl e | Inr v \<Rightarrow> Inr (rest, v))
      else Inl (''xiaomi: '' @ body))"

definition findCookie :: "hop list \<Rightarrow> string \<Rightarrow> string" where
  "findCookie hops name = (case hops of [] \<Rightarrow> [] | h # _ \<Rightarrow> query_get (hop_cookies h) name)"

definition auth_get :: "login_state \<Rightarrow> string \<Rightarrow> string" where
  "auth_get c k = (case auth c of None \<Rightarrow> [] | Some m \<Rightarrow> (case m k of Some v \<Rightarrow> v | None \<Rightarrow> []))"

text \<open>Writing to the map; a nil map panics, which the callers exclude.\<close>

definition auth_set :: "string \<Rightarrow> string \<Rightarrow> login_state \<Rightarrow> login_state" where
  "auth_set k v c = c\<lparr>auth := map_option (\<lambda>m. m(k \<mapsto> v)) (auth c)\<rparr>"

subsection \<open>The end of a login\<close>

text \<open>The loop over the cookies of one response: the state, \<open>cUserId\<close> and \<open>serviceToken\<close>.\<close>

definition takeCookie :: "string \<times> string \<Rightarrow> login_state \<times> string \<times> string \<Rightarrow> login_state \<times> string \<times> string" where
  "takeCookie kv s =
     (let (k, v) = kv; (c, cu, st) = s in
      if k = ''userId'' then (c\<lparr>userID := v\<rparr>, cu, st)
      else if k = ''cUserId'' then (c, v, st)
      else if k = ''serviceToken'' then (c, cu, v)
      else if k = ''passToken'' then (c\<lparr>passToken := v\<rparr>, cu, st)
      else (c, cu, st))"

definition takeCookies :: "query \<Rightarrow> login_state \<times> string \<times> string \<Rightarrow> login_state \<times> string \<times> string" where
  "takeCookies q s = fold takeCookie q s"

fun finishHops :: "login_lib \<Rightarrow> hop list \<Rightarrow> login_state \<times> string \<times> string \<Rightarrow>
    (login_state \<times> string \<times> string) \<times> string option" where
  "finishHops lib [] s = (s, None)"
| "finishHops lib (h # hs) s =
     (let (c, cu, st) = takeCookies (hop_cookies h) s in
      if pragma h = [] then finishHops lib hs (c, cu, st)
      else case json_pragma lib (pragma h) of
        Inl e \<Rightarrow> ((c, cu, st), Some e)
      | Inr k \<Rightarrow> finishHops lib hs (c\<lparr>ssecurity := k\<rparr>, cu, st))"

definition finishAuth :: "login_lib \<Rightarrow> network \<Rightarrow> string \<Rightarrow> login_state \<Rightarrow> login_state \<times> login_result" where
  "finishAuth lib net location c =
     (case net (plain_get location) of
        Failed e \<Rightarrow> (c, LoginFailed e)
      | Answer body hops \<Rightarrow>
          (case finishHops lib hops (c, [], []) of
             ((c', cu, st), Some e) \<Rightarrow> (c', LoginFailed e)
           | ((c', cu, st), None) \<Rightarrow>
               (c'\<lparr>cookies := ''userId='' @ userID c' @ ''; cUserId='' @ cu @ ''; serviceToken='' @ st\<rparr>, LoggedIn)))"

subsection \<open>Captcha and ticket\<close>

definition account :: string where
  "account = ''https://account.xiaomi.com''"

definition getCaptcha :: "network \<Rightarrow> string \<Rightarrow> login_state \<Rightarrow> login_state \<times> login_result" where
  "getCaptcha net url c =
     (case net (plain_get (account @ url)) of
        Failed e \<Rightarrow> (c, LoginFailed e)
      | Answer body hops \<Rightarrow> (auth_set ''ick'' (findCookie hops ''ick'') c, CaptchaNeeded body))"

definition verifyName :: "login_state \<Rightarrow> string" where
  "verifyName c =
     (if auth_get c ''flag'' = ''4'' then ''Phone'' else if auth_get c ''flag'' = ''8'' then ''Email'' else [])"

definition ticketCookies :: "login_state \<Rightarrow> string" where
  "ticketCookies c =
     ''identity_session='' @ auth_get c ''identity_session'' @
     (if auth_get c ''captcha_code'' \<noteq> [] then ''; ick='' @ auth_get c ''ick'' else [])"

definition sendTicket :: "login_lib \<Rightarrow> network \<Rightarrow> login_state \<Rightarrow> login_state \<times> login_result" where
  "sendTicket lib net c =
     (case encodeRequest lib [] (account @ ''/identity/auth/verify'' @ verifyName c)
             (''_flag='' @ auth_get c ''flag'' @ ''&_json=true'') None
             (''identity_session='' @ auth_get c ''identity_session'') of
        None \<Rightarrow> (c, Panicked)
      | Some call \<Rightarrow>
      (case net call of
        Failed e \<Rightarrow> (c, LoginFailed e)
      | Answer body _ \<Rightarrow>
      (case readLoginResponse (json_masked lib) body of
        Inl e \<Rightarrow> (c, LoginFailed e)
      | Inr (_, phone, email) \<Rightarrow>
      (case encodeRequest lib ''POST'' (account @ ''/identity/auth/send'' @ verifyName c @ ''Ticket'') []
              (Some [(''_json'', ''true''), (''icode'', auth_get c ''captcha_code''), (''retry'', ''0'')])
              (ticketCookies c) of
        None \<Rightarrow> (c, Panicked)
      | Some call2 \<Rightarrow>
      (case net call2 of
        Failed e \<Rightarrow> (c, LoginFailed e)
      | Answer body2 _ \<Rightarrow>
      (case readLoginResponse (json_ticket lib) body2 of
        Inl e \<Rightarrow> (c, LoginFailed e)
      | Inr (rest, code, url) \<Rightarrow>
          if url \<noteq> [] then getCaptcha net url c
          else if code \<noteq> 0 then (c, LoginFailed (''xiaomi: '' @ rest))
          else (c, VerifyNeeded phone email)))))))"

definition authStart :: "login_lib \<Rightarrow> network \<Rightarrow> string \<Rightarrow> login_state \<Rightarrow> login_state \<times> login_result" where
  "authStart lib net url c =
     (case net (plain_get (replace_start lib url)) of
        Failed e \<Rightarrow> (c, LoginFailed e)
      | Answer body hops \<Rightarrow>
          (case readLoginResponse (json_flag lib) body of
             Inl e \<Rightarrow> (c, LoginFailed e)
           | Inr (_, flag) \<Rightarrow>
               sendTicket lib net
                 (auth_set ''identity_session'' (findCookie hops ''identity_session'')
                   (auth_set ''flag'' (dec_int flag) c))))"

subsection \<open>The steps\<close>

definition loginForm :: "login_lib \<Rightarrow> login_form \<Rightarrow> login_state \<Rightarrow> string \<Rightarrow> string \<Rightarrow> query" where
  "loginForm lib v c username password =
     [(''_json'', ''true''), (''hash'', md5_upper lib password), (''sid'', form_sid v),
      (''callback'', callback v), (''_sign'', sign v), (''qs'', qs v), (''user'', username)] @
     (if auth_get c ''captcha_code'' \<noteq> [] then [(''captCode'', auth_get c ''captcha_code'')] else [])"

definition loginCookies :: "login_state \<Rightarrow> string \<Rightarrow> string" where
  "loginCookies c device =
     ''deviceId='' @ device @ (if auth_get c ''captcha_code'' \<noteq> [] then ''; ick='' @ auth_get c ''ick'' else [])"

definition Login :: "login_lib \<Rightarrow> network \<Rightarrow> string \<Rightarrow> string \<Rightarrow> string \<Rightarrow> login_state \<Rightarrow> login_state \<times> login_result" where
  "Login lib net device username password c =
     (case net (plain_get (account @ ''/pass/serviceLogin?_json=true&sid='' @ sid c)) of
        Failed e \<Rightarrow> (c, LoginFailed e)
      | Answer body _ \<Rightarrow>
      (case readLoginResponse (json_form lib) body of
        Inl e \<Rightarrow> (c, LoginFailed e)
      | Inr (_, v) \<Rightarrow>
      (case encodeRequest lib ''POST'' (account @ ''/pass/serviceLoginAuth2'') []
              (Some (loginForm lib v c username password)) (loginCookies c device) of
        None \<Rightarrow> (c, Panicked)
      | Some call \<Rightarrow>
      (case net call of
        Failed e \<Rightarrow> (c, LoginFailed e)
      | Answer body2 _ \<Rightarrow>
      (case readLoginResponse (json_answer lib) body2 of
        Inl e \<Rightarrow> (c, LoginFailed e)
      | Inr (rest, a) \<Rightarrow>
          let c1 = c\<lparr>auth := Some [''username'' \<mapsto> username, ''password'' \<mapsto> password]\<rparr> in
          if captchaURL a \<noteq> [] then getCaptcha net (captchaURL a) c1
          else if notificationURL a \<noteq> [] then authStart lib net (notificationURL a) c1
          else if ans_location a = [] then (c1, LoginFailed (''xiaomi: '' @ rest))
          else finishAuth lib net (ans_location a)
                 (c1\<lparr>auth := None, ssecurity := ans_ssecurity a, passToken := ans_passToken a\<rparr>))))))"

definition LoginWithCaptcha :: "login_lib \<Rightarrow> network \<Rightarrow> string \<Rightarrow> string \<Rightarrow> login_state \<Rightarrow> login_state \<times> login_result" where
  "LoginWithCaptcha lib net device captcha c =
     (if auth_get c ''ick'' = [] then (c, Panicked)
      else let c1 = auth_set ''captcha_code'' captcha c in
        if auth_get c1 ''flag'' \<noteq> [] then sendTicket lib net c1
        else Login lib net device (auth_get c1 ''username'') (auth_get c1 ''password'') c1)"

text \<open>The address of the check of a ticket, as it is written: \<open>_flag\<close> has no equals sign.\<close>

definition verifyParams :: "login_state \<Rightarrow> string \<Rightarrow> string" where
  "verifyParams c ticket = ''_flag'' @ auth_get c ''flag'' @ ''&ticket='' @ ticket @ ''&trust=false&_json=true''"

definition LoginWithVerify :: "login_lib \<Rightarrow> network \<Rightarrow> string \<Rightarrow> login_state \<Rightarrow> login_state \<times> login_result" where
  "LoginWithVerify lib net ticket c =
     (if auth_get c ''flag'' = [] then (c, Panicked)
      else case encodeRequest lib ''POST'' (account @ ''/identity/auth/verify'' @ verifyName c)
                  (verifyParams c ticket) None (''identity_session='' @ auth_get c ''identity_session'') of
        None \<Rightarrow> (c, Panicked)
      | Some call \<Rightarrow>
      (case net call of
        Failed e \<Rightarrow> (c, LoginFailed e)
      | Answer body _ \<Rightarrow>
      (case readLoginResponse (json_location lib) body of
        Inl e \<Rightarrow> (c, LoginFailed e)
      | Inr (rest, location) \<Rightarrow>
          if location = [] then (c, LoginFailed (''xiaomi: '' @ rest))
          else finishAuth lib net location c)))"

definition LoginWithToken :: "login_lib \<Rightarrow> network \<Rightarrow> string \<Rightarrow> string \<Rightarrow> login_state \<Rightarrow> login_state \<times> login_result" where
  "LoginWithToken lib net user token c =
     (case net \<lparr>call_method = ''GET'', call_url = account @ ''/pass/serviceLogin?_json=true&sid='' @ sid c,
                 call_form = None, call_cookies = ''userId='' @ user @ ''; passToken='' @ token\<rparr> of
        Failed e \<Rightarrow> (c, LoginFailed e)
      | Answer body _ \<Rightarrow>
      (case readLoginResponse (json_answer lib) body of
        Inl e \<Rightarrow> (c, LoginFailed e)
      | Inr (_, a) \<Rightarrow>
          finishAuth lib net (ans_location a)
            (c\<lparr>ssecurity := ans_ssecurity a, passToken := ans_passToken a\<rparr>)))"

definition UserToken :: "login_state \<Rightarrow> string \<times> string" where
  "UserToken c = (userID c, passToken c)"

subsection \<open>Lemmas\<close>

lemma auth_get_set: "auth c \<noteq> None \<Longrightarrow> auth_get (auth_set k v c) k' = (if k' = k then v else auth_get c k')"
  by (auto simp: auth_get_def auth_set_def)

lemma auth_set_fields [simp]: "auth (auth_set k v c) = None \<longleftrightarrow> auth c = None"
    "(auth_set k v c)\<lparr>auth := a\<rparr> = c\<lparr>auth := a\<rparr>"
  by (simp_all add: auth_set_def)

lemma takeCookie_auth: "auth (fst (takeCookie kv s)) = auth (fst s)"
  by (cases kv; cases s) (simp add: takeCookie_def)

lemma takeCookies_auth: "auth (fst (takeCookies q s)) = auth (fst s)"
proof (induction q arbitrary: s)
  case (Cons kv q)
  then show ?case by (simp add: takeCookies_def takeCookie_auth)
qed (simp add: takeCookies_def)

lemma finishHops_auth: "auth (fst (fst (finishHops lib hs s))) = auth (fst s)"
proof (induction lib hs s rule: finishHops.induct)
  case (2 lib h hs s)
  obtain c cu st where t: "takeCookies (hop_cookies h) s = (c, cu, st)" by (metis prod_cases3)
  then have "auth c = auth (fst s)" using takeCookies_auth [of "hop_cookies h" s] by simp
  with 2 t show ?case by (auto split: sum.split)
qed simp

lemma finishAuth_auth: "auth (fst (finishAuth lib net l c)) = auth c"
proof (cases "net (plain_get l)")
  case (Answer body hops)
  obtain c' cu st e where f: "finishHops lib hops (c, [], []) = ((c', cu, st), e)" by (metis prod_cases3 surj_pair)
  then have "auth c' = auth c" using finishHops_auth [of lib hops "(c, [], [])"] by simp
  with Answer f show ?thesis by (cases e) (simp_all add: finishAuth_def)
qed (simp add: finishAuth_def)

lemma finishAuth_result: "snd (finishAuth lib net l c) = LoggedIn \<or> (\<exists>e. snd (finishAuth lib net l c) = LoginFailed e)"
proof (cases "net (plain_get l)")
  case (Answer body hops)
  obtain c' cu st e where "finishHops lib hops (c, [], []) = ((c', cu, st), e)" by (metis prod_cases3 surj_pair)
  with Answer show ?thesis by (cases e) (simp_all add: finishAuth_def)
qed (simp add: finishAuth_def)

lemma getCaptcha_step:
  "getCaptcha net url c = (c', r) \<Longrightarrow>
   (c' = c \<and> (\<exists>e. r = LoginFailed e)) \<or> (\<exists>ick img. c' = auth_set ''ick'' ick c \<and> r = CaptchaNeeded img)"
  by (auto simp: getCaptcha_def split: http_answer.splits)

lemma sendTicket_step:
  assumes "sendTicket lib net c = (c', r)"
  shows "(c' = c \<and> r \<noteq> LoggedIn \<and> (\<forall>img. r \<noteq> CaptchaNeeded img)) \<or>
    (\<exists>ick img. c' = auth_set ''ick'' ick c \<and> r = CaptchaNeeded img)"
  using assms getCaptcha_step [of net _ c c' r] unfolding sendTicket_def
  by (auto split: option.splits http_answer.splits sum.splits prod.splits if_splits)

text \<open>What the first step of a login leaves: the name, the password, and what the ticket needs.\<close>

definition step_state :: "login_state \<Rightarrow> string \<Rightarrow> string \<Rightarrow> login_state \<Rightarrow> bool" where
  "step_state c u p c' \<longleftrightarrow> c' = c\<lparr>auth := auth c'\<rparr> \<and> auth c' \<noteq> None \<and>
     auth_get c' ''username'' = u \<and> auth_get c' ''password'' = p"

lemma step_state_set:
  "step_state c u p c' \<Longrightarrow> k \<noteq> ''username'' \<Longrightarrow> k \<noteq> ''password'' \<Longrightarrow> step_state c u p (auth_set k v c')"
proof -
  assume s: "step_state c u p c'" and k: "k \<noteq> ''username''" "k \<noteq> ''password''"
  then have "c' = c\<lparr>auth := auth c'\<rparr>" by (simp add: step_state_def)
  then have "auth_set k v c' = c\<lparr>auth := auth (auth_set k v c')\<rparr>"
    unfolding auth_set_def by (metis (no_types, lifting) login_state.surjective login_state.update_convs(6) login_state.select_convs(6))
  with s k show ?thesis by (simp add: step_state_def auth_get_set)
qed

lemma dec_int_nonempty [simp]: "dec_int i \<noteq> []"
  by (simp add: dec_int_def)

lemma authStart_step:
  assumes "authStart lib net url c1 = (c', r)" "step_state c u p c1"
  shows "r \<noteq> LoggedIn \<and> step_state c u p c' \<and> ((\<exists>ph em. r = VerifyNeeded ph em) \<longrightarrow> auth_get c' ''flag'' \<noteq> [])"
proof (cases "\<exists>flag session. sendTicket lib net (auth_set ''identity_session'' session (auth_set ''flag'' (dec_int flag) c1)) = (c', r)")
  case True
  then obtain flag session where
    s: "sendTicket lib net (auth_set ''identity_session'' session (auth_set ''flag'' (dec_int flag) c1)) = (c', r)" by blast
  let ?c = "auth_set ''identity_session'' session (auth_set ''flag'' (dec_int flag) c1)"
  have st: "step_state c u p ?c" by (simp add: step_state_set assms(2))
  have fl: "auth_get ?c ''flag'' \<noteq> []" using assms(2) by (simp add: auth_get_set step_state_def)
  from sendTicket_step [OF s] st fl step_state_set [OF st, of "''ick''"] show ?thesis by auto
next
  case False
  with assms show ?thesis
    by (auto simp: authStart_def split: http_answer.splits sum.splits prod.splits)
qed

lemma Login_step:
  assumes "Login lib net device u p c = (c', r)"
  shows "(r = LoggedIn \<longrightarrow> auth c' = None) \<and>
    ((\<exists>img. r = CaptchaNeeded img) \<or> (\<exists>ph em. r = VerifyNeeded ph em) \<longrightarrow> step_state c u p c') \<and>
    ((\<exists>ph em. r = VerifyNeeded ph em) \<longrightarrow> auth_get c' ''flag'' \<noteq> [])"
proof -
  define c1 where "c1 = c\<lparr>auth := Some [''username'' \<mapsto> u, ''password'' \<mapsto> p]\<rparr>"
  have st: "step_state c u p c1" by (simp add: step_state_def c1_def auth_get_def)
  consider (early) "c' = c" "(\<exists>e. r = LoginFailed e) \<or> r = Panicked"
    | (captcha) url where "getCaptcha net url c1 = (c', r)"
    | (notify) url where "authStart lib net url c1 = (c', r)"
    | (none) "c' = c1" "\<exists>e. r = LoginFailed e"
    | (finish) l k t where "finishAuth lib net l (c1\<lparr>auth := None, ssecurity := k, passToken := t\<rparr>) = (c', r)"
    using assms unfolding Login_def c1_def [symmetric] Let_def
    by (auto split: http_answer.splits sum.splits option.splits prod.splits if_splits)
  then show ?thesis
  proof cases
    case (captcha url)
    from getCaptcha_step [OF captcha] st step_state_set [OF st, of "''ick''"] show ?thesis by auto
  next
    case (notify url)
    from authStart_step [OF notify st] show ?thesis by blast
  next
    case (finish l k t)
    from finishAuth_auth [of lib net l "c1\<lparr>auth := None, ssecurity := k, passToken := t\<rparr>"]
      finishAuth_result [of lib net l "c1\<lparr>auth := None, ssecurity := k, passToken := t\<rparr>"] finish
    show ?thesis by auto
  qed auto
qed

subsection \<open>Properties\<close>


definition demo_login_lib :: login_lib where
  "demo_login_lib = \<lparr>json_form = (\<lambda>s. Inr \<lparr>qs = [], sign = [], form_sid = [], callback = []\<rparr>),
     json_answer = (\<lambda>s. Inr \<lparr>ans_ssecurity = [], ans_passToken = [], ans_location = [], captchaURL = ''/c'', notificationURL = []\<rparr>),
     json_location = Inr, json_flag = (\<lambda>s. Inr 4), json_masked = (\<lambda>s. Inr ([], [])), json_ticket = (\<lambda>s. Inr (0, [])),
     json_pragma = (\<lambda>s. Inl s), url_valid = (\<lambda>s. True), md5_upper = (\<lambda>s. s), replace_start = (\<lambda>s. s)\<rparr>"

definition demo_net :: network where
  "demo_net call = Answer ''&&&START&&&{}'' [\<lparr>hop_cookies = [(''ick'', ''K'')], pragma = []\<rparr>]"


end
