(* ===== verification/XiaomiSrv.thy ===== *)
theory XiaomiSrv
  imports CloudLogin MissClient
begin

section \<open>The Xiaomi module of go2rtc\<close>

text \<open>
  Models \<open>internal/xiaomi/xiaomi.go\<close>: the saved tokens and the cached clients of the cloud, a request
  that logs in again once, the addresses that it builds for the cameras, the list of devices and the
  login API. The state is the maps \<open>tokens\<close> and \<open>clouds\<close>, the login under way and the entries written
  to the configuration. Requests to the cloud are answered by a parameter that also gets the number
  of the attempt; keys, JSON decoding and the network are parameters. An address is a record of its
  parts, its query the list of its pairs.
\<close>

record xm_state =
  tokens :: "string \<rightharpoonup> string"
  clouds :: "string \<rightharpoonup> login_state"
  pending_login :: "login_state option"
  config :: "(string \<times> string) list"

text \<open>A request: address of the region, path, parameters.\<close>

type_synonym xm_request = "string \<times> string \<times> string"
type_synonym xm_ask = "nat \<Rightarrow> login_state \<Rightarrow> xm_request \<Rightarrow> string + string"

definition AppXiaomiHome :: string where
  "AppXiaomiHome = ''xiaomiio''"

definition GetBaseURL :: "string \<Rightarrow> string" where
  "GetBaseURL region =
     (if region \<in> {''de'', ''i2'', ''ru'', ''sg'', ''us''}
      then ''https://'' @ region @ ''.api.io.mi.com/app'' else ''https://api.io.mi.com/app'')"

definition token_of :: "xm_state \<Rightarrow> string \<Rightarrow> string" where
  "token_of s user = (case tokens s user of Some t \<Rightarrow> t | None \<Rightarrow> [])"

definition getCloud :: "login_lib \<Rightarrow> network \<Rightarrow> string \<Rightarrow> xm_state \<Rightarrow> xm_state \<times> (string + login_state)" where
  "getCloud lib net user s =
     (case clouds s user of
        Some c \<Rightarrow> (s, Inr c)
      | None \<Rightarrow>
          (case LoginWithToken lib net user (token_of s user) (NewCloud AppXiaomiHome) of
             (c, LoginFailed e) \<Rightarrow> (s, Inl e)
           | (c, _) \<Rightarrow> (s\<lparr>clouds := (clouds s)(user \<mapsto> c)\<rparr>, Inr c)))"

text \<open>The state, the answer, and the requests that were sent, each with the client that sent it.\<close>

definition cloudRequest :: "login_lib \<Rightarrow> network \<Rightarrow> xm_ask \<Rightarrow> string \<Rightarrow> string \<Rightarrow> string \<Rightarrow> string \<Rightarrow> xm_state \<Rightarrow>
    xm_state \<times> (string + string) \<times> (login_state \<times> xm_request) list" where
  "cloudRequest lib net ask user region apiURL params s =
     (let req = (GetBaseURL region, apiURL, params) in
      case getCloud lib net user s of
        (s1, Inl e) \<Rightarrow> (s1, Inl e, [])
      | (s1, Inr c) \<Rightarrow>
          (case ask 0 c req of
             Inr r \<Rightarrow> (s1, Inr r, [(c, req)])
           | Inl e \<Rightarrow>
               if \<not> contains e ''401'' then (s1, Inl e, [(c, req)])
               else case getCloud lib net user (s1\<lparr>clouds := (clouds s1)(user := None)\<rparr>) of
                 (s2, Inl e2) \<Rightarrow> (s2, Inl e2, [(c, req)])
               | (s2, Inr c2) \<Rightarrow> (s2, ask 1 c2 req, [(c, req), (c2, req)])))"

subsection \<open>Addresses of the cameras\<close>

record legacy_answer =
  p2p_id :: string
  legacy_password :: string
  p2p_dev_public_key :: string
  signForAppData :: string

record vendor_answer =
  vendor_id :: nat
  vendor_uid :: string
  vendor_public_key :: string
  vendor_sign :: string

record xm_lib =
  json_legacy :: "string \<Rightarrow> string + legacy_answer"
  json_vendor :: "string \<Rightarrow> string + vendor_answer"
  legacy_keys :: "string + bytes \<times> bytes"
  miss_keys :: "string + bytes \<times> bytes"

definition getVendorName :: "nat \<Rightarrow> string" where
  "getVendorName i =
     (if i = 1 then ''tutk'' else if i = 3 then ''agora'' else if i = 4 then ''cs2''
      else if i = 6 then ''mtp'' else dec_int (int i))"

definition legacyParams :: "query \<Rightarrow> bytes \<Rightarrow> string" where
  "legacyParams q pub =
     ''{\"did\":\"'' @ query_get q ''did'' @ ''\",\"toSignAppData\":\"'' @ hex_text pub @ ''\"}''"

definition vendorParams :: "query \<Rightarrow> bytes \<Rightarrow> string" where
  "vendorParams q pub =
     ''{\"app_pubkey\":\"'' @ hex_text pub @ ''\",\"did\":\"'' @ query_get q ''did'' @
     ''\",\"support_vendors\":\"TUTK_CS2_MTP\"}''"

text \<open>The query that is set from the answer of the cloud.\<close>

definition legacyQuery :: "legacy_answer \<Rightarrow> bytes \<Rightarrow> bytes \<Rightarrow> query \<Rightarrow> query" where
  "legacyQuery v pub priv q =
     (let q1 = query_set ''uid'' (p2p_id v) q in
      if signForAppData v \<noteq> [] then
        query_set ''sign'' (signForAppData v) (query_set ''device_public'' (p2p_dev_public_key v)
          (query_set ''client_private'' (hex_text priv) (query_set ''client_public'' (hex_text pub) q1)))
      else query_set ''password'' (legacy_password v) q1)"

definition vendorQuery :: "vendor_answer \<Rightarrow> bytes \<Rightarrow> bytes \<Rightarrow> query \<Rightarrow> query" where
  "vendorQuery v pub priv q =
     (let q1 = query_set ''vendor'' (getVendorName (vendor_id v)) (query_set ''sign'' (vendor_sign v)
            (query_set ''device_public'' (vendor_public_key v)
              (query_set ''client_private'' (hex_text priv) (query_set ''client_public'' (hex_text pub) q))))
      in if vendor_id v = 1 then query_set ''uid'' (vendor_uid v) q1 else q1)"

text \<open>\<open>ask\<close> sends a request of the user of the address: path and parameters.\<close>

definition getLegacyURL :: "xm_lib \<Rightarrow> (string \<Rightarrow> string \<Rightarrow> string + string) \<Rightarrow> go_url \<Rightarrow> string + go_url" where
  "getLegacyURL lib ask u =
     (case legacy_keys lib of
        Inl e \<Rightarrow> Inl e
      | Inr (pub, priv) \<Rightarrow>
          (case ask ''/device/devicepass'' (legacyParams (url_query u) pub) of
             Inl e \<Rightarrow> Inl e
           | Inr res \<Rightarrow>
               (case json_legacy lib res of
                  Inl e \<Rightarrow> Inl e
                | Inr v \<Rightarrow> Inr (u\<lparr>url_query := legacyQuery v pub priv (url_query u)\<rparr>))))"

definition getMissURL :: "xm_lib \<Rightarrow> (string \<Rightarrow> string \<Rightarrow> string + string) \<Rightarrow> go_url \<Rightarrow> string + go_url" where
  "getMissURL lib ask u =
     (case miss_keys lib of
        Inl e \<Rightarrow> Inl e
      | Inr (pub, priv) \<Rightarrow>
          (case ask ''/v2/device/miss_get_vendor'' (vendorParams (url_query u) pub) of
             Inl e \<Rightarrow> if contains e ''no available vendor support'' then getLegacyURL lib ask u else Inl e
           | Inr res \<Rightarrow>
               (case json_vendor lib res of
                  Inl e \<Rightarrow> Inl e
                | Inr v \<Rightarrow> Inr (u\<lparr>url_query := vendorQuery v pub priv (url_query u)\<rparr>))))"

definition IsLegacy :: "string \<Rightarrow> bool" where
  "IsLegacy model \<longleftrightarrow> model \<in> {''lumi.camera.gwagl01'', ''chuangmi.camera.ipc019e'', ''loock.cateye.v01'',
     ''chuangmi.camera.xiaobai'', ''isa.camera.isc5''}"

definition wakeUpPath :: "query \<Rightarrow> string" where
  "wakeUpPath q = ''/home/rpc/'' @ query_get q ''did''"

definition wakeUpParams :: string where
  "wakeUpParams = ''{\"id\":1,\"method\":\"wakeup\",\"params\":{\"video\":\"1\"}}''"

text \<open>The result, and whether a wake-up was sent first; its own outcome is ignored.\<close>

definition getCameraURL :: "xm_lib \<Rightarrow> (string \<Rightarrow> string \<Rightarrow> string + string) \<Rightarrow> go_url \<Rightarrow>
    (string + go_url) \<times> (string \<times> string) list" where
  "getCameraURL lib ask u =
     (let model = query_get (url_query u) ''model'' in
      (if IsLegacy model then getLegacyURL lib ask u else getMissURL lib ask u,
       if contains model ''.cateye.'' then [(wakeUpPath (url_query u), wakeUpParams)] else []))"

subsection \<open>Devices\<close>

record device =
  Did :: string
  DeviceName :: string
  Model :: string
  MAC :: string
  IP :: string

definition HasCamera :: "device \<Rightarrow> bool" where
  "HasCamera d \<longleftrightarrow> contains (Model d) ''.camera.'' \<or> contains (Model d) ''.cateye.'' \<or> contains (Model d) ''.feeder.''"

text \<open>A source of the list: name, text, address.\<close>

definition deviceSource :: "string \<Rightarrow> string \<Rightarrow> device \<Rightarrow> string \<times> string \<times> string" where
  "deviceSource user region d =
     (DeviceName d, ''ip: '' @ IP d @ '', mac: '' @ MAC d,
      ''xiaomi://'' @ user @ '':'' @ region @ ''@'' @ IP d @ ''?did='' @ Did d @ ''&model='' @ Model d)"

definition deviceSources :: "string \<Rightarrow> string \<Rightarrow> device list \<Rightarrow> (string \<times> string \<times> string) list" where
  "deviceSources user region ds = map (deviceSource user region) (filter HasCamera ds)"

subsection \<open>The login API\<close>

datatype auth_reply = AuthOk | WrongRequest | NextStep login_result | AuthError string | AuthPanic

definition saveLogin :: "login_state \<Rightarrow> xm_state \<Rightarrow> xm_state" where
  "saveLogin c s =
     (let (user, token) = UserToken c in
      s\<lparr>pending_login := None, tokens := (tokens s)(user \<mapsto> token), config := config s @ [(user, token)]\<rparr>)"

text \<open>
  \<open>apiAuth\<close> after the form is parsed; \<open>patch\<close> is the error of writing the configuration. A step without
  a login under way panics, as does a step that the login does not expect.
\<close>

definition apiAuth :: "login_lib \<Rightarrow> network \<Rightarrow> string \<Rightarrow> string option \<Rightarrow> query \<Rightarrow> xm_state \<Rightarrow> xm_state \<times> auth_reply" where
  "apiAuth lib net dev patch form s =
     (let user = query_get form ''username''; pass = query_get form ''password'';
          captcha = query_get form ''captcha''; verify = query_get form ''verify'' in
      case (if user \<noteq> [] \<or> pass \<noteq> [] then Some (Some (Login lib net dev user pass (NewCloud AppXiaomiHome)))
            else if captcha \<noteq> [] then Some (map_option (LoginWithCaptcha lib net dev captcha) (pending_login s))
            else if verify \<noteq> [] then Some (map_option (LoginWithVerify lib net verify) (pending_login s))
            else None) of
        None \<Rightarrow> (s, WrongRequest)
      | Some None \<Rightarrow> (s, AuthPanic)
      | Some (Some (c, r)) \<Rightarrow>
          (case r of
             LoggedIn \<Rightarrow> (saveLogin c s, case patch of None \<Rightarrow> AuthOk | Some e \<Rightarrow> AuthError e)
           | LoginFailed e \<Rightarrow> (s\<lparr>pending_login := Some c\<rparr>, AuthError e)
           | Panicked \<Rightarrow> (s\<lparr>pending_login := Some c\<rparr>, AuthPanic)
           | _ \<Rightarrow> (s\<lparr>pending_login := Some c\<rparr>, NextStep r)))"

subsection \<open>Lemmas\<close>

lemma LoginWithToken_result:
  assumes "LoginWithToken lib net user token c = (c', r)"
  shows "r = LoggedIn \<or> (\<exists>e. r = LoginFailed e)"
proof (cases "\<exists>l d. finishAuth lib net l d = (c', r)")
  case True
  then obtain l d where "finishAuth lib net l d = (c', r)" by blast
  with finishAuth_result [of lib net l d] show ?thesis by simp
next
  case False
  with assms show ?thesis
    by (auto simp: LoginWithToken_def split: http_answer.splits sum.splits prod.splits)
qed

lemma getCloud_step:
  assumes "getCloud lib net user s = (s', r)"
  shows "(\<exists>c. clouds s user = Some c \<and> r = Inr c \<and> s' = s) \<or>
    (clouds s user = None \<and> (\<exists>e. r = Inl e) \<and> s' = s) \<or>
    (clouds s user = None \<and> (\<exists>c. r = Inr c \<and> s' = s\<lparr>clouds := (clouds s)(user \<mapsto> c)\<rparr> \<and>
       LoginWithToken lib net user (token_of s user) (NewCloud AppXiaomiHome) = (c, LoggedIn)))"
proof (cases "clouds s user")
  case None
  obtain c q where l: "LoginWithToken lib net user (token_of s user) (NewCloud AppXiaomiHome) = (c, q)"
    by (metis surj_pair)
  from LoginWithToken_result [OF l] None l assms show ?thesis by (auto simp: getCloud_def)
qed (use assms in \<open>simp add: getCloud_def\<close>)

lemma query_get_vendorQuery:
  "query_get (vendorQuery v pub priv q) ''client_private'' = hex_text priv"
  "query_get (vendorQuery v pub priv q) ''client_public'' = hex_text pub"
  "query_get (vendorQuery v pub priv q) ''device_public'' = vendor_public_key v"
  "query_get (vendorQuery v pub priv q) ''sign'' = vendor_sign v"
  "query_get (vendorQuery v pub priv q) ''vendor'' = getVendorName (vendor_id v)"
  "vendor_id v = 1 \<Longrightarrow> query_get (vendorQuery v pub priv q) ''uid'' = vendor_uid v"
  "k \<notin> {''client_private'', ''client_public'', ''device_public'', ''sign'', ''vendor'', ''uid''} \<Longrightarrow>
     query_get (vendorQuery v pub priv q) k = query_get q k"
  by (simp_all add: vendorQuery_def Let_def query_get_set)

subsection \<open>Properties\<close>

text \<open>What a request of the login API saves, and the calls that a request to the cloud makes.\<close>

lemma apiAuth_saves:
  assumes "apiAuth lib net dev patch form s = (t, reply)"
  shows "if tokens t = tokens s \<and> config t = config s then True
     else (\<exists>c. t = saveLogin c s) \<and> pending_login t = None \<and> (reply = AuthOk \<or> (\<exists>e. patch = Some e \<and> reply = AuthError e))"
proof (cases "\<exists>c. t = saveLogin c s \<and> reply = (case patch of None \<Rightarrow> AuthOk | Some e \<Rightarrow> AuthError e)")
  case True
  then obtain c where c: "t = saveLogin c s" "reply = (case patch of None \<Rightarrow> AuthOk | Some e \<Rightarrow> AuthError e)" by blast
  have "pending_login t = None" by (simp add: c(1) saveLogin_def case_prod_beta)
  with c show ?thesis by (auto split: option.split)
next
  case False
  with assms have "tokens t = tokens s \<and> config t = config s"
    unfolding apiAuth_def Let_def
    by (auto split: option.splits prod.splits login_result.splits if_splits)
  then show ?thesis by simp
qed

text \<open>A request that is repeated after an error with 401: the session was dropped in between.\<close>

lemma cloudRequest_again:
  assumes "cloudRequest lib net ask user region apiURL params s = (s', r, calls)"
    "getCloud lib net user s = (s1, Inr c)" "ask 0 c (GetBaseURL region, apiURL, params) = Inl e" "contains e ''401''"
  shows "tokens s' = tokens s \<and> (\<forall>u. u \<noteq> user \<longrightarrow> clouds s' u = clouds s u) \<and>
    ((\<exists>e2. r = Inl e2) \<and> calls = [(c, GetBaseURL region, apiURL, params)] \<or>
     (\<exists>c2. calls = [(c, GetBaseURL region, apiURL, params), (c2, GetBaseURL region, apiURL, params)] \<and> clouds s' user = Some c2 \<and>
        LoginWithToken lib net user (token_of s user) (NewCloud AppXiaomiHome) = (c2, LoggedIn)))"
proof -
  define s0 where "s0 = s1\<lparr>clouds := (clouds s1)(user := None)\<rparr>"
  obtain s2 q where g2: "getCloud lib net user s0 = (s2, q)" by (metis surj_pair)
  have same: "tokens s1 = tokens s" "\<forall>u. u \<noteq> user \<longrightarrow> clouds s1 u = clouds s u"
    using getCloud_step [OF assms(2)] by auto
  have s0: "token_of s0 user = token_of s user" "clouds s0 user = None"
    using same(1) by (simp_all add: token_of_def s0_def)
  have same2: "tokens s2 = tokens s" "\<forall>u. u \<noteq> user \<longrightarrow> clouds s2 u = clouds s u"
    using getCloud_step [OF g2] same by (auto simp: s0_def)
  note def = cloudRequest_def s0_def [symmetric] Let_def
  show ?thesis
  proof (cases q)
    case (Inl e2)
    with assms g2 same2 show ?thesis by (auto simp: def)
  next
    case (Inr c2)
    have "clouds s2 user = Some c2" "LoginWithToken lib net user (token_of s user) (NewCloud AppXiaomiHome) = (c2, LoggedIn)"
      using getCloud_step [OF g2] Inr s0 by auto
    with Inr assms g2 same2 show ?thesis by (auto simp: def)
  qed
qed


definition demo_answer :: login_answer where
  "demo_answer = \<lparr>ans_ssecurity = [5], ans_passToken = ''T'', ans_location = ''L'', captchaURL = [], notificationURL = []\<rparr>"

definition demo_home_lib :: login_lib where
  "demo_home_lib = demo_login_lib\<lparr>json_answer := (\<lambda>s. Inr demo_answer)\<rparr>"

definition demo_home_net :: network where
  "demo_home_net call = Answer ''&&&START&&&{}'' [\<lparr>hop_cookies = [(''userId'', ''U'')], pragma = []\<rparr>]"

definition demo_home :: xm_state where
  "demo_home = \<lparr>tokens = [''U'' \<mapsto> ''T0''], clouds = Map.empty, pending_login = None, config = []\<rparr>"

lemma demo_login: "LoginWithToken demo_home_lib demo_home_net ''U'' ''T0'' (NewCloud AppXiaomiHome) =
    (\<lparr>sid = ''xiaomiio'', cookies = ''userId=U; cUserId=; serviceToken='', ssecurity = [5], userID = ''U'',
      passToken = ''T'', auth = None\<rparr>, LoggedIn)"
  by (simp add: LoginWithToken_def demo_home_net_def readLoginResponse_def has_prefix_def demo_home_lib_def
      demo_login_lib_def finishAuth_def takeCookies_def takeCookie_def NewCloud_def AppXiaomiHome_def demo_answer_def)


text \<open>
  Claim C21. The address that the cloud's answer gives is one that the camera client reads back: for
  a new camera of vendor 4 or 1, and a device key in hexadecimal, the client computes the shared key
  from exactly the private key that was made and the public key of the answer, dials the
  connection of that vendor, and logs in with the public key and the signature of the answer.
\<close>

theorem xm_miss_address:
  assumes "getMissURL lib ask u = Inr u'" "miss_keys lib = Inr (pub, priv)"
    "ask ''/v2/device/miss_get_vendor'' (vendorParams (url_query u) pub) = Inr res"
    "json_vendor lib res = Inr v" "vendor_public_key v = hex_text dev" "length dev = 32" "length priv = 32"
    "vendor_id v = 4 \<or> vendor_id v = 1"
  shows "NewClient io precompute dialCs2 dialTutk (Some (query_get (url_query u'))) =
    (case (if vendor_id v = 4 then dialCs2 (query_get (url_query u) ''transport'') else dialTutk (vendor_uid v)) of
       Inl e \<Rightarrow> Some (None, Inl (ConnFail e))
     | Inr s \<Rightarrow>
         (case login io s (hex_text pub) (vendor_sign v) of
            None \<Rightarrow> None
          | Some (s1, Some e) \<Rightarrow> Some (Some (ioClose io s1), Inl e)
          | Some (s1, None) \<Rightarrow>
              Some (Some s1, Inr \<lparr>ckey = precompute dev priv, cmodel = query_get (url_query u) ''model''\<rparr>)))"
proof -
  have q: "url_query u' = vendorQuery v pub priv (url_query u)"
    using assms(1-4) by (auto simp: getMissURL_def)
  have k: "CalcSharedKey precompute (hex_text dev) (hex_text priv) = Inr (precompute dev priv)"
    using hexInto_hex_text [of dev 32] hexInto_hex_text [of priv 32] assms(6,7)
    by (simp add: CalcSharedKey_def go_copy_def)
  from assms(8) show ?thesis
  proof
    assume 4: "vendor_id v = 4"
    then show ?thesis
      by (simp add: NewClient_def q query_get_vendorQuery assms(5) k getVendorName_def split: sum.split option.split)
  next
    assume 1: "vendor_id v = 1"
    then show ?thesis
      by (simp add: NewClient_def q query_get_vendorQuery assms(5) k getVendorName_def split: sum.split option.split)
  qed
qed

lemma contains_self [simp]: "contains xs xs"
proof -
  have "xs = [] @ xs @ []" by simp
  then show ?thesis unfolding contains_iff by blast
qed

definition demo_io :: "(unit, string) miss_conn" where
  "demo_io = \<lparr>ioReadCommand = (\<lambda>s. Some (s, Inr (cmdAuthReq, bytes_of ''\"result\":\"success\"''))),
     ioWriteCommand = (\<lambda>s c d. (s, None)), ioReadPacket = (\<lambda>s. None), ioWritePacket = (\<lambda>s h p. (s, None)),
     ioClose = (\<lambda>s. s)\<rparr>"

definition demo_vendor :: vendor_answer where
  "demo_vendor = \<lparr>vendor_id = 4, vendor_uid = [], vendor_public_key = hex_text (replicate 32 3), vendor_sign = ''S''\<rparr>"

definition demo_xm_lib :: xm_lib where
  "demo_xm_lib = \<lparr>json_legacy = (\<lambda>s. Inl s), json_vendor = (\<lambda>s. Inr demo_vendor), legacy_keys = Inl [],
     miss_keys = Inr (replicate 32 1, replicate 32 2)\<rparr>"

definition demo_camera_url :: go_url where
  "demo_camera_url = \<lparr>url_scheme = ''xiaomi'', url_user = Some (''1'', ''de''), url_host = ''h'', url_path = [],
     url_query = [(''did'', ''7''), (''model'', ''m'')]\<rparr>"

theorem xm_miss_address_witness:
  "NewClient demo_io (\<lambda>a b. a @ b) (\<lambda>t. Inr ()) (\<lambda>t. Inl ''no'')
     (Some (query_get (vendorQuery demo_vendor (replicate 32 1) (replicate 32 2) (url_query demo_camera_url)))) =
   Some (Some (), Inr \<lparr>ckey = replicate 32 3 @ replicate 32 2, cmodel = ''m''\<rparr>)"
proof -
  have g: "getMissURL demo_xm_lib (\<lambda>p q. Inr []) demo_camera_url =
      Inr (demo_camera_url\<lparr>url_query := vendorQuery demo_vendor (replicate 32 1) (replicate 32 2) (url_query demo_camera_url)\<rparr>)"
    by (simp add: getMissURL_def demo_xm_lib_def)
  have l: "login demo_io () p s = Some ((), None)" for p s
    using contains_self by (simp add: login_def demo_io_def)
  from xm_miss_address [OF g, of "replicate 32 1" "replicate 32 2" "[]" demo_vendor "replicate 32 3" demo_io "\<lambda>a b. a @ b"
      "\<lambda>t. Inr ()" "\<lambda>t. Inl ''no''"]
  show ?thesis by (simp add: demo_xm_lib_def demo_vendor_def l) (simp add: demo_camera_url_def)
qed

end
