(* ===== verification/Aac.thy ===== *)
theory Aac
  imports Bits GoText
begin

section \<open>AAC: configurations, ADTS and RTP\<close>

text \<open>
  Models \<open>pkg/aac/aac.go\<close>, \<open>adts.go\<close> and \<open>rtp.go\<close>: the bit fields of the MPEG-4 audio configuration
  and of the ADTS header, read and written with the reader and the writer of \<open>Bits\<close>, and the
  packing of units in RTP packets. An index or slice out of range, which panics, is \<open>None\<close>.
\<close>

subsection \<open>Configurations\<close>

definition TypeAACLC :: nat where "TypeAACLC = 2"
definition TypeAACLD :: nat where "TypeAACLD = 23"
definition TypeESCAPE :: nat where "TypeESCAPE = 31"
definition TypeAACELD :: nat where "TypeAACELD = 39"
definition AUTime :: u32 where "AUTime = 1024"

lemmas aac_types = TypeAACLC_def TypeAACLD_def TypeESCAPE_def TypeAACELD_def

definition aacFMTP :: string where
  "aacFMTP = ''streamtype=5;profile-level-id=1;mode=AAC-hbr;sizelength=13;indexlength=3;indexdeltalength=3;config=''"

definition aac_rates :: "u32 list" where
  "aac_rates = [96000, 88200, 64000, 48000, 44100, 32000, 24000, 22050, 16000, 12000, 11025, 8000, 7350, 0, 0, 0]"

record aac_codec =
  acName :: string
  acRate :: u32
  acChannels :: u8
  acFmtp :: string
  acPayloadType :: u8

definition hex_upper_digit :: "nat \<Rightarrow> char" where
  "hex_upper_digit n = char_of (if n < 10 then 48 + n else 55 + n)"

fun hex_upper :: "nat \<Rightarrow> string" where
  "hex_upper n = (if n < 16 then [hex_upper_digit n] else hex_upper (n div 16) @ [hex_upper_digit (n mod 16)])"

definition ConfigToCodec :: "bytes \<Rightarrow> aac_codec" where
  "ConfigToCodec conf =
     (let (t1, rd1) = ReadBits 5 (NewReader conf);
          (objType, rd2) = (if t1 = 31 then (case ReadBits 6 rd1 of (e, r) \<Rightarrow> (32 + e, r)) else (t1, rd1));
          name = (if unat objType = TypeAACLC \<or> unat objType = TypeAACLD \<or> unat objType = TypeAACELD
                  then ''MPEG4-GENERIC'' else ''AAC-'' @ hex_upper (unat objType));
          (i, rd3) = ReadBits8 4 rd2;
          (rate, rd4) = (if i < 0x0F then (aac_rates ! unat i, rd3) else ReadBits 24 rd3);
          (channels, rd5) = ReadBits8 4 rd4
      in \<lparr>acName = name, acRate = rate, acChannels = channels, acFmtp = aacFMTP @ hex_text conf, acPayloadType = 255\<rparr>)"

definition DecodeConfig :: "bytes \<Rightarrow> u8 \<times> u8 \<times> u8 \<times> u32" where
  "DecodeConfig b =
     (let (t1, rd1) = ReadBits8 5 (NewReader b);
          (objType, rd2) = (if t1 = 31 then (case ReadBits8 6 rd1 of (e, r) \<Rightarrow> (32 + e, r)) else (t1, rd1));
          (i, rd3) = ReadBits8 4 rd2;
          (rate, rd4) = (if i = 15 then ReadBits 24 rd3 else (aac_rates ! unat i, rd3));
          (channels, rd5) = ReadBits8 4 rd4
      in (objType, i, channels, rate))"

fun indexUint32 :: "u32 list \<Rightarrow> u32 \<Rightarrow> nat option" where
  "indexUint32 [] v = None"
| "indexUint32 (x # xs) v = (if v = x then Some 0 else map_option Suc (indexUint32 xs v))"

text \<open>The last steps of \<open>EncodeConfig\<close>: the fields of the low delay types.\<close>

definition lowDelayFields :: "(nat \<Rightarrow> nat) \<Rightarrow> u8 \<Rightarrow> bool \<Rightarrow> bit_writer \<Rightarrow> bit_writer" where
  "lowDelayFields grow objType shortFrame w =
     (if unat objType = TypeAACLD then
        WriteBits8 grow 0 2 (WriteBit grow 0 (WriteBit grow 0 (WriteBool grow shortFrame w)))
      else if unat objType = TypeAACELD then
        WriteBits8 grow 0 2 (WriteBits8 grow 0 4 (WriteBit grow 0 (WriteBits8 grow 0 3 (WriteBool grow shortFrame w))))
      else w)"

definition EncodeConfig :: "(nat \<Rightarrow> nat) \<Rightarrow> u8 \<Rightarrow> u32 \<Rightarrow> u8 \<Rightarrow> bool \<Rightarrow> bytes" where
  "EncodeConfig grow objType sampleRate channels shortFrame =
     (let wr = NewWriter [] 0;
          wr1 = (if unat objType < TypeESCAPE then WriteBits8 grow objType 5 wr
                 else WriteBits8 grow (objType - 32) 6 (WriteBits8 grow 31 5 wr));
          wr2 = (case indexUint32 aac_rates sampleRate of
                   Some i \<Rightarrow> WriteBits8 grow (of_nat i) 4 wr1
                 | None \<Rightarrow> WriteBits grow sampleRate 24 (WriteBits8 grow 0xF 4 wr1));
          wr3 = WriteBits8 grow channels 4 wr2
      in Bytes (lowDelayFields grow objType shortFrame wr3))"

subsection \<open>ADTS\<close>

definition ADTSHeaderSize :: nat where "ADTSHeaderSize = 7"

definition HasCRC :: "bytes \<Rightarrow> bool option" where
  "HasCRC b = (if length b < 2 then None else Some (b ! 1 AND 1 = 0))"

definition ADTSHeaderLen :: "bytes \<Rightarrow> nat option" where
  "ADTSHeaderLen b = map_option (\<lambda>crc. if crc then 9 else ADTSHeaderSize) (HasCRC b)"

definition IsADTS :: "bytes \<Rightarrow> bool" where
  "IsADTS b \<longleftrightarrow> ADTSHeaderSize \<le> length b \<and> b ! 0 = 0xFF \<and> b ! 1 AND 0xF6 = 0xF0"

definition ADTSToCodec :: "(nat \<Rightarrow> nat) \<Rightarrow> bytes \<Rightarrow> aac_codec option" where
  "ADTSToCodec grow b =
     (if \<not> IsADTS b then None
      else
        let (_, rd1) = ReadBits 12 (NewReader b);
            (_, rd2) = ReadBit rd1;
            (_, rd3) = ReadBits 2 rd2;
            (_, rd4) = ReadBit rd3;
            (profile, rd5) = ReadBits8 2 rd4;
            (i, rd6) = ReadBits8 4 rd5;
            (_, rd7) = ReadBit rd6;
            (channels, rd8) = ReadBits8 3 rd7;
            conf = Bytes (WriteBits8 grow channels 4 (WriteBits8 grow i 4 (WriteBits8 grow (profile + 1) 5 (NewWriter [] 0))))
        in Some \<lparr>acName = ''MPEG4-GENERIC'', acRate = aac_rates ! unat i, acChannels = channels,
                 acFmtp = aacFMTP @ hex_text conf, acPayloadType = 0\<rparr>)"

definition ReadADTSSize :: "bytes \<Rightarrow> u16 option" where
  "ReadADTSSize b =
     (if length b < 6 then None
      else Some (push_bit 11 (ucast (b ! 3 AND 3)) OR push_bit 3 (ucast (b ! 4)) OR ucast (drop_bit 5 (b ! 5))))"

definition WriteADTSSize :: "bytes \<Rightarrow> u16 \<Rightarrow> bytes option" where
  "WriteADTSSize b sz =
     (if length b < 6 then None
      else Some (b[3 := b ! 3 OR ucast (drop_bit 11 sz), 4 := ucast (drop_bit 3 sz), 5 := b ! 5 OR ucast (push_bit 5 sz)]))"

text \<open>
  The loop of \<open>ADTSTimeSize\<close> does not end when a frame claims the size 0: then the outer option is
  \<open>None\<close>. The inner \<open>None\<close> is a slice out of range.
\<close>

partial_function (option) adtsUnits :: "bytes \<Rightarrow> u32 \<Rightarrow> u32 option option" where
  "adtsUnits b units =
     (if length b \<le> ADTSHeaderSize then Some (Some units)
      else case ReadADTSSize b of
        None \<Rightarrow> Some None
      | Some auSize \<Rightarrow>
          if length b < unat auSize then Some None else adtsUnits (drop (unat auSize) b) (units + 1))"

definition ADTSTimeSize :: "bytes \<Rightarrow> u32 option option" where
  "ADTSTimeSize b = map_option (map_option (\<lambda>units. units * AUTime)) (adtsUnits b 0)"

definition CodecToADTS :: "(nat \<Rightarrow> nat) \<Rightarrow> aac_codec \<Rightarrow> bytes" where
  "CodecToADTS grow codec =
     (case hex_decode (Between (acFmtp codec) ''config='' '';'') of
        None \<Rightarrow> []
      | Some conf \<Rightarrow>
          let (objType, i, channels, _) = DecodeConfig conf;
              profile = objType - 1;
              wr1 = WriteAllBits grow 1 12 (NewWriter [] 0);
              wr2 = WriteBit grow 1 (WriteBits8 grow 0 2 (WriteBit grow 0 wr1));
              wr3 = WriteBits8 grow i 4 (WriteBits8 grow profile 2 wr2);
              wr4 = WriteBits8 grow channels 3 (WriteBit grow 0 wr3);
              wr5 = WriteBit grow 0 (WriteBit grow 0 (WriteBit grow 0 (WriteBit grow 0 wr4)));
              wr6 = WriteBits8 grow 0 2 (WriteAllBits grow 1 11 (WriteBits16 grow 0 13 wr5))
          in Bytes wr6)"

text \<open>The handler of \<open>EncodeToADTS\<close> on the payload of a packet; the rest of the packet stays.\<close>

definition EncodeToADTS :: "(nat \<Rightarrow> nat) \<Rightarrow> aac_codec \<Rightarrow> bytes \<Rightarrow> bytes option" where
  "EncodeToADTS grow codec payload =
     (if IsADTS payload then Some payload
      else let b = go_copy (go_copy (replicate (ADTSHeaderSize + length payload) 0) 0 (CodecToADTS grow codec))
                     ADTSHeaderSize payload
           in WriteADTSSize b (of_nat (length b)))"

subsection \<open>RTP\<close>

definition RTPPacketVersionAAC :: nat where "RTPPacketVersionAAC = 0"

text \<open>The loop over the units of a packet: the packets that are handed on, and the time.\<close>

fun depayLoop :: "rtp_packet \<Rightarrow> bytes \<Rightarrow> bytes \<Rightarrow> u32 \<Rightarrow> rtp_packet list \<times> u32" where
  "depayLoop pkt (a # b # headers) units ts =
     (let unitSize = unat (drop_bit 3 (get_be16 [a, b])) in
      if length units < unitSize then ([], ts)
      else let unit = take unitSize units; ts' = ts + AUTime;
               payload = (if IsADTS unit then drop ADTSHeaderSize unit else unit)
           in case depayLoop pkt headers (drop unitSize units) ts' of (ps, t) \<Rightarrow>
             (pkt\<lparr>rtpVersion := RTPPacketVersionAAC, rtpTS := ts', rtpPayload := payload\<rparr> # ps, t))"
| "depayLoop pkt _ units ts = ([], ts)"

definition RTPDepay :: "rtp_packet \<Rightarrow> u32 \<Rightarrow> (rtp_packet list \<times> u32) option" where
  "RTPDepay pkt ts =
     (let p = rtpPayload pkt in
      if length p < 2 then None
      else
        let headersSize = unat (drop_bit 3 (get_be16 p)) in
        if length p < 2 + headersSize then
          Some (if IsADTS p
                then [pkt\<lparr>rtpVersion := RTPPacketVersionAAC, rtpTS := ts, rtpPayload := drop ADTSHeaderSize p\<rparr>]
                else [], ts)
        else Some (depayLoop pkt (take headersSize (drop 2 p)) (drop (2 + headersSize) p) ts))"

text \<open>The handler of \<open>RTPPay\<close>: the state is the next sequence number and time.\<close>

definition RTPPay :: "rtp_packet \<Rightarrow> u16 \<times> u32 \<Rightarrow> (rtp_packet \<times> u16 \<times> u32) option" where
  "RTPPay pkt = (\<lambda>(sq, ts).
     if rtpVersion pkt \<noteq> RTPPacketVersionAAC then Some (pkt, sq, ts)
     else
       let auSize = of_nat (length (rtpPayload pkt)) :: u16; n = unat (2 + 2 + auSize) in
       if n < 4 then None
       else let payload = go_copy (go_copy ((replicate n 0)[1 := 16]) 2 (be16 (push_bit 3 auSize))) 4 (rtpPayload pkt)
            in Some (\<lparr>rtpVersion = 2, rtpMarker = True, rtpSeq = sq, rtpTS = ts, rtpPayload = payload\<rparr>,
                     sq + 1, ts + AUTime))"

text \<open>The loop of \<open>ADTStoRTP\<close>: the sizes of the units; \<open>None\<close> when it does not end.\<close>

partial_function (option) adtsHeaders :: "bytes \<Rightarrow> nat \<Rightarrow> bytes \<Rightarrow> bytes option" where
  "adtsHeaders src i dst =
     (if length src \<le> i + ADTSHeaderSize then Some dst
      else case ReadADTSSize (drop i src) of
        None \<Rightarrow> Some dst
      | Some auSize \<Rightarrow>
          adtsHeaders src (i + unat auSize) (dst @ [ucast (drop_bit 5 auSize), ucast (push_bit 3 auSize)]))"

definition ADTStoRTP :: "bytes \<Rightarrow> bytes option" where
  "ADTStoRTP src =
     map_option (\<lambda>dst. be16 (push_bit 3 (of_nat (length dst - 2))) @ drop 2 dst @ src) (adtsHeaders src 0 [0, 0])"

definition RTPTimeSize :: "bytes \<Rightarrow> u32 option" where
  "RTPTimeSize b = (if length b < 2 then None else Some (ucast (drop_bit 4 (get_be16 b)) * AUTime))"

text \<open>The outer \<open>None\<close> is a panic, the inner one \<open>nil\<close>.\<close>

definition RTPToCodec :: "(nat \<Rightarrow> nat) \<Rightarrow> bytes \<Rightarrow> aac_codec option option" where
  "RTPToCodec grow b =
     (if length b < 2 then None
      else let n = 2 + unat (get_be16 b div 8) in
        if length b < n then None else Some (ADTSToCodec grow (drop n b)))"

subsection \<open>Configurations are read back\<close>

definition type_bits :: "u8 \<Rightarrow> bool list" where
  "type_bits t =
     (if unat t < 31 then map (bit t) (rev [0..<5])
      else map (bit (31 :: u8)) (rev [0..<5]) @ map (bit (t - 32)) (rev [0..<6]))"

definition rate_bits :: "u32 \<Rightarrow> bool list" where
  "rate_bits rate =
     (case indexUint32 aac_rates rate of
        Some i \<Rightarrow> map (bit (of_nat i :: u8)) (rev [0..<4])
      | None \<Rightarrow> map (bit (15 :: u8)) (rev [0..<4]) @ map (bit rate) (rev [0..<24]))"

definition rate_index :: "u32 \<Rightarrow> u8" where
  "rate_index rate = (case indexUint32 aac_rates rate of Some i \<Rightarrow> of_nat i | None \<Rightarrow> 15)"

definition channel_bits :: "u8 \<Rightarrow> bool list" where
  "channel_bits ch = map (bit ch) (rev [0..<4])"

lemma lowDelayFields_written:
  "writer_ok w \<Longrightarrow> \<exists>bs. writer_ok (lowDelayFields grow t s w) \<and> written (lowDelayFields grow t s w) = written w @ bs"
  by (simp add: lowDelayFields_def del: upt_rec_numeral)

lemma EncodeConfig_bits:
  "\<exists>rest. byte_list_bits (EncodeConfig grow t rate ch s) = type_bits t @ rate_bits rate @ channel_bits ch @ rest"
proof -
  define w1 where "w1 = (if unat t < TypeESCAPE then WriteBits8 grow t 5 (NewWriter [] 0)
      else WriteBits8 grow (t - 32) 6 (WriteBits8 grow 31 5 (NewWriter [] 0)))"
  define w2 where "w2 = (case indexUint32 aac_rates rate of
      Some i \<Rightarrow> WriteBits8 grow (of_nat i) 4 w1 | None \<Rightarrow> WriteBits grow rate 24 (WriteBits8 grow 0xF 4 w1))"
  define w3 where "w3 = WriteBits8 grow ch 4 w2"
  have "writer_ok w1" "written w1 = type_bits t"
    by (simp_all add: w1_def type_bits_def TypeESCAPE_def del: upt_rec_numeral)
  then have "writer_ok w2" "written w2 = type_bits t @ rate_bits rate"
    by (simp_all add: w2_def rate_bits_def del: upt_rec_numeral split: option.split)
  then have w3: "writer_ok w3" "written w3 = type_bits t @ rate_bits rate @ channel_bits ch"
    by (simp_all add: w3_def channel_bits_def del: upt_rec_numeral)
  have e: "EncodeConfig grow t rate ch s = Bytes (lowDelayFields grow t s w3)"
    unfolding EncodeConfig_def Let_def w1_def w2_def w3_def ..
  from lowDelayFields_written [OF w3(1), of grow t s] w3(2) show ?thesis
    by (auto simp: e Bytes_written)
qed

lemma indexUint32_Some: "indexUint32 xs v = Some i \<Longrightarrow> i < length xs \<and> xs ! i = v"
  by (induction xs arbitrary: i) (auto split: if_splits)

lemma rate_index_less:
  assumes "indexUint32 aac_rates rate = Some i"
  shows "i < 14" "aac_rates ! i = rate"
proof -
  from indexUint32_Some [OF assms] have i: "i < 16" "aac_rates ! i = rate" by (simp_all add: aac_rates_def)
  then show "aac_rates ! i = rate" by simp
  have "i \<noteq> 14 \<and> i \<noteq> 15"
  proof (intro conjI notI)
    assume "i = 14" then have "rate = 0" using i(2) by (simp add: aac_rates_def)
    with assms \<open>i = 14\<close> show False by (simp add: aac_rates_def)
  next
    assume "i = 15" then have "rate = 0" using i(2) by (simp add: aac_rates_def)
    with assms \<open>i = 15\<close> show False by (simp add: aac_rates_def)
  qed
  with i(1) show "i < 14" by linarith
qed

lemma take_bit_small: "unat (w :: 'a::len word) < 2 ^ n \<Longrightarrow> take_bit n w = w"
  by (simp add: word_unat_eq_iff unsigned_take_bit_eq take_bit_nat_eq_self)

lemma readType:
  assumes "pending rd = type_bits t @ rest" "unat t < 31 \<or> 32 \<le> unat t \<and> unat t < 96"
  shows "\<exists>t1 rd1 rd2. ReadBits8 5 rd = (t1, rd1) \<and>
    (if t1 = 31 then (case ReadBits8 6 rd1 of (e, r) \<Rightarrow> (32 + e, r)) else (t1, rd1)) = (t, rd2) \<and> pending rd2 = rest"
proof (cases "unat t < 31")
  case True
  then have "pending rd = map (bit t) (rev [0..<unat (5 :: u8)]) @ rest"
    using assms(1) by (simp add: type_bits_def del: upt_rec_numeral)
  from ReadBits8_pending [OF this] obtain rd1 where
    "ReadBits8 5 rd = (take_bit 5 t, rd1)" "pending rd1 = rest" by auto
  moreover have "take_bit 5 t = t" using True by (intro take_bit_small) simp
  moreover have "t \<noteq> 31" using True by (auto simp: unat_eq_zero)
  ultimately show ?thesis by simp
next
  case False
  with assms(2) have t: "32 \<le> unat t" "unat t < 96" by simp_all
  have s: "unat (t - 32) = unat t - 32" using t(1) by (simp add: unat_sub word_le_nat_alt)
  have "pending rd = map (bit (31 :: u8)) (rev [0..<unat (5 :: u8)]) @ map (bit (t - 32)) (rev [0..<6]) @ rest"
    using assms(1) False by (simp add: type_bits_def del: upt_rec_numeral)
  from ReadBits8_pending [OF this] obtain rd1 where
    rd1: "ReadBits8 5 rd = (31, rd1)" "pending rd1 = map (bit (t - 32)) (rev [0..<unat (6 :: u8)]) @ rest"
    by (auto simp: take_bit_small del: upt_rec_numeral)
  from ReadBits8_pending [OF rd1(2)] obtain rd2 where
    "ReadBits8 6 rd1 = (take_bit 6 (t - 32), rd2)" "pending rd2 = rest" by auto
  moreover have "take_bit 6 (t - 32) = t - 32" using t s by (intro take_bit_small) simp
  ultimately show ?thesis using rd1(1) by simp
qed

lemma readRate:
  assumes "pending rd = rate_bits rate @ rest" "indexUint32 aac_rates rate = None \<longrightarrow> unat rate < 2 ^ 24"
  shows "\<exists>rd1 rd2. ReadBits8 4 rd = (rate_index rate, rd1) \<and>
    (if rate_index rate = 15 then ReadBits 24 rd1 else (aac_rates ! unat (rate_index rate), rd1)) = (rate, rd2) \<and>
    pending rd2 = rest"
proof (cases "indexUint32 aac_rates rate")
  case None
  then have "pending rd = map (bit (15 :: u8)) (rev [0..<unat (4 :: u8)]) @ map (bit rate) (rev [0..<24]) @ rest"
    using assms(1) by (simp add: rate_bits_def del: upt_rec_numeral)
  from ReadBits8_pending [OF this] obtain rd1 where
    rd1: "ReadBits8 4 rd = (15, rd1)" "pending rd1 = map (bit rate) (rev [0..<unat (24 :: u8)]) @ rest"
    by (auto simp: take_bit_small del: upt_rec_numeral)
  from ReadBits_pending [OF rd1(2)] obtain rd2 where
    "ReadBits 24 rd1 = (take_bit 24 rate, rd2)" "pending rd2 = rest" by auto
  with rd1(1) assms(2) None show ?thesis by (simp add: rate_index_def take_bit_small)
next
  case (Some i)
  note i = rate_index_less [OF Some]
  have "pending rd = map (bit (of_nat i :: u8)) (rev [0..<unat (4 :: u8)]) @ rest"
    using assms(1) Some by (simp add: rate_bits_def del: upt_rec_numeral)
  from ReadBits8_pending [OF this] obtain rd1 where
    rd1: "ReadBits8 4 rd = (take_bit 4 (of_nat i), rd1)" "pending rd1 = rest" by auto
  have u: "unat (of_nat i :: u8) = i" using i(1) by (simp add: unat_of_nat)
  have "take_bit 4 (of_nat i :: u8) = of_nat i" using i(1) by (intro take_bit_small) (simp add: u)
  moreover have "(of_nat i :: u8) \<noteq> 15"
  proof
    assume "(of_nat i :: u8) = 15"
    then have "unat (of_nat i :: u8) = 15" by (simp only:) simp
    with i(1) u show False by simp
  qed
  ultimately show ?thesis using rd1 i(2) Some by (simp add: rate_index_def u)
qed

lemma DecodeConfig_bits:
  assumes "byte_list_bits b = type_bits t @ rate_bits rate @ channel_bits ch @ rest"
    "unat t < 31 \<or> 32 \<le> unat t \<and> unat t < 96" "indexUint32 aac_rates rate = None \<longrightarrow> unat rate < 2 ^ 24" "unat ch < 16"
  shows "DecodeConfig b = (t, rate_index rate, ch, rate)"
proof -
  have "pending (NewReader b) = type_bits t @ rate_bits rate @ channel_bits ch @ rest" using assms(1) by simp
  from readType [OF this assms(2)] obtain t1 rd1 rd2 where
    1: "ReadBits8 5 (NewReader b) = (t1, rd1)" "pending rd2 = rate_bits rate @ channel_bits ch @ rest"
      "(if t1 = 31 then (case ReadBits8 6 rd1 of (e, r) \<Rightarrow> (32 + e, r)) else (t1, rd1)) = (t, rd2)" by blast
  from readRate [OF 1(2) assms(3)] obtain rd3 rd4 where
    2: "ReadBits8 4 rd2 = (rate_index rate, rd3)" "pending rd4 = channel_bits ch @ rest"
      "(if rate_index rate = 15 then ReadBits 24 rd3 else (aac_rates ! unat (rate_index rate), rd3)) = (rate, rd4)" by blast
  have "pending rd4 = map (bit ch) (rev [0..<unat (4 :: u8)]) @ rest"
    using 2(2) by (simp add: channel_bits_def del: upt_rec_numeral)
  from ReadBits8_pending [OF this] obtain rd5 where "ReadBits8 4 rd4 = (take_bit 4 ch, rd5)" by auto
  with assms(4) have 3: "ReadBits8 4 rd4 = (ch, rd5)" by (simp add: take_bit_small)
  show ?thesis unfolding DecodeConfig_def Let_def by (simp only: 1(1,3) 2(1,3) 3 prod.case)
qed

subsection \<open>ADTS headers\<close>

lemma adts_size_roundtrip:
  assumes "6 \<le> length b" "b ! 3 AND 3 = 0" "b ! 5 AND 0xE0 = 0" "unat sz < 2 ^ 13" "WriteADTSSize b sz = Some b'"
  shows "ReadADTSSize b' = Some sz"
proof -
  let ?x = "b ! 3" and ?y = "b ! 5"
  have x: "\<not> bit ?x m" if "m < 2" for m
    using arg_cong [OF assms(2), of "\<lambda>w. bit w m"] that by (auto simp: bit_simps less_2_cases_iff)
  have y: "\<not> bit ?y m" if "5 \<le> m" for m
  proof (cases "m < 8")
    case True
    with that have "m = 5 \<or> m = 6 \<or> m = 7" by linarith
    then show ?thesis using arg_cong [OF assms(3), of "\<lambda>w. bit w m"] by (auto simp: bit_simps)
  qed simp
  have s: "bit sz n \<Longrightarrow> n < 13" for n
  proof -
    assume "bit sz n"
    then have "bit (take_bit 13 sz) n" using take_bit_small [OF assms(4)] by simp
    then show ?thesis by (simp add: bit_take_bit_iff)
  qed
  have "push_bit 11 (ucast ((?x OR ucast (drop_bit 11 sz)) AND 3)) OR push_bit 3 (ucast (ucast (drop_bit 3 sz) :: u8))
      OR ucast (drop_bit 5 (?y OR ucast (push_bit 5 sz))) = sz" (is "?l = sz")
  proof (rule bit_word_eqI)
    fix n assume "n < LENGTH(16)"
    then consider "n < 3" | "3 \<le> n" "n < 11" | "11 \<le> n" "n < 13" | "13 \<le> n" "n < 16" by fastforce
    then show "bit ?l n = bit sz n"
    proof cases
      case 3
      then have "n = 11 \<or> n = 12" by linarith
      then show ?thesis using x y s by (auto simp: bit_simps)
    next
      case 4
      then have "n = 13 \<or> n = 14 \<or> n = 15" by linarith
      then show ?thesis using x y s [of 13] s [of 14] s [of 15] by (auto simp: bit_simps)
    qed (use x y s in \<open>auto simp: bit_simps\<close>)
  qed
  with assms show ?thesis by (auto simp: WriteADTSSize_def ReadADTSSize_def split: if_splits)
qed

text \<open>The bits of the header that \<open>CodecToADTS\<close> writes.\<close>

definition adts_bits :: "u8 \<Rightarrow> u8 \<Rightarrow> u8 \<Rightarrow> bool list" where
  "adts_bits profile i ch =
     replicate 12 True @ [False, False, False, True] @ map (bit profile) (rev [0..<2]) @ map (bit i) (rev [0..<4]) @
     [False] @ map (bit ch) (rev [0..<3]) @ replicate 4 False @ replicate 13 False @ replicate 11 True @ [False, False]"

lemma hex_text_chars: "CHR '';'' \<notin> set (hex_text b)"
proof (induction b)
  case Nil
  then show ?case by (simp add: hex_text_def hex_encode_def)
next
  case (Cons x b)
  have "char_of (unat (hex_digit n)) \<noteq> CHR '';''" if "n < 16" for n
  proof
    assume "char_of (unat (hex_digit n)) = CHR '';''"
    then have "of_char (char_of (unat (hex_digit n))) = (59 :: nat)" by simp
    then have "unat (hex_digit n) mod 256 = 59" by simp
    moreover have "unat n < 16" using that by (simp add: word_less_nat_alt)
    ultimately show False by (auto simp: unat_hex_digit [OF that] split: if_splits)
  qed
  from Cons this [OF hex_nibbles(1) [of x]] this [OF hex_nibbles(2) [of x]] show ?case
    by (simp add: hex_text_Cons)
qed

lemma Between_fmtp: "Between (aacFMTP @ hex_text conf) ''config='' '';'' = hex_text conf"
proof -
  have i: "index_of (aacFMTP @ hex_text conf) ''config='' = Some (length aacFMTP - 7)"
    by (simp add: aacFMTP_def)
  have "\<not> contains (hex_text conf) '';''"
    using hex_text_chars [of conf] by (auto simp: contains_iff)
  then have "index_of (hex_text conf) '';'' = None" by (simp add: index_of_None)
  moreover have "drop (length aacFMTP - 7 + length ''config='') (aacFMTP @ hex_text conf) = hex_text conf"
    by (simp add: aacFMTP_def)
  ultimately show ?thesis by (simp add: Between_def i)
qed

lemma CodecToADTS_bits:
  assumes "acFmtp codec = aacFMTP @ hex_text conf" "DecodeConfig conf = (t, i, ch, r)"
  shows "byte_list_bits (CodecToADTS grow codec) = adts_bits (t - 1) i ch"
proof -
  let ?w1 = "WriteBit grow 1 (WriteBits8 grow 0 2 (WriteBit grow 0 (WriteAllBits grow 1 12 (NewWriter [] 0))))"
  let ?w2 = "WriteBits8 grow ch 3 (WriteBit grow 0 (WriteBits8 grow i 4 (WriteBits8 grow (t - 1) 2 ?w1)))"
  let ?w3 = "WriteBit grow 0 (WriteBit grow 0 (WriteBit grow 0 (WriteBit grow 0 ?w2)))"
  let ?w = "WriteBits8 grow 0 2 (WriteAllBits grow 1 11 (WriteBits16 grow 0 13 ?w3))"
  have z: "map bot (rev [0..<n]) = replicate n False" for n :: nat
    by (intro replicate_eqI) auto
  have r: "replicate 4 False = [False, False, False, False]" "replicate 2 False = [False, False]"
    by (simp_all add: numeral_eq_Suc)
  have e: "CodecToADTS grow codec = Bytes ?w"
    by (simp add: CodecToADTS_def assms Between_fmtp)
  have w: "writer_ok ?w" "written ?w = adts_bits (t - 1) i ch"
    by (simp_all add: adts_bits_def z r del: upt_rec_numeral)
  have l: "length (adts_bits (t - 1) i ch) = 56" by (simp add: adts_bits_def)
  from Bytes_written [OF w(1)] w(2) have b: "byte_list_bits (Bytes ?w) = adts_bits (t - 1) i ch @ replicate (wbits ?w) False" by simp
  from arg_cong [OF b, of length] l have "8 * length (Bytes ?w) = 56 + wbits ?w" by simp
  moreover have "wbits ?w < 8" using w(1) by (simp add: writer_ok_def)
  ultimately have "wbits ?w = 0" by presburger
  with b show ?thesis unfolding e by simp
qed

lemma ADTSToCodec_bits:
  assumes "IsADTS b"
    "byte_list_bits b = replicate 12 True @ [x1, x2, x3, x4] @ map (bit profile) (rev [0..<2]) @
       map (bit i) (rev [0..<4]) @ [x5] @ map (bit ch) (rev [0..<3]) @ rest"
    "unat profile < 4" "unat i < 16" "unat ch < 8"
  shows "ADTSToCodec grow b = Some \<lparr>acName = ''MPEG4-GENERIC'', acRate = aac_rates ! unat i, acChannels = ch,
    acFmtp = aacFMTP @ hex_text (Bytes (WriteBits8 grow ch 4 (WriteBits8 grow i 4 (WriteBits8 grow (profile + 1) 5 (NewWriter [] 0))))),
    acPayloadType = 0\<rparr>"
proof -
  let ?r5 = "map (bit profile) (rev [0..<2]) @ map (bit i) (rev [0..<4]) @ [x5] @ map (bit ch) (rev [0..<3]) @ rest"
  have n: "unat (12 :: u8) = length (replicate 12 True)" "unat (2 :: u8) = length [x2, x3]" by simp_all
  have "pending (NewReader b) = replicate 12 True @ [x1, x2, x3, x4] @ ?r5" using assms(2) by simp
  from readLoop_pending [OF this, of "0 :: u32", folded n ReadBits_def] obtain v1 rd1 where
    1: "ReadBits 12 (NewReader b) = (v1, rd1)" "pending rd1 = x1 # [x2, x3, x4] @ ?r5" by auto
  from ReadBit_pending [OF 1(2)] obtain rd2 where
    2: "ReadBit rd1 = (of_bool x1, rd2)" "pending rd2 = [x2, x3] @ x4 # ?r5" by auto
  from readLoop_pending [OF 2(2), of "0 :: u32", folded n ReadBits_def] obtain v3 rd3 where
    3: "ReadBits 2 rd2 = (v3, rd3)" "pending rd3 = x4 # ?r5" by auto
  from ReadBit_pending [OF 3(2)] obtain rd4 where
    4: "ReadBit rd3 = (of_bool x4, rd4)"
      "pending rd4 = map (bit profile) (rev [0..<unat (2 :: u8)]) @ map (bit i) (rev [0..<4]) @ [x5] @ map (bit ch) (rev [0..<3]) @ rest"
    by (auto simp del: upt_rec_numeral)
  from ReadBits8_pending [OF 4(2)] assms(3) obtain rd5 where
    5: "ReadBits8 2 rd4 = (profile, rd5)"
      "pending rd5 = map (bit i) (rev [0..<unat (4 :: u8)]) @ x5 # map (bit ch) (rev [0..<3]) @ rest"
    by (auto simp: take_bit_small simp del: upt_rec_numeral)
  from ReadBits8_pending [OF 5(2)] assms(4) obtain rd6 where
    6: "ReadBits8 4 rd5 = (i, rd6)" "pending rd6 = x5 # map (bit ch) (rev [0..<3]) @ rest"
    by (auto simp: take_bit_small simp del: upt_rec_numeral)
  from ReadBit_pending [OF 6(2)] obtain rd7 where
    7: "ReadBit rd6 = (of_bool x5, rd7)" "pending rd7 = map (bit ch) (rev [0..<unat (3 :: u8)]) @ rest"
    by (auto simp del: upt_rec_numeral)
  from ReadBits8_pending [OF 7(2)] assms(5) obtain rd8 where
    8: "ReadBits8 3 rd7 = (ch, rd8)" by (auto simp: take_bit_small simp del: upt_rec_numeral)
  show ?thesis
    unfolding ADTSToCodec_def Let_def using assms(1)
    by (simp only: 1(1) 2(1) 3(1) 4(1) 5(1) 6(1) 7(1) 8 prod.case not_not if_False simp_thms)
qed

text \<open>A header of seven bytes with these bits.\<close>

lemma adts_header:
  assumes "byte_list_bits h = adts_bits profile i ch"
  obtains h0 h1 h2 h3 h4 h5 h6 where "h = [h0, h1, h2, h3, h4, h5, h6]" "h0 = 0xFF" "h1 = 0xF1" "h3 AND 0x3F = 0" "h5 AND 0xE0 = 0"
proof -
  from arg_cong [OF assms, of length] have l: "length h = 7" by (simp add: adts_bits_def)
  then obtain h0 h1 h2 h3 h4 h5 h6 where h: "h = [h0, h1, h2, h3, h4, h5, h6]"
    by (auto simp: numeral_eq_Suc length_Suc_conv)
  have T: "replicate 12 True = [True, True, True, True, True, True, True, True, True, True, True, True]"
    "replicate 11 True = [True, True, True, True, True, True, True, True, True, True, True]"
    "replicate 4 False = [False, False, False, False]"
    "replicate 13 False = [False, False, False, False, False, False, False, False, False, False, False, False, False]"
    by (simp_all add: numeral_eq_Suc)
  have b: "byte_bits x = [bit x 7, bit x 6, bit x 5, bit x 4, bit x 3, bit x 2, bit x 1, bit x 0]" for x
    by (simp add: byte_bits_def numeral_eq_Suc)
  have e: "bit h0 7" "bit h0 6" "bit h0 5" "bit h0 4" "bit h0 3" "bit h0 2" "bit h0 1" "bit h0 0"
    "bit h1 7" "bit h1 6" "bit h1 5" "bit h1 4" "\<not> bit h1 3" "\<not> bit h1 2" "\<not> bit h1 1" "bit h1 0"
    "\<not> bit h3 5" "\<not> bit h3 4" "\<not> bit h3 3" "\<not> bit h3 2" "\<not> bit h3 1" "\<not> bit h3 0"
    "\<not> bit h5 7" "\<not> bit h5 6" "\<not> bit h5 5"
    using assms unfolding h by (simp_all add: adts_bits_def T b upt_conv_Cons numeral_eq_Suc)
  have "h0 = 0xFF" "h1 = 0xF1" "h3 AND 0x3F = 0" "h5 AND 0xE0 = 0"
    by (rule byte_eqI; use e in \<open>simp add: bit_simps\<close>)+
  with h that show ?thesis by blast
qed

lemma EncodeConfig_plain:
  assumes "unat t \<le> 4" "indexUint32 aac_rates rate = Some i"
  shows "EncodeConfig grow t rate ch s =
    Bytes (WriteBits8 grow ch 4 (WriteBits8 grow (of_nat i) 4 (WriteBits8 grow t 5 (NewWriter [] 0))))"
  using assms by (simp add: EncodeConfig_def lowDelayFields_def aac_types)

lemma take_2_byte_bits: "take 2 (byte_bits x) = [bit x 7, bit x 6]"
  by (simp add: byte_bits_def numeral_eq_Suc)

text \<open>
  The ADTS header describes the frame: a payload of up to 8184 bytes that \<open>EncodeToADTS\<close>
  packs for a codec whose configuration \<open>EncodeConfig\<close> made (object types 1 to 4, a rate of the
  table, up to 7 channels, in the \<open>config\<close> field of the fmtp line) starts with a header of seven
  bytes without a check sum and is recognised as ADTS; the size read from it is that of the whole
  frame, the payload follows unchanged, and \<open>ADTSToCodec\<close> gives back the rate, the channels and the
  very fmtp line. The configuration itself is read back by \<open>DecodeConfig\<close>.
\<close>

lemma aac_adts_roundtrip:
  assumes "acFmtp codec = aacFMTP @ hex_text (EncodeConfig grow t rate ch False)" "1 \<le> unat t" "unat t \<le> 4"
    "indexUint32 aac_rates rate = Some i" "unat ch < 8" "\<not> IsADTS payload" "length payload + 7 < 2 ^ 13"
  shows "DecodeConfig (EncodeConfig grow t rate ch False) = (t, of_nat i, ch, rate) \<and>
    (\<exists>p. EncodeToADTS grow codec payload = Some p \<and> IsADTS p \<and> ADTSHeaderLen p = Some 7 \<and>
       ReadADTSSize p = Some (of_nat (length p)) \<and> drop 7 p = payload \<and>
       ADTSToCodec grow p = Some \<lparr>acName = ''MPEG4-GENERIC'', acRate = rate, acChannels = ch, acFmtp = acFmtp codec, acPayloadType = 0\<rparr>)"
proof -
  let ?conf = "EncodeConfig grow t rate ch False" and ?i = "of_nat i :: u8"
  note i = rate_index_less [OF assms(4)]
  obtain rest where "byte_list_bits ?conf = type_bits t @ rate_bits rate @ channel_bits ch @ rest"
    using EncodeConfig_bits by blast
  from DecodeConfig_bits [OF this] assms(3-5) have d: "DecodeConfig ?conf = (t, ?i, ch, rate)"
    by (simp add: rate_index_def)
  define h where "h = CodecToADTS grow codec"
  have hb: "byte_list_bits h = adts_bits (t - 1) ?i ch"
    unfolding h_def by (rule CodecToADTS_bits [OF assms(1) d])
  then obtain h0 h1 h2 h3 h4 h5 h6 where h: "h = [h0, h1, h2, h3, h4, h5, h6]"
    and f: "h0 = 0xFF" "h1 = 0xF1" "h3 AND 0x3F = 0" "h5 AND 0xE0 = 0"
    by (rule adts_header)
  have l: "length h = 7" by (simp add: h)
  define sz where "sz = (of_nat (7 + length payload) :: u16)"
  have u: "unat sz = 7 + length payload" using assms(7) unfolding sz_def by (simp add: unat_of_nat del: of_nat_add)
  define x where "x = h3 OR ucast (drop_bit 11 sz)"
  define p where "p = [h0, h1, h2, x, ucast (drop_bit 3 sz), h5 OR ucast (push_bit 5 sz), h6] @ payload"
  have g: "go_copy (go_copy (replicate (7 + length payload) 0) 0 h) 7 payload = h @ payload"
    using l by (simp add: go_copy_def Let_def)
  have w: "WriteADTSSize (h @ payload) sz = Some p" by (simp add: WriteADTSSize_def h p_def x_def)
  have e: "EncodeToADTS grow codec payload = Some p"
    using assms(6) w l g unfolding EncodeToADTS_def Let_def h_def [symmetric] ADTSHeaderSize_def
    by (simp add: sz_def)
  have "h3 AND 3 = (h3 AND 0x3F) AND 3" by (simp add: and.assoc)
  then have "h3 AND 3 = 0" using f(3) by simp
  then have r: "ReadADTSSize p = Some sz"
    using adts_size_roundtrip [OF _ _ _ _ w] f(4) u assms(7) by (simp add: h)
  have a: "IsADTS p" "ADTSHeaderLen p = Some 7"
    using f(1,2) by (simp_all add: p_def IsADTS_def ADTSHeaderLen_def HasCRC_def ADTSHeaderSize_def)
  have k: "\<not> bit sz n" if "13 \<le> n" for n
    using take_bit_small [of sz 13] u assms(7) that by (metis add.commute bit_take_bit_iff not_le)
  have x: "bit x 7 = bit h3 7" "bit x 6 = bit h3 6"
    by (simp_all add: x_def bit_simps k)
  let ?pre = "replicate 12 True @ [False, False, False, True] @ map (bit (t - 1)) (rev [0..<2]) @
      map (bit ?i) (rev [0..<4]) @ [False] @ map (bit ch) (rev [0..<3])"
  have p26: "?pre = take 26 (adts_bits (t - 1) ?i ch)" by (simp add: adts_bits_def del: upt_rec_numeral)
  have "take 26 (byte_list_bits h) = take 26 (byte_list_bits p)"
    using x by (simp add: h p_def take_2_byte_bits)
  then have "byte_list_bits p = ?pre @ drop 26 (byte_list_bits p)"
    unfolding p26 using hb by (metis append_take_drop_id)
  then have pb: "byte_list_bits p = replicate 12 True @ [False, False, False, True] @ map (bit (t - 1)) (rev [0..<2]) @
      map (bit ?i) (rev [0..<4]) @ [False] @ map (bit ch) (rev [0..<3]) @ drop 26 (byte_list_bits p)"
    by (simp only: append_assoc)
  have "unat (t - 1) = unat t - 1" using assms(2) by (simp add: unat_sub word_le_nat_alt)
  moreover have "unat ?i = i" using i(1) by (simp add: unat_of_nat)
  ultimately have "ADTSToCodec grow p = Some \<lparr>acName = ''MPEG4-GENERIC'', acRate = rate, acChannels = ch, acFmtp = acFmtp codec, acPayloadType = 0\<rparr>"
    using ADTSToCodec_bits [OF a(1) pb, of grow] assms(3,5) i by (simp add: EncodeConfig_plain [OF assms(3,4)] assms(1))
  then show ?thesis using d e a r u by (auto simp: p_def sz_def)
qed

definition demo_aac :: aac_codec where
  "demo_aac = \<lparr>acName = ''MPEG4-GENERIC'', acRate = 16000, acChannels = 1,
     acFmtp = aacFMTP @ hex_text (EncodeConfig (\<lambda>n. n) 2 16000 1 False), acPayloadType = 255\<rparr>"

subsection \<open>Units in RTP packets\<close>

lemma au_size_bytes:
  assumes "unat (s :: u16) < 2 ^ 13"
  shows "get_be16 [ucast (drop_bit 5 s), ucast (push_bit 3 s)] = push_bit 3 s" "drop_bit 3 (push_bit 3 s) = s"
proof -
  have k: "n < 13" if "bit s n" for n
    using take_bit_small [OF assms] that by (metis bit_take_bit_iff)
  show "drop_bit 3 (push_bit 3 s) = s"
    by (rule bit_word_eqI) (use k in \<open>auto simp: bit_simps\<close>)
  have c: "n < 8 \<or> 8 \<le> n" for n :: nat by linarith
  show "get_be16 [ucast (drop_bit 5 s), ucast (push_bit 3 s)] = push_bit 3 s"
    by (rule bit_word_eqI) (use k in \<open>auto simp: bit_simps not_less\<close>)
qed

lemma be16_bytes:
  assumes "unat (s :: u16) < 2 ^ 13"
  shows "be16 (push_bit 3 s) = [ucast (drop_bit 5 s), ucast (push_bit 3 s)]"
proof -
  have "be16 (get_be16 [ucast (drop_bit 5 s), ucast (push_bit 3 s)]) = [ucast (drop_bit 5 s), ucast (push_bit 3 s)]"
    by (rule be16_get_be16) simp
  then show ?thesis by (simp only: au_size_bytes(1) [OF assms])
qed

lemma depay_one:
  assumes "get_be16 [a, b] = push_bit 3 s" "drop_bit 3 (push_bit 3 s) = (s :: u16)"
  shows "depayLoop pkt (a # b # hs) units ts =
    (if length units < unat s then ([], ts)
     else case depayLoop pkt hs (drop (unat s) units) (ts + AUTime) of (ps, t) \<Rightarrow>
       (pkt\<lparr>rtpVersion := RTPPacketVersionAAC, rtpTS := ts + AUTime,
          rtpPayload := (if IsADTS (take (unat s) units) then drop ADTSHeaderSize (take (unat s) units) else take (unat s) units)\<rparr> # ps, t))"
  using assms by (simp add: depayLoop.simps(1) Let_def del: get_be16.simps)

declare depayLoop.simps(1) [simp del]

text \<open>A frame with a header that gives its size.\<close>

definition adts_frame :: "bytes \<Rightarrow> bool" where
  "adts_frame f \<longleftrightarrow> IsADTS f \<and> 7 < length f \<and> length f < 2 ^ 13 \<and> ReadADTSSize f = Some (of_nat (length f))"

fun stamped :: "rtp_packet \<Rightarrow> bytes list \<Rightarrow> u32 \<Rightarrow> rtp_packet list" where
  "stamped pkt [] ts = []"
| "stamped pkt (p # ps) ts =
     pkt\<lparr>rtpVersion := RTPPacketVersionAAC, rtpTS := ts + AUTime, rtpPayload := p\<rparr> # stamped pkt ps (ts + AUTime)"

lemma adts_frame_size:
  assumes "adts_frame f"
  shows "ReadADTSSize (f @ r) = Some (of_nat (length f))" "unat (of_nat (length f) :: u16) = length f"
proof -
  from assms have l: "7 < length f" "length f < 2 ^ 13" and r: "ReadADTSSize f = Some (of_nat (length f))"
    by (simp_all add: adts_frame_def)
  from l r show "ReadADTSSize (f @ r) = Some (of_nat (length f))"
    by (simp add: ReadADTSSize_def nth_append)
  show "unat (of_nat (length f) :: u16) = length f" using l by (simp add: unat_of_nat)
qed

lemma adtsUnits_frames:
  "\<forall>f \<in> set fs. adts_frame f \<Longrightarrow> adtsUnits (concat fs) u = Some (Some (u + of_nat (length fs)))"
proof (induction fs arbitrary: u)
  case Nil
  then show ?case by (subst adtsUnits.simps) simp
next
  case (Cons f fs)
  then have f: "adts_frame f" and l: "7 < length f" by (simp_all add: adts_frame_def)
  show ?case
    using Cons l adts_frame_size [OF f] by (subst adtsUnits.simps) (simp add: ADTSHeaderSize_def)
qed

definition au_header :: "bytes \<Rightarrow> bytes" where
  "au_header f = (let s = of_nat (length f) :: u16 in [ucast (drop_bit 5 s), ucast (push_bit 3 s)])"

lemma adtsHeaders_frames:
  "\<forall>f \<in> set fs. adts_frame f \<Longrightarrow>
   adtsHeaders (pre @ concat fs) (length pre) dst = Some (dst @ concat (map au_header fs))"
proof (induction fs arbitrary: pre dst)
  case Nil
  then show ?case by (subst adtsHeaders.simps) simp
next
  case (Cons f fs)
  then have f: "adts_frame f" and l: "7 < length f" by (simp_all add: adts_frame_def)
  from Cons.IH [of "pre @ f" "dst @ au_header f"] Cons.prems l adts_frame_size [OF f] show ?case
    by (subst adtsHeaders.simps) (simp add: ADTSHeaderSize_def au_header_def [of f] Let_def)
qed

lemma depayLoop_frames:
  "\<forall>f \<in> set fs. adts_frame f \<Longrightarrow>
   depayLoop pkt (concat (map au_header fs)) (concat fs) ts =
     (stamped pkt (map (drop 7) fs) ts, ts + of_nat (length fs) * AUTime)"
proof (induction fs arbitrary: ts)
  case (Cons f fs)
  then have f: "adts_frame f" by simp
  note s = adts_frame_size [OF f]
  have "unat (of_nat (length f) :: u16) < 2 ^ 13" using s(2) f by (simp add: adts_frame_def)
  note h = au_size_bytes [OF this]
  show ?case
    using Cons s(2) f by (simp add: au_header_def [of f] Let_def depay_one [OF h] adts_frame_def ADTSHeaderSize_def algebra_simps)
qed simp

text \<open>A frame that claims the size 0 is not left behind: the loop does not end.\<close>

lemma adtsUnits_zero:
  assumes "7 < length b" "ReadADTSSize b = Some 0"
  shows "adtsUnits b u = None"
proof -
  have "\<not> (7 < length b \<and> ReadADTSSize b = Some 0)" if "adtsUnits b u = Some y" for b u y
    by (rule adtsUnits.raw_induct [where P = "\<lambda>b u y. \<not> (7 < length b \<and> ReadADTSSize b = Some 0)", OF _ that])
      (auto simp: ADTSHeaderSize_def split: option.splits if_splits)
  with assms show ?thesis by (cases "adtsUnits b u") auto
qed

lemma length_au_headers [simp]: "length (concat (map au_header fs)) = 2 * length fs"
  by (induction fs) (simp_all add: au_header_def Let_def)

lemma RTPDepay_units:
  assumes "length hs < 2 ^ 13"
  shows "RTPDepay (pkt\<lparr>rtpPayload := be16 (push_bit 3 (of_nat (length hs))) @ hs @ units\<rparr>) ts =
    Some (depayLoop (pkt\<lparr>rtpPayload := be16 (push_bit 3 (of_nat (length hs))) @ hs @ units\<rparr>) hs units ts)"
proof -
  have u: "unat (of_nat (length hs) :: u16) = length hs" using assms by (simp add: unat_of_nat)
  then have "drop_bit 3 (push_bit 3 (of_nat (length hs) :: u16)) = of_nat (length hs)"
    using assms by (intro au_size_bytes(2)) simp
  then have h: "unat (drop_bit 3 (push_bit 3 (of_nat (length hs) :: u16))) = length hs" by (simp only: u)
  show ?thesis by (simp add: RTPDepay_def Let_def h)
qed

lemma stamped_payload [simp]: "stamped (pkt\<lparr>rtpPayload := x\<rparr>) ps ts = stamped pkt ps ts"
  by (induction ps arbitrary: ts) simp_all

text \<open>
  Frames survive RTP: the frames of an ADTS stream (each longer than its header and below
  8192 bytes, fewer than 4096 of them) that \<open>ADTStoRTP\<close> puts in one packet come out of \<open>RTPDepay\<close> in
  order, each without its header and 1024 ticks after the one before, and both time sizes count
  1024 ticks a frame; a unit that \<open>RTPPay\<close> packs comes out of \<open>RTPDepay\<close> as it was. A frame that
  claims the size 0 makes \<open>ADTSTimeSize\<close> loop for ever.
\<close>

lemma aac_rtp_frames:
  assumes "\<forall>f \<in> set fs. adts_frame f" "length fs < 4096"
    "rtpVersion raw = RTPPacketVersionAAC" "\<not> IsADTS (rtpPayload raw)" "length (rtpPayload raw) < 2 ^ 13"
  shows "(\<exists>q. ADTStoRTP (concat fs) = Some q \<and>
       RTPDepay (pkt\<lparr>rtpPayload := q\<rparr>) ts = Some (stamped pkt (map (drop 7) fs) ts, ts + of_nat (length fs) * AUTime) \<and>
       RTPTimeSize q = Some (of_nat (length fs) * AUTime) \<and>
       ADTSTimeSize (concat fs) = Some (Some (of_nat (length fs) * AUTime))) \<and>
    (\<exists>q. RTPPay raw (sq, t0) = Some (q, sq + 1, t0 + AUTime) \<and> rtpSeq q = sq \<and> rtpTS q = t0 \<and>
       RTPDepay q ts = Some (stamped q [rtpPayload raw] ts, ts + AUTime)) \<and>
    (\<forall>b. 7 < length b \<and> ReadADTSSize b = Some 0 \<longrightarrow> ADTSTimeSize b = None)"
proof (intro conjI)
  let ?hs = "concat (map au_header fs)"
  define q where "q = be16 (push_bit 3 (of_nat (length ?hs))) @ ?hs @ concat fs"
  have a: "ADTStoRTP (concat fs) = Some q"
    using adtsHeaders_frames [OF assms(1), of "[]" "[0, 0]"] by (simp add: ADTStoRTP_def q_def)
  have r: "RTPDepay (pkt\<lparr>rtpPayload := q\<rparr>) ts = Some (stamped pkt (map (drop 7) fs) ts, ts + of_nat (length fs) * AUTime)"
    using RTPDepay_units [of ?hs "concat fs" pkt ts] assms(1,2)
    by (simp add: q_def depayLoop_frames)
  have u: "drop_bit 4 (push_bit 3 (of_nat (2 * length fs) :: u16)) = of_nat (length fs)"
  proof -
    have "push_bit 3 (of_nat (2 * length fs)) = (push_bit 4 (of_nat (length fs)) :: u16)"
      by (simp add: push_bit_eq_mult)
    moreover have "unat (of_nat (length fs) :: u16) < 2 ^ 12" using assms(2) by (simp add: unat_of_nat)
    then have "bit (of_nat (length fs) :: u16) n \<Longrightarrow> n < 12" for n
      using take_bit_small by (metis bit_take_bit_iff)
    then have "drop_bit 4 (push_bit 4 (of_nat (length fs))) = (of_nat (length fs) :: u16)"
      by (intro bit_word_eqI) (auto simp: bit_simps)
    ultimately show ?thesis by simp
  qed
  have "ucast (of_nat (length fs) :: u16) = (of_nat (length fs) :: u32)"
    using assms(2) by (simp add: word_unat_eq_iff unat_of_nat unsigned_ucast_eq take_bit_eq_mod)
  then have t: "RTPTimeSize q = Some (of_nat (length fs) * AUTime)"
    using u by (simp add: RTPTimeSize_def q_def)
  show "\<exists>q. ADTStoRTP (concat fs) = Some q \<and>
       RTPDepay (pkt\<lparr>rtpPayload := q\<rparr>) ts = Some (stamped pkt (map (drop 7) fs) ts, ts + of_nat (length fs) * AUTime) \<and>
       RTPTimeSize q = Some (of_nat (length fs) * AUTime) \<and>
       ADTSTimeSize (concat fs) = Some (Some (of_nat (length fs) * AUTime))"
    using a r t adtsUnits_frames [OF assms(1), of 0] by (simp add: ADTSTimeSize_def)
next
  let ?p = "rtpPayload raw" and ?s = "of_nat (length (rtpPayload raw)) :: u16"
  have s: "unat ?s = length ?p" "unat (4 + ?s) = 4 + length ?p"
    using assms(5) by (simp_all add: unat_of_nat unat_word_ariths)
  define q where "q = \<lparr>rtpVersion = 2, rtpMarker = True, rtpSeq = sq, rtpTS = t0,
      rtpPayload = be16 (push_bit 3 2) @ be16 (push_bit 3 ?s) @ ?p\<rparr>"
  have b: "be16 (push_bit 3 2) = [0, 16]" by (simp add: be16_def)
  have z: "(replicate (4 + length ?p) 0)[1 := 16] = ([0, 16] @ [0, 0] @ replicate (length ?p) 0 :: bytes)"
    by (simp add: replicate_add numeral_eq_Suc)
  have c: "go_copy (go_copy ((replicate (4 + length ?p) 0)[1 := 16]) 2 (be16 (push_bit 3 ?s))) 4 ?p =
      [0, 16] @ be16 (push_bit 3 ?s) @ ?p"
    unfolding z using go_copy_fit [of "[0, 16]" 2 "[0, 0]" "be16 (push_bit 3 ?s)" "replicate (length ?p) 0"]
      go_copy_fit [of "[0, 16] @ be16 (push_bit 3 ?s)" 4 "replicate (length ?p) 0" ?p "[]"] by simp
  have "2 + 2 + ?s = 4 + ?s" by simp
  then have p: "RTPPay raw (sq, t0) = Some (q, sq + 1, t0 + AUTime)"
    unfolding RTPPay_def Let_def q_def b using assms(3) s(2) c by simp
  have l: "unat ?s < 2 ^ 13" using s(1) assms(5) by simp
  have w: "be16 (push_bit 3 ?s) = [ucast (drop_bit 5 ?s), ucast (push_bit 3 ?s)]"
    by (rule be16_bytes [OF l])
  have "RTPDepay (q\<lparr>rtpPayload := be16 (push_bit 3 (of_nat (length (be16 (push_bit 3 ?s))))) @ be16 (push_bit 3 ?s) @ ?p\<rparr>) ts =
      Some (depayLoop (q\<lparr>rtpPayload := be16 (push_bit 3 (of_nat (length (be16 (push_bit 3 ?s))))) @ be16 (push_bit 3 ?s) @ ?p\<rparr>)
        (be16 (push_bit 3 ?s)) ?p ts)"
    by (rule RTPDepay_units) simp
  then have "RTPDepay q ts = Some (depayLoop q (be16 (push_bit 3 ?s)) ?p ts)" by (simp add: q_def)
  then have "RTPDepay q ts = Some (stamped q [?p] ts, ts + AUTime)"
    unfolding w using s(1) assms(4) by (simp add: depay_one [OF au_size_bytes [OF l]])
  with p show "\<exists>q. RTPPay raw (sq, t0) = Some (q, sq + 1, t0 + AUTime) \<and> rtpSeq q = sq \<and> rtpTS q = t0 \<and>
       RTPDepay q ts = Some (stamped q [rtpPayload raw] ts, ts + AUTime)"
    by (auto simp: q_def)
next
  show "\<forall>b. 7 < length b \<and> ReadADTSSize b = Some 0 \<longrightarrow> ADTSTimeSize b = None"
    by (simp add: ADTSTimeSize_def adtsUnits_zero)
qed

definition demo_frame :: bytes where
  "demo_frame = [0xFF, 0xF1, 0x60, 0x40, 0x01, 0x1F, 0xFC, 7]"

definition demo_packet :: rtp_packet where
  "demo_packet = \<lparr>rtpVersion = 0, rtpMarker = False, rtpSeq = 0, rtpTS = 0, rtpPayload = [5]\<rparr>"

end
