(* ===== verification/TutkSession.thy ===== *)
theory TutkSession
  imports TutkCodec "HOL-Library.AList"
begin

section \<open>TUTK sessions\<close>

text \<open>
  Models \<open>pkg/tutk/session16.go\<close> and \<open>session25.go\<close>: the messages that a session builds, and what it does
  with a message of the camera. A session is a record of the fields of the struct; \<open>Session25\<close>
  extends \<open>Session16\<close> as its struct embeds it. The datagrams that a session writes are appended to
  \<open>sent\<close>. A Go channel is the list of its elements, with its capacity in the code that sends.

  A message of the camera lies in the worker's buffer: \<open>cmd\<close> are its bytes and \<open>spare\<close> the bytes of the
  buffer behind it, which a slice with an explicit end may reach. \<open>None\<close> is a panic. The clock is an
  argument.
\<close>

subsection \<open>State\<close>

text \<open>
  A command in the channel \<open>rawCmd\<close>: a copy of its bytes, or a slice of the worker's buffer between
  two positions, whose bytes are those that the buffer has when it is read.
\<close>

datatype raw_cmd = Copied bytes | Shared nat nat

definition cmd_bytes :: "bytes \<Rightarrow> raw_cmd \<Rightarrow> bytes" where
  "cmd_bytes buf c = (case c of Copied b \<Rightarrow> b | Shared i j \<Rightarrow> take (j - i) (drop i buf))"

record session16 =
  sid16 :: bytes
  rawCmd :: "raw_cmd list"
  rawPkt :: "(bytes \<times> bytes) list"
  seqSendCh0 :: u16
  seqSendCh1 :: u16
  seqSendCmd1 :: u16
  seqSendAud :: u16
  waitFSeq :: u16
  waitCSeq :: u16
  waitSize :: nat
  waitData :: bytes
  sent :: "bytes list"

record reorderBuffer =
  rb_buf :: "(u16 \<times> bytes) list"
  rb_seq :: u16
  rb_size :: nat

record session25 = session16 +
  rb :: reorderBuffer
  seqSendCmd2 :: u16
  seqSendCnt :: u16
  seqRecvPkt0 :: u16
  seqRecvPkt1 :: u16
  seqRecvCmd2 :: u16

text \<open>What \<open>SessionRead\<close> returns.\<close>

datatype tutk_msg =
    MsgUnknown | MsgError | MsgPing | MsgUnknownPing | MsgClientStart | MsgClientStart2 | MsgClientStartAck2
  | MsgCommand | MsgCommandAck | MsgCounters | MsgMediaChunk | MsgMediaFrame | MsgMediaReorder | MsgMediaLost
  | MsgCh5 | MsgUnknown0007 | MsgUnknown0008 | MsgUnknown0010 | MsgUnknown0013 | MsgUnknown0900 | MsgUnknown0a08
  | MsgUnknownCh1c | MsgDafang0012

definition newSid16 :: "bytes \<Rightarrow> bytes" where
  "newSid16 sid8 = (go_copy (go_copy (replicate 16 0) 8 sid8) 0 (take 2 sid8))[4 := 0x0c]"

definition NewSession16 :: "bytes \<Rightarrow> session16" where
  "NewSession16 sid8 =
     \<lparr>sid16 = newSid16 sid8, rawCmd = [], rawPkt = [], seqSendCh0 = 0, seqSendCh1 = 0, seqSendCmd1 = 0, seqSendAud = 0,
      waitFSeq = 0, waitCSeq = 0, waitSize = 0, waitData = [], sent = []\<rparr>"

definition NewReorderBuffer :: "nat \<Rightarrow> reorderBuffer" where
  "NewReorderBuffer sz = \<lparr>rb_buf = [], rb_seq = 0, rb_size = sz\<rparr>"

definition NewSession25 :: "bytes \<Rightarrow> session25" where
  "NewSession25 sid =
     session16.extend (NewSession16 sid)
       \<lparr>rb = NewReorderBuffer 5, seqSendCmd2 = 0, seqSendCnt = 0, seqRecvPkt0 = 0, seqRecvPkt1 = 0, seqRecvCmd2 = 0\<rparr>"

subsection \<open>Messages\<close>

text \<open>\<open>put off b msg\<close>: the bytes \<open>b\<close> copied into \<open>msg\<close> from the position \<open>off\<close>.\<close>

abbreviation put :: "nat \<Rightarrow> bytes \<Rightarrow> bytes \<Rightarrow> bytes" where
  "put off b msg \<equiv> go_copy msg off b"

definition tutk_magic :: bytes where "tutk_magic = [0x04, 0x02, 0x19]"

text \<open>\<open>Msg\<close> for a size of at least 28.\<close>

definition Msg :: "bytes \<Rightarrow> u16 \<Rightarrow> bytes" where
  "Msg sid sz =
     put 12 sid (put 8 [0x07, 0x04, 0x21] (put 4 (le16 (sz - 16))
       ((put 0 tutk_magic (replicate (unat sz) 0))[3 := 0x0a])))"

definition msgHhrSize :: nat where "msgHhrSize = 28"
definition cmdHdrSize :: nat where "cmdHdrSize = 24"
definition cmdHdrSize25 :: nat where "cmdHdrSize25 = 28"

lemmas tutk_sizes = msgHhrSize_def cmdHdrSize_def cmdHdrSize25_def

text \<open>\<open>putc\<close> writes relative to the command, behind the 28 bytes of the header.\<close>

abbreviation putc :: "nat \<Rightarrow> bytes \<Rightarrow> bytes \<Rightarrow> bytes" where
  "putc off b msg \<equiv> go_copy msg (28 + off) b"

definition ClientStart :: "u64 \<Rightarrow> nat \<Rightarrow> bytes \<Rightarrow> bytes \<Rightarrow> ('a session16_scheme) \<Rightarrow> bytes" where
  "ClientStart now i username password s =
     (let msg0 = putc 16 (le16 (598 - 52)) (putc 0 [0x00, 0x00, 0x0b, 0x00] (Msg (sid16 s) 598));
          msg1 = (if i = 0 then putc 18 [1] msg0 else putc 1 [0x20] msg0);
          msg2 = putc 20 (le32 (ucast now)) msg1;
          data = 24; cfg = 24 + 257 + 257;
          msg3 = putc (data + 257) password (putc data username msg2)
      in putc (cfg + 22) [3] (putc (cfg + 8) [0xfb, 0x07, 0x1f, 0x00] (putc (cfg + 4) [4] msg3)))"

text \<open>The sizes are 16-bit numbers: a size that wraps leaves no room for the fields, a panic.\<close>

definition SendIOCtrl16 :: "u64 \<Rightarrow> u32 \<Rightarrow> bytes \<Rightarrow> session16 \<Rightarrow> (bytes \<times> session16) option" where
  "SendIOCtrl16 now ctrlType ctrlData s =
     (let dataSize = 4 + of_nat (length ctrlData) :: u16; sz = 28 + 24 + dataSize; sq = seqSendCmd1 s + 1 in
      if unat sz < 56 then None
      else
        let msg = putc 4 (le16 sq) (putc 0 [0x00, 0x70, 0x0b, 0x00] (Msg (sid16 s) sz));
            msg1 = putc 20 (le32 (ucast now)) (putc 16 (le16 dataSize) msg)
        in Some (putc 28 ctrlData (putc 24 (le32 ctrlType) msg1), s\<lparr>seqSendCmd1 := sq\<rparr>))"

definition SendFrameData16 :: "u64 \<Rightarrow> bytes \<Rightarrow> bytes \<Rightarrow> session16 \<Rightarrow> (bytes \<times> session16) option" where
  "SendFrameData16 now frameInfo frameData s =
     (let n = of_nat (length frameData) :: u16; dataSize = n + 8 + 32; sz = 28 + 24 + dataSize in
      if 2 ^ 16 \<le> unat n + 92 then None
      else
        let msg = putc 8 (le16 n) (putc 4 (le16 (seqSendAud s)) (putc 0 [0x01, 0x03, 0x0b, 0x00] (Msg (sid16 s) sz)));
            msg1 = putc 20 [1] (putc 18 (le16 (ucast now)) (putc 16 (le16 dataSize) (putc 14 [0x28] msg)));
            msg2 = putc 24 frameData msg1;
            msg3 = putc (24 + unat n) [0x4F, 0x44, 0x55, 0x41, 0x20, 0x00, 0x00, 0x00] msg2
        in Some (putc (24 + unat n + 8) frameInfo msg3, s\<lparr>seqSendAud := seqSendAud s + 1\<rparr>))"

definition SendIOCtrl25 :: "u32 \<Rightarrow> bytes \<Rightarrow> session25 \<Rightarrow> (bytes \<times> session25) option" where
  "SendIOCtrl25 ctrlType ctrlData s =
     (let sz = 28 + 28 + 4 + of_nat (length ctrlData) :: u16 in
      if unat sz < 60 then None
      else
        let msg = putc 4 (le16 (seqSendCmd1 s)) (putc 0 [0x00, 0x70, 0x0b, 0x00] (Msg (sid16 s) sz));
            msg1 = putc 16 (le16 (sz - 52)) (putc 12 [1] (putc 9 [0x70] msg));
            msg2 = putc 20 (le16 (seqSendCmd2 s)) (putc 10 (le16 (seqSendCmd2 s)) msg1)
        in Some (putc 32 ctrlData (putc 28 (le32 ctrlType) msg2),
                 s\<lparr>seqSendCmd1 := seqSendCmd1 s + 1, seqSendCmd2 := seqSendCmd2 s + 1\<rparr>))"

text \<open>\<open>Session25.SendFrameData\<close> returns \<open>nil\<close>.\<close>

definition SendFrameData25 :: "bytes \<Rightarrow> bytes \<Rightarrow> session25 \<Rightarrow> bytes \<times> session25" where
  "SendFrameData25 frameInfo frameData s = ([], s)"

text \<open>\<open>None\<close>: \<open>buf\<close> is too short for the channel's sequence number or mark.\<close>

definition SessionWrite :: "nat \<Rightarrow> bytes \<Rightarrow> ('a session16_scheme) \<Rightarrow> ('a session16_scheme) option" where
  "SessionWrite chID buf s =
     (if chID = 0 then
        (if length buf < 8 then None
         else Some (s\<lparr>seqSendCh0 := seqSendCh0 s + 1, sent := sent s @ [put 6 (le16 (seqSendCh0 s)) buf]\<rparr>))
      else if chID = 1 then
        (if length buf < 15 then None
         else Some (s\<lparr>seqSendCh1 := seqSendCh1 s + 1, sent := sent s @ [(put 6 (le16 (seqSendCh1 s)) buf)[14 := 1]]\<rparr>))
      else Some (s\<lparr>sent := sent s @ [buf]\<rparr>))"

text \<open>A slice of a command with an explicit end: it may reach into the buffer behind.\<close>

definition slice_cap :: "nat \<Rightarrow> nat \<Rightarrow> bytes \<Rightarrow> bytes \<Rightarrow> bytes option" where
  "slice_cap i j cmd spare =
     (if length cmd + length spare < j then None else Some (take (j - i) (drop i (cmd @ spare))))"

definition slice_from :: "nat \<Rightarrow> bytes \<Rightarrow> bytes option" where
  "slice_from i b = (if length b < i then None else Some (drop i b))"

subsection \<open>Session16: messages of the camera\<close>

definition msgAck0070 :: "bytes \<Rightarrow> bytes \<Rightarrow> ('a session16_scheme) \<Rightarrow> bytes option" where
  "msgAck0070 cmd spare s =
     (case (slice_cap 2 6 cmd spare, slice_cap 20 24 cmd spare) of
        (Some vs, Some rnd) \<Rightarrow> Some (putc 20 rnd (putc 2 vs (putc 0 [0x00, 0x71] (Msg (sid16 s) 52))))
      | _ \<Rightarrow> None)"

definition msgAck0012 :: "bytes \<Rightarrow> ('a session16_scheme) \<Rightarrow> bytes option" where
  "msgAck0012 cmd s =
     map_option (\<lambda>d. putc 24 d (putc 16 [20] (putc 0 [0x00, 0x13, 0x0b, 0x00] (Msg (sid16 s) 72)))) (slice_from 24 cmd)"

definition msgAck0000 :: "bytes \<Rightarrow> bytes \<Rightarrow> ('a session16_scheme) \<Rightarrow> bytes option" where
  "msgAck0000 cmd spare s =
     (case slice_cap 20 24 cmd spare of
        None \<Rightarrow> None
      | Some rid \<Rightarrow>
          if length cmd < 32 then None
          else Some (putc 24 (drop (length cmd - 32) cmd)
                 (putc 20 rid (putc 16 [32] (putc 0 [0x00, 0x14, 0x0b, 0x00] (Msg (sid16 s) 84))))))"

definition msg0012 :: "('a session16_scheme) \<Rightarrow> bytes" where
  "msg0012 s =
     putc 33 [1] (putc 28 [1] (putc 24 [2] (putc 16 [12] (putc 0 [0x00, 0x12, 0x0b, 0x00] (Msg (sid16 s) 64)))))"

definition msgAck0007 :: "('a session16_scheme) \<Rightarrow> bytes" where
  "msgAck0007 s = putc 20 [1] (putc 0 [0x01, 0x0a, 0x0b, 0x00] (Msg (sid16 s) 56))"

definition msgAck0008 :: "bytes \<Rightarrow> ('a session16_scheme) \<Rightarrow> bytes option" where
  "msgAck0008 cmd s =
     map_option (\<lambda>d. putc 20 d (putc 0 [0x01, 0x09, 0x0b, 0x00] (Msg (sid16 s) 56))) (slice_from 20 cmd)"

text \<open>The answer is written when it can be built; what is behind it goes on.\<close>

definition write_then :: "nat \<Rightarrow> bytes option \<Rightarrow> ('a session16_scheme) \<Rightarrow> ('a session16_scheme) option" where
  "write_then chID msg s = (case msg of None \<Rightarrow> None | Some m \<Rightarrow> SessionWrite chID m s)"

definition handleCh1_16 :: "bytes \<Rightarrow> bytes \<Rightarrow> session16 \<Rightarrow> (tutk_msg \<times> session16) option" where
  "handleCh1_16 cmd spare s =
     (case slice_cap 0 2 cmd spare of
        None \<Rightarrow> None
      | Some cid \<Rightarrow>
          if cid = [0x00, 0x00] then
            (case write_then 1 (msgAck0000 cmd spare s) s of
               None \<Rightarrow> None
             | Some s1 \<Rightarrow> map_option (Pair MsgClientStart) (write_then 1 (Some (msg0012 s1)) s1))
          else if cid = [0x00, 0x07] then map_option (Pair MsgUnknown0007) (write_then 1 (Some (msgAck0007 s)) s)
          else if cid = [0x00, 0x08] then map_option (Pair MsgUnknown0008) (write_then 1 (msgAck0008 cmd s) s)
          else if cid = [0x00, 0x13] then Some (MsgUnknown0013, s)
          else Some (MsgUnknown, s))"

text \<open>The sends to the channels do not block: a frame without room ends the worker, a command is dropped.\<close>

definition pushPkt :: "bytes \<times> bytes \<Rightarrow> ('a session16_scheme) \<Rightarrow> tutk_msg \<times> ('a session16_scheme)" where
  "pushPkt p s = (if length (rawPkt s) < 100 then (MsgMediaFrame, s\<lparr>rawPkt := rawPkt s @ [p]\<rparr>) else (MsgError, s))"

definition pushCmd :: "raw_cmd \<Rightarrow> ('a session16_scheme) \<Rightarrow> ('a session16_scheme)" where
  "pushCmd c s = (if length (rawCmd s) < 10 then s\<lparr>rawCmd := rawCmd s @ [c]\<rparr> else s)"

text \<open>A chunk of a frame, message 01 03.\<close>

definition mediaChunk16 :: "bytes \<Rightarrow> session16 \<Rightarrow> (tutk_msg \<times> session16) option" where
  "mediaChunk16 cmd s =
     (if length cmd < 14 then None
      else
        let frameSeq = get_le16 (drop 4 cmd); chunkSeq = get_le16 (drop 12 cmd) in
        if chunkSeq = 0 \<and> length cmd < 16 then None
        else if chunkSeq \<noteq> 0 \<and> (frameSeq \<noteq> waitFSeq s \<or> chunkSeq \<noteq> waitCSeq s) then
          Some (MsgMediaLost, s\<lparr>waitCSeq := 0\<rparr>)
        else
          let payloadSize = unat (get_le32 (drop 8 cmd));
              s1 = (if chunkSeq = 0
                    then s\<lparr>waitFSeq := frameSeq, waitCSeq := 0, waitData := [],
                           waitSize := unat (get_le16 (drop 14 cmd)) + payloadSize\<rparr>
                    else s)
          in if length cmd < 24 then None
             else
               let data = waitData s1 @ drop 24 cmd; s2 = s1\<lparr>waitData := data\<rparr> in
               if length data < waitSize s2 then Some (MsgMediaChunk, s2\<lparr>waitCSeq := waitCSeq s2 + 1\<rparr>)
               else if length data < payloadSize then None
               else Some (pushPkt (drop payloadSize data, take payloadSize data) (s2\<lparr>waitCSeq := 0\<rparr>)))"

text \<open>A frame in one message, 01 04: the header first.\<close>

definition mediaWhole16 :: "bytes \<Rightarrow> session16 \<Rightarrow> (tutk_msg \<times> session16) option" where
  "mediaWhole16 cmd s =
     (if length cmd < 24 then None
      else
        let data = drop 24 cmd; hdrSize = unat (get_le16 (drop 14 cmd)) in
        if length data < hdrSize then None
        else Some (pushPkt (take hdrSize data, drop hdrSize data) s))"

definition SessionRead16 :: "nat \<Rightarrow> bytes \<Rightarrow> bytes \<Rightarrow> session16 \<Rightarrow> (tutk_msg \<times> session16) option" where
  "SessionRead16 chID cmd spare s =
     (if chID \<noteq> 0 then handleCh1_16 cmd spare s
      else if cmd = [] then None
      else if cmd ! 0 = 0x01 then
        (if length cmd < 2 then None
         else if cmd ! 1 = 0x03 then mediaChunk16 cmd s
         else if cmd ! 1 = 0x04 then mediaWhole16 cmd s
         else Some (MsgUnknown, s))
      else if cmd ! 0 = 0x00 then
        (if length cmd < 2 then None
         else if cmd ! 1 = 0x70 then
           (case write_then 0 (msgAck0070 cmd spare s) s of
              None \<Rightarrow> None
            | Some s1 \<Rightarrow> map_option (\<lambda>d. (MsgCommand, pushCmd (Copied d) s1)) (slice_from 24 cmd))
         else if cmd ! 1 = 0x12 then map_option (Pair MsgDafang0012) (write_then 0 (msgAck0012 cmd s) s)
         else if cmd ! 1 = 0x71 then Some (MsgCommandAck, s)
         else Some (MsgUnknown, s))
      else Some (MsgUnknown, s))"

text \<open>
  \<open>RecvIOCtrl\<close> and \<open>RecvFrameData\<close> on a channel with an element, \<open>buf\<close> being the worker's buffer at
  that time; the inner \<open>None\<close> is a panic.
\<close>

definition RecvIOCtrl :: "bytes \<Rightarrow> ('a session16_scheme) \<Rightarrow> ((u32 \<times> bytes) option \<times> ('a session16_scheme)) option" where
  "RecvIOCtrl buf s =
     (case rawCmd s of
        [] \<Rightarrow> None
      | c # cs \<Rightarrow>
          let b = cmd_bytes buf c in
          Some (if length b < 4 then None else Some (get_le32 b, drop 4 b), s\<lparr>rawCmd := cs\<rparr>))"

definition RecvFrameData :: "('a session16_scheme) \<Rightarrow> ((bytes \<times> bytes) \<times> ('a session16_scheme)) option" where
  "RecvFrameData s = (case rawPkt s of [] \<Rightarrow> None | p # ps \<Rightarrow> Some (p, s\<lparr>rawPkt := ps\<rparr>))"

subsection \<open>The reorder buffer\<close>

definition rb_check :: "u16 \<Rightarrow> reorderBuffer \<Rightarrow> bool" where
  "rb_check sq r \<longleftrightarrow> sq = rb_seq r"

definition rb_next :: "reorderBuffer \<Rightarrow> reorderBuffer" where
  "rb_next r = r\<lparr>rb_seq := rb_seq r + 1\<rparr>"

definition rb_available :: "reorderBuffer \<Rightarrow> int" where
  "rb_available r = int (rb_size r) - int (length (rb_buf r))"

definition rb_push :: "u16 \<Rightarrow> bytes \<Rightarrow> reorderBuffer \<Rightarrow> reorderBuffer" where
  "rb_push sq d r = r\<lparr>rb_buf := AList.update sq d (rb_buf r)\<rparr>"

text \<open>\<open>Pop\<close>: the outer \<open>None\<close> would be a loop without end, the inner one is \<open>nil\<close>.\<close>

partial_function (option) rb_pop :: "reorderBuffer \<Rightarrow> (bytes option \<times> reorderBuffer) option" where
  "rb_pop r =
     (case map_of (rb_buf r) (rb_seq r) of
        Some d \<Rightarrow> Some (Some d, rb_next (r\<lparr>rb_buf := AList.delete (rb_seq r) (rb_buf r)\<rparr>))
      | None \<Rightarrow>
          if rb_available r > 0 then Some (None, r) else rb_pop (rb_next r))"

subsection \<open>Session25: messages of the camera\<close>

definition msgAckCounters :: "u64 \<Rightarrow> session25 \<Rightarrow> bytes \<times> session25" where
  "msgAckCounters now s =
     (let msg = putc 0 [0x09, 0x00, 0x0b, 0x00] (Msg (sid16 s) 52);
          msg1 = putc 10 (le16 (seqRecvPkt1 s)) (putc 8 (le16 (seqRecvPkt0 s)) (putc 4 (le16 (seqSendCmd1 s)) msg));
          msg2 = putc 18 (le16 (seqSendCnt s)) (putc 12 (le16 (seqRecvCmd2 s)) msg1)
      in (putc 20 (le16 (ucast now)) msg2,
          s\<lparr>seqSendCmd1 := seqSendCmd1 s + 1, seqRecvPkt0 := seqRecvPkt1 s, seqSendCnt := seqSendCnt s + 1\<rparr>))"

definition writeCounters :: "u64 \<Rightarrow> session25 \<Rightarrow> session25 option" where
  "writeCounters now s = (case msgAckCounters now s of (m, s1) \<Rightarrow> SessionWrite 0 m s1)"

definition msgAck0020 :: "bytes \<Rightarrow> bytes \<Rightarrow> session25 \<Rightarrow> bytes option" where
  "msgAck0020 cmd spare s =
     map_option (\<lambda>rid.
       let msg = putc 20 rid (putc 16 [36] (putc 0 [0x00, 0x21, 0x0b, 0x00] (Msg (sid16 s) 92)));
           msg1 = putc 40 [4] (putc 36 [1] (putc 35 [1] (putc 33 [1] msg)))
       in putc 60 [1] (putc 58 [3] (putc 44 [0xfb, 0x07, 0x1f, 0x00] msg1))) (slice_cap 20 24 cmd spare)"

definition msgAck0A08 :: "bytes \<Rightarrow> bytes \<Rightarrow> session25 \<Rightarrow> bytes option" where
  "msgAck0A08 cmd spare s =
     map_option (\<lambda>d. putc 8 d (putc 0 [0x0b, 0x00, 0x0b, 0x00] (Msg (sid16 s) 48))) (slice_cap 8 10 cmd spare)"

definition handleCh1_25 :: "bytes \<Rightarrow> bytes \<Rightarrow> session25 \<Rightarrow> (tutk_msg \<times> session25) option" where
  "handleCh1_25 cmd spare s =
     (case slice_cap 0 2 cmd spare of
        None \<Rightarrow> None
      | Some cid \<Rightarrow>
          if cid = [0x00, 0x00] then Some (MsgClientStart, s)
          else if cid = [0x00, 0x07] then map_option (Pair MsgUnknown0007) (write_then 1 (Some (msgAck0007 s)) s)
          else if cid = [0x00, 0x20] then map_option (Pair MsgClientStart2) (write_then 1 (msgAck0020 cmd spare s) s)
          else if cid = [0x09, 0x00] then Some (MsgUnknown0900, s)
          else if cid = [0x0a, 0x08] then Some (MsgUnknown0a08, s)
          else Some (MsgUnknown, s))"

text \<open>\<open>handleChunk\<close> behind the check of the sequence number: \<open>cmd2\<close> is the second header.\<close>

definition chunkHeader :: "bytes \<Rightarrow> bytes option" where
  "chunkHeader cmd =
     (if length cmd < 2 then None
      else slice_from (if cmd ! 1 AND 8 = 0 then 8 else 16) cmd)"

definition acceptChunk :: "u64 \<Rightarrow> u8 \<Rightarrow> bytes \<Rightarrow> session25 \<Rightarrow> (tutk_msg \<times> session25) option" where
  "acceptChunk now flags cmd2 s =
     (if length cmd2 < 8 then None
      else
        let sq = get_le16 (drop 2 cmd2);
            first = (get_le16 (drop 6 cmd2) = 0 \<or> get_le16 (drop 4 cmd2) = 1)
        in if \<not> first \<and> sq \<noteq> waitCSeq s then Some (MsgMediaLost, s)
           else if length cmd2 < 20 then None
           else
             let s1 = (if first then s\<lparr>waitData := [], waitCSeq := sq\<rparr> else s);
                 data = waitData s1 @ drop 20 cmd2;
                 s2 = s1\<lparr>waitData := data\<rparr>
             in if flags AND 1 = 0 then Some (MsgMediaChunk, s2\<lparr>waitCSeq := waitCSeq s2 + 1\<rparr>)
                else case writeCounters now (s2\<lparr>seqRecvPkt1 := sq\<rparr>) of
                  None \<Rightarrow> None
                | Some s3 \<Rightarrow>
                    if length data < 32 then None
                    else let n = length data - 32 in Some (pushPkt (drop n data, take n data) s3))"

definition handleChunk :: "u64 \<Rightarrow> bytes \<Rightarrow> bool \<Rightarrow> session25 \<Rightarrow> (tutk_msg \<times> session25) option" where
  "handleChunk now cmd checkSeq s =
     (case chunkHeader cmd of
        None \<Rightarrow> None
      | Some cmd2 \<Rightarrow>
          if length cmd2 < 4 then None
          else
            let sq = get_le16 (drop 2 cmd2) in
            if checkSeq \<and> \<not> rb_check sq (rb s) then Some (MsgMediaReorder, s\<lparr>rb := rb_push sq cmd (rb s)\<rparr>)
            else acceptChunk now (cmd ! 1) cmd2 (if checkSeq then s\<lparr>rb := rb_next (rb s)\<rparr> else s))"

text \<open>The loop of \<open>SessionRead\<close>: the outer \<open>None\<close> would be a loop without end, the inner one is a panic.\<close>

partial_function (option) chunkLoop ::
    "u64 \<Rightarrow> bytes \<Rightarrow> bool \<Rightarrow> session25 \<Rightarrow> (tutk_msg \<times> session25) option option" where
  "chunkLoop now cmd checkSeq s =
     (case handleChunk now cmd checkSeq s of
        None \<Rightarrow> Some None
      | Some (res, s1) \<Rightarrow>
          (case rb_pop (rb s1) of
             None \<Rightarrow> None
           | Some (None, r) \<Rightarrow> Some (Some (res, s1\<lparr>rb := r\<rparr>))
           | Some (Some d, r) \<Rightarrow> chunkLoop now d False (s1\<lparr>rb := r\<rparr>)))"

definition SessionRead25 :: "u64 \<Rightarrow> nat \<Rightarrow> bytes \<Rightarrow> bytes \<Rightarrow> session25 \<Rightarrow> (tutk_msg \<times> session25) option option" where
  "SessionRead25 now chID cmd spare s =
     (if chID \<noteq> 0 then Some (handleCh1_25 cmd spare s)
      else if cmd = [] then Some None
      else if cmd ! 0 \<in> {0x03, 0x05, 0x07} then chunkLoop now cmd True s
      else if cmd ! 0 = 0x00 then
        Some (case writeCounters now s of
          None \<Rightarrow> None
        | Some s1 \<Rightarrow>
            if length cmd < 4 then None
            else
              let s2 = s1\<lparr>seqRecvCmd2 := get_le16 (drop 2 cmd)\<rparr> in
              if cmd ! 1 = 0x10 then Some (MsgUnknown0010, s2)
              else if cmd ! 1 = 0x21 then Some (MsgClientStartAck2, s2)
              else if cmd ! 1 = 0x70 then
                (if length cmd < 28 then None
                 else Some (MsgCommand, pushCmd (Shared (28 + 28) (28 + length cmd)) s2))
              else if cmd ! 1 = 0x71 then Some (MsgCommandAck, s2)
              else Some (MsgUnknown, s2))
      else if cmd ! 0 = 0x09 then
        Some (if length cmd < 14 then None
              else if get_le16 (drop 12 cmd) < seqSendCmd1 s then Some (MsgCommandAck, s)
              else Some (MsgCounters, s))
      else if cmd ! 0 = 0x0a then
        Some (map_option (Pair MsgUnknown0a08) (write_then 0 (msgAck0A08 cmd spare s) s))
      else Some (Some (MsgUnknown, s)))"

end
