(* ===== verification/TutkReorder.thy ===== *)
theory TutkReorder
  imports TutkSession
begin

section \<open>TUTK sessions: chunks out of order\<close>

text \<open>
  What the reorder buffer of \<open>session25.go\<close> promises. Its loops end. As long as fewer chunks are
  waiting than it has room for, a session that gets its chunks out of order is, when all have come,
  in the state that it would have had with the chunks in order. Chunks that come again are not
  recognised: when as many of them have come as there is room, they are handed on a second time.
\<close>

subsection \<open>The loops end\<close>

lemma rb_next_simps [simp]:
  "rb_buf (rb_next r) = rb_buf r" "rb_seq (rb_next r) = rb_seq r + 1" "rb_size (rb_next r) = rb_size r"
  by (simp_all add: rb_next_def)

lemma rb_available_next [simp]: "rb_available (rb_next r) = rb_available r"
  by (simp add: rb_available_def)

lemma rb_pop_hit:
  "map_of (rb_buf r) (rb_seq r) = Some d \<Longrightarrow>
   rb_pop r = Some (Some d, r\<lparr>rb_buf := AList.delete (rb_seq r) (rb_buf r), rb_seq := rb_seq r + 1\<rparr>)"
  by (subst rb_pop.simps) (simp add: rb_next_def)

lemma rb_pop_wait:
  "map_of (rb_buf r) (rb_seq r) = None \<Longrightarrow> length (rb_buf r) < rb_size r \<Longrightarrow> rb_pop r = Some (None, r)"
  by (subst rb_pop.simps) (simp add: rb_available_def)

text \<open>A full buffer: the missing numbers up to the next one that it holds are dropped.\<close>

lemma rb_pop_drop:
  assumes "rb_size r \<le> length (rb_buf r)" "\<forall>j < d. map_of (rb_buf r) (rb_seq r + of_nat j) = None"
    "map_of (rb_buf r) (rb_seq r + of_nat d) = Some x"
  shows "rb_pop r = Some (Some x, r\<lparr>rb_buf := AList.delete (rb_seq r + of_nat d) (rb_buf r), rb_seq := rb_seq r + of_nat d + 1\<rparr>)"
  using assms
proof (induction d arbitrary: r)
  case 0
  then show ?case using rb_pop_hit [of r x] by simp
next
  case (Suc d)
  have a: "rb_seq r + 1 + of_nat j = rb_seq r + of_nat (Suc j)" for j by simp
  from Suc.prems(2) have "map_of (rb_buf r) (rb_seq r + of_nat 0) = None" by blast
  then have "rb_pop r = rb_pop (rb_next r)"
    using Suc.prems(1) by (subst rb_pop.simps) (simp add: rb_available_def)
  moreover have "\<forall>j < d. map_of (rb_buf (rb_next r)) (rb_seq (rb_next r) + of_nat j) = None"
    using Suc.prems(2) unfolding rb_next_simps a by blast
  moreover have "map_of (rb_buf (rb_next r)) (rb_seq (rb_next r) + of_nat d) = Some x"
    using Suc.prems(3) unfolding rb_next_simps a .
  ultimately show ?case
    using Suc.IH [of "rb_next r"] Suc.prems(1) unfolding rb_next_simps a by (simp add: rb_next_def)
qed

lemma rb_pop_ends:
  assumes "0 < rb_size r"
  obtains "rb_pop r = Some (None, r)" "length (rb_buf r) < rb_size r"
  | d q where "map_of (rb_buf r) q = Some d"
      "rb_pop r = Some (Some d, r\<lparr>rb_buf := AList.delete q (rb_buf r), rb_seq := q + 1\<rparr>)"
proof (cases "map_of (rb_buf r) (rb_seq r) = None \<and> length (rb_buf r) < rb_size r")
  case True
  then show ?thesis using that(1) rb_pop_wait by simp
next
  case False
  show ?thesis
  proof (cases "map_of (rb_buf r) (rb_seq r)")
    case (Some d)
    then show ?thesis using that(2) rb_pop_hit by blast
  next
    case None
    with False have l: "rb_size r \<le> length (rb_buf r)" by simp
    with assms obtain q b bs where "rb_buf r = (q, b) # bs" by (cases "rb_buf r") auto
    then have "map_of (rb_buf r) q \<noteq> None" by simp
    moreover have "q = rb_seq r + of_nat (unat (q - rb_seq r))" by simp
    ultimately have ex: "\<exists>n. map_of (rb_buf r) (rb_seq r + of_nat n) \<noteq> None" by metis
    define d where "d = (LEAST n. map_of (rb_buf r) (rb_seq r + of_nat n) \<noteq> None)"
    from LeastI_ex [OF ex] obtain x where x: "map_of (rb_buf r) (rb_seq r + of_nat d) = Some x"
      unfolding d_def by blast
    have "\<forall>j < d. map_of (rb_buf r) (rb_seq r + of_nat j) = None"
      unfolding d_def using not_less_Least by blast
    from rb_pop_drop [OF l this x] x that(2) show ?thesis by blast
  qed
qed

text \<open>\<open>acceptChunk\<close> neither reads nor changes the buffer.\<close>

lemma SessionWrite_rb [simp]: "SessionWrite ch m (s\<lparr>rb := r\<rparr>) = map_option (\<lambda>t. t\<lparr>rb := r\<rparr>) (SessionWrite ch m (s :: session25))"
  by (simp add: SessionWrite_def)

lemma writeCounters_rb: "writeCounters now (s\<lparr>rb := r\<rparr>) = map_option (\<lambda>t. t\<lparr>rb := r\<rparr>) (writeCounters now s)"
  by (simp add: writeCounters_def msgAckCounters_def Let_def SessionWrite_def)

lemma pushPkt_rb: "pushPkt p (s\<lparr>rb := r\<rparr>) = (case pushPkt p (s :: session25) of (m, t) \<Rightarrow> (m, t\<lparr>rb := r\<rparr>))"
  by (simp add: pushPkt_def)

text \<open>An update of the buffer moves out of the other updates.\<close>

lemma rb_update_out:
  fixes s :: session25
  shows "rb_update g s\<lparr>waitData := d\<rparr> = rb_update g (s\<lparr>waitData := d\<rparr>)"
    "rb_update g s\<lparr>waitCSeq := c\<rparr> = rb_update g (s\<lparr>waitCSeq := c\<rparr>)"
    "rb_update g s\<lparr>seqRecvPkt1 := c\<rparr> = rb_update g (s\<lparr>seqRecvPkt1 := c\<rparr>)"
  by simp_all

lemma acceptChunk_rb:
  "acceptChunk now f c (s\<lparr>rb := r\<rparr>) = map_option (\<lambda>(m, t). (m, t\<lparr>rb := r\<rparr>)) (acceptChunk now f c s)"
  unfolding acceptChunk_def Let_def rb_update_out
  by (auto simp: rb_update_out writeCounters_rb pushPkt_rb split: option.splits prod.splits)

lemma acceptChunk_keeps: "acceptChunk now f c s = Some (m, t) \<Longrightarrow> rb t = rb s"
  using acceptChunk_rb [of now f c "rb s" s] by (auto dest: arg_cong [of _ _ rb])

lemma handleChunk_keeps: "handleChunk now c False s = Some (m, t) \<Longrightarrow> rb t = rb s"
  by (auto simp: handleChunk_def Let_def split: option.splits if_splits dest: acceptChunk_keeps)

lemma chunkLoop_ends_popped:
  "0 < rb_size (rb s) \<Longrightarrow> \<exists>x. chunkLoop now c False s = Some x"
proof (induction "length (rb_buf (rb s))" arbitrary: s c rule: less_induct)
  case less
  show ?case
  proof (cases "handleChunk now c False s")
    case None
    then show ?thesis by (subst chunkLoop.simps) simp
  next
    case (Some h)
    obtain m t where h: "handleChunk now c False s = Some (m, t)" using Some by (cases h) auto
    from handleChunk_keeps [OF h] have r: "rb t = rb s" .
    with less.prems have "0 < rb_size (rb t)" by simp
    then show ?thesis
    proof (cases rule: rb_pop_ends)
      case 1
      then show ?thesis using h by (subst chunkLoop.simps) simp
    next
      case (2 d q)
      let ?r = "(rb t)\<lparr>rb_buf := AList.delete q (rb_buf (rb t)), rb_seq := q + 1\<rparr>"
      have "\<exists>x. chunkLoop now d False (t\<lparr>rb := ?r\<rparr>) = Some x"
        using less.hyps [of "t\<lparr>rb := ?r\<rparr>" d] less.prems length_delete_less [OF 2(1)] r by simp
      with 2 h show ?thesis by (subst chunkLoop.simps) simp
    qed
  qed
qed

lemma chunkLoop_ends: "0 < rb_size (rb s) \<Longrightarrow> \<exists>x. chunkLoop now c True s = Some x"
proof (cases "handleChunk now c True s")
  case None
  then show ?thesis by (subst chunkLoop.simps) simp
next
  case (Some h)
  assume z: "0 < rb_size (rb s)"
  obtain m t where h: "handleChunk now c True s = Some (m, t)" using Some by (cases h) auto
  then have "rb_size (rb t) = rb_size (rb s)"
    by (auto simp: handleChunk_def Let_def rb_push_def split: option.splits if_splits dest: acceptChunk_keeps)
  with z have "0 < rb_size (rb t)" by simp
  then show ?thesis
  proof (cases rule: rb_pop_ends)
    case 1
    then show ?thesis using h by (subst chunkLoop.simps) simp
  next
    case (2 d q)
    let ?r = "(rb t)\<lparr>rb_buf := AList.delete q (rb_buf (rb t)), rb_seq := q + 1\<rparr>"
    have "\<exists>x. chunkLoop now d False (t\<lparr>rb := ?r\<rparr>) = Some x"
      using chunkLoop_ends_popped [of "t\<lparr>rb := ?r\<rparr>" now d] \<open>0 < rb_size (rb t)\<close> by simp
    with 2 h show ?thesis by (subst chunkLoop.simps) simp
  qed
qed

subsection \<open>Chunks in order\<close>

text \<open>The chunks handled one after the other, without the buffer; and through the buffer.\<close>

fun inOrder :: "u64 \<Rightarrow> bytes list \<Rightarrow> session25 \<Rightarrow> session25 option" where
  "inOrder now [] s = Some s"
| "inOrder now (c # cs) s =
     (case handleChunk now c False s of None \<Rightarrow> None | Some (_, t) \<Rightarrow> inOrder now cs t)"

fun feedChunks :: "u64 \<Rightarrow> bytes list \<Rightarrow> session25 \<Rightarrow> session25 option" where
  "feedChunks now [] s = Some s"
| "feedChunks now (c # cs) s =
     (case chunkLoop now c True s of Some (Some (_, t)) \<Rightarrow> feedChunks now cs t | _ \<Rightarrow> None)"

lemma handleChunk_rb:
  "handleChunk now c False (s\<lparr>rb := r\<rparr>) = map_option (\<lambda>(m, t). (m, t\<lparr>rb := r\<rparr>)) (handleChunk now c False s)"
  by (simp add: handleChunk_def Let_def acceptChunk_rb split: option.split)

lemma inOrder_rb: "inOrder now cs (s\<lparr>rb := r\<rparr>) = map_option (\<lambda>t. t\<lparr>rb := r\<rparr>) (inOrder now cs s)"
  by (induction cs arbitrary: s) (auto simp: handleChunk_rb split: option.split)

lemma inOrder_append:
  "inOrder now (cs @ ds) s = (case inOrder now cs s of None \<Rightarrow> None | Some t \<Rightarrow> inOrder now ds t)"
  by (induction cs arbitrary: s) (auto split: option.split)

lemma feedChunks_append:
  "feedChunks now (cs @ ds) s = (case feedChunks now cs s of None \<Rightarrow> None | Some t \<Rightarrow> feedChunks now ds t)"
  by (induction cs arbitrary: s) (auto split: option.split)

text \<open>The buffer holds the chunks of a set of indices, counted from a base.\<close>

definition holds :: "u16 \<Rightarrow> (nat \<Rightarrow> bytes) \<Rightarrow> (u16 \<times> bytes) list \<Rightarrow> nat set \<Rightarrow> bool" where
  "holds base m buf P \<longleftrightarrow> distinct (map fst buf) \<and> P \<subseteq> {..<65536} \<and>
     (\<forall>i < 65536. map_of buf (base + of_nat i) = (if i \<in> P then Some (m i) else None))"

lemma u16_inj: "i < 65536 \<Longrightarrow> j < 65536 \<Longrightarrow> (of_nat i :: u16) = of_nat j \<longleftrightarrow> i = j"
  by (simp add: word_of_nat_eq_iff take_bit_nat_eq_self)

lemma base_inj: "i < 65536 \<Longrightarrow> j < 65536 \<Longrightarrow> (base :: u16) + of_nat i = base + of_nat j \<longleftrightarrow> i = j"
  by (simp add: u16_inj)

lemma holds_length:
  assumes "holds base m buf P"
  shows "length buf = card P"
proof -
  have "dom (map_of buf) = (\<lambda>i. base + of_nat i) ` P"
  proof (intro equalityI subsetI)
    fix q assume "q \<in> dom (map_of buf)"
    moreover have "q = base + of_nat (unat (q - base))" by simp
    moreover have "unat (q - base) < 65536" using unsigned_less [of "q - base", where 'a = nat] by simp
    ultimately show "q \<in> (\<lambda>i. base + of_nat i) ` P"
      using assms unfolding holds_def by (metis domIff image_eqI)
  next
    fix q assume "q \<in> (\<lambda>i. base + of_nat i) ` P"
    then show "q \<in> dom (map_of buf)" using assms unfolding holds_def by (auto simp: subset_eq)
  qed
  moreover have "inj_on (\<lambda>i. base + of_nat i) P"
    using assms base_inj unfolding holds_def inj_on_def by (metis lessThan_iff subsetD)
  ultimately have "card (set (map fst buf)) = card P" by (simp add: dom_map_of_conv_image_fst card_image)
  then show ?thesis using assms distinct_card [of "map fst buf"] by (simp add: holds_def)
qed

lemma holds_update:
  "holds base m buf P \<Longrightarrow> j < 65536 \<Longrightarrow> holds base m (AList.update (base + of_nat j) (m j) buf) (insert j P)"
  by (auto simp: holds_def AList.update_conv' distinct_update u16_inj)

lemma holds_delete:
  "holds base m buf P \<Longrightarrow> j < 65536 \<Longrightarrow> holds base m (AList.delete (base + of_nat j) buf) (P - {j})"
  by (auto simp: holds_def AList.delete_conv' distinct_delete u16_inj)

lemma pop_run:
  assumes "handleChunk now c ck s = Some (msg, s1)"
    "rb s1 = \<lparr>rb_buf = buf, rb_seq = base + of_nat k, rb_size = z\<rparr>" "holds base m buf P"
    "k \<le> k'" "{k..<k'} \<subseteq> P" "k' \<notin> P" "k' < 65536" "card (P - {k..<k'}) < z"
  shows "case inOrder now (map m [k..<k']) s1 of
      None \<Rightarrow> chunkLoop now c ck s = Some None
    | Some t \<Rightarrow> \<exists>msg' buf'. holds base m buf' (P - {k..<k'}) \<and>
        chunkLoop now c ck s = Some (Some (msg', t\<lparr>rb := \<lparr>rb_buf = buf', rb_seq = base + of_nat k', rb_size = z\<rparr>\<rparr>))"
  using assms
proof (induction "k' - k" arbitrary: c ck s s1 buf k P msg)
  case 0
  then have k: "k = k'" by simp
  with 0 have "map_of buf (base + of_nat k) = None" "length buf < z"
    using holds_length [OF 0(4)] by (auto simp: holds_def)
  then have "rb_pop (rb s1) = Some (None, rb s1)"
    using 0(3) by (intro rb_pop_wait) simp_all
  then have "chunkLoop now c ck s = Some (Some (msg, s1\<lparr>rb := rb s1\<rparr>))"
    using 0(2) by (subst chunkLoop.simps) simp
  moreover have "rb s1 = \<lparr>rb_buf = buf, rb_seq = base + of_nat k', rb_size = z\<rparr>" using 0(3) k by simp
  moreover have "holds base m buf (P - {k..<k'})" using 0(4) k by simp
  moreover have "inOrder now (map m [k..<k']) s1 = Some s1" using k by simp
  ultimately show ?case by (simp only: option.case) blast
next
  case (Suc d)
  then have kk: "k < k'" "k \<in> P" by auto
  let ?r = "\<lparr>rb_buf = AList.delete (base + of_nat k) buf, rb_seq = base + of_nat (Suc k), rb_size = z\<rparr>"
  have "map_of buf (base + of_nat k) = Some (m k)" using Suc.prems(3,7) kk by (auto simp: holds_def)
  then have pop: "rb_pop (rb s1) = Some (Some (m k), ?r)"
    using rb_pop_hit [of "rb s1" "m k"] Suc.prems(2) by (simp add: add.assoc add.commute)
  have loop: "chunkLoop now c ck s = chunkLoop now (m k) False (s1\<lparr>rb := ?r\<rparr>)"
    using Suc.prems(1) pop by (subst chunkLoop.simps) simp
  have u: "[k..<k'] = k # [Suc k..<k']" using kk(1) by (rule upt_conv_Cons)
  have h: "holds base m (rb_buf ?r) (P - {k})" using holds_delete [OF Suc.prems(3)] Suc.prems(7) kk(1) by simp
  have P: "P - {k} - {Suc k..<k'} = P - {k..<k'}" using kk(1) by auto
  show ?case
  proof (cases "handleChunk now (m k) False s1")
    case None
    then have "chunkLoop now (m k) False (s1\<lparr>rb := ?r\<rparr>) = Some None"
      by (subst chunkLoop.simps) (simp add: handleChunk_rb)
    moreover have "inOrder now (map m [k..<k']) s1 = None" using None by (simp add: u)
    ultimately show ?thesis using loop by simp
  next
    case (Some x)
    then obtain msg2 t where t: "handleChunk now (m k) False s1 = Some (msg2, t)" by (cases x) auto
    then have t': "handleChunk now (m k) False (s1\<lparr>rb := ?r\<rparr>) = Some (msg2, t\<lparr>rb := ?r\<rparr>)" by (simp add: handleChunk_rb)
    have "case inOrder now (map m [Suc k..<k']) (t\<lparr>rb := ?r\<rparr>) of
        None \<Rightarrow> chunkLoop now (m k) False (s1\<lparr>rb := ?r\<rparr>) = Some None
      | Some t \<Rightarrow> \<exists>msg' buf'. holds base m buf' (P - {k} - {Suc k..<k'}) \<and>
          chunkLoop now (m k) False (s1\<lparr>rb := ?r\<rparr>) =
            Some (Some (msg', t\<lparr>rb := \<lparr>rb_buf = buf', rb_seq = base + of_nat k', rb_size = z\<rparr>\<rparr>))"
    proof (rule Suc.hyps(1) [OF _ t' _ h])
      show "d = k' - Suc k" using Suc.hyps(2) by simp
      show "rb (t\<lparr>rb := ?r\<rparr>) = \<lparr>rb_buf = rb_buf ?r, rb_seq = base + of_nat (Suc k), rb_size = z\<rparr>" by simp
      show "Suc k \<le> k'" "k' < 65536" using kk(1) Suc.prems(7) by simp_all
      show "{Suc k..<k'} \<subseteq> P - {k}" using Suc.prems(5) by auto
      show "k' \<notin> P - {k}" using Suc.prems(6) by simp
      show "card (P - {k} - {Suc k..<k'}) < z" using Suc.prems(8) unfolding P .
    qed
    then show ?thesis
      unfolding loop P by (cases "inOrder now (map m [Suc k..<k']) t") (simp_all add: u t inOrder_rb)
  qed
qed

text \<open>The first index that has not come; the state after a set of chunks has come.\<close>

definition lead :: "nat set \<Rightarrow> nat" where
  "lead A = (LEAST k. k \<notin> A)"

definition waiting :: "nat set \<Rightarrow> nat set" where
  "waiting A = {i \<in> A. lead A < i}"

lemma lead_props:
  assumes "finite A"
  shows "lead A \<notin> A" "{..<lead A} \<subseteq> A"
proof -
  have "\<exists>k. k \<notin> A" using assms ex_new_if_finite infinite_UNIV_nat by blast
  then show "lead A \<notin> A" unfolding lead_def by (rule LeastI_ex)
  show "{..<lead A} \<subseteq> A" unfolding lead_def using not_less_Least by blast
qed

lemma lead_eqI: "{..<k} \<subseteq> A \<Longrightarrow> k \<notin> A \<Longrightarrow> lead A = k"
  unfolding lead_def by (rule Least_equality) (auto simp: not_less [symmetric])

definition chunk_at :: "u16 \<Rightarrow> (nat \<Rightarrow> bytes) \<Rightarrow> nat \<Rightarrow> bool" where
  "chunk_at base m j \<longleftrightarrow>
     (\<exists>cmd2. chunkHeader (m j) = Some cmd2 \<and> 4 \<le> length cmd2 \<and> get_le16 (drop 2 cmd2) = base + of_nat j)"

lemma handleChunk_at:
  assumes "chunk_at base m j" "rb_seq (rb s) = base + of_nat k" "j < 65536" "k < 65536"
  shows "handleChunk now (m j) True s =
    (if j = k then handleChunk now (m j) False (s\<lparr>rb := rb_next (rb s)\<rparr>)
     else Some (MsgMediaReorder, s\<lparr>rb := rb_push (base + of_nat j) (m j) (rb s)\<rparr>))"
  using assms by (auto simp: chunk_at_def handleChunk_def rb_check_def u16_inj)

definition arrived :: "u64 \<Rightarrow> u16 \<Rightarrow> (nat \<Rightarrow> bytes) \<Rightarrow> nat \<Rightarrow> session25 \<Rightarrow> nat set \<Rightarrow> session25 option \<Rightarrow> bool" where
  "arrived now base m z s A u \<longleftrightarrow>
     (case inOrder now (map m [0..<lead A]) s of
        None \<Rightarrow> u = None
      | Some t \<Rightarrow> \<exists>buf. holds base m buf (waiting A) \<and>
          u = Some (t\<lparr>rb := \<lparr>rb_buf = buf, rb_seq = base + of_nat (lead A), rb_size = z\<rparr>\<rparr>))"

lemma arrived_some:
  assumes "arrived now base m z s A (Some u)"
  shows "\<exists>t buf. inOrder now (map m [0..<lead A]) s = Some t \<and> holds base m buf (waiting A) \<and>
    u = t\<lparr>rb := \<lparr>rb_buf = buf, rb_seq = base + of_nat (lead A), rb_size = z\<rparr>\<rparr>"
  using assms by (auto simp: arrived_def split: option.splits)

lemma lead_le:
  assumes "finite A" "A \<subseteq> {..<n}"
  shows "lead A \<le> n"
proof (rule ccontr)
  assume "\<not> lead A \<le> n"
  then have "n \<in> A" using lead_props(2) [OF assms(1)] by auto
  with assms(2) show False by auto
qed

lemma lead_insert_lead:
  assumes "finite A"
  shows "lead A < lead (insert (lead A) A)"
    "waiting A - {Suc (lead A)..<lead (insert (lead A) A)} = waiting (insert (lead A) A)"
    "{Suc (lead A)..<lead (insert (lead A) A)} \<subseteq> waiting A"
proof -
  let ?A = "insert (lead A) A"
  note l = lead_props [OF assms] and l' = lead_props [of ?A]
  show kk: "lead A < lead ?A"
  proof (rule ccontr)
    assume "\<not> lead A < lead ?A"
    then consider "lead ?A < lead A" | "lead ?A = lead A" by linarith
    then show False using l l'(1) assms by cases auto
  qed
  show "{Suc (lead A)..<lead ?A} \<subseteq> waiting A"
    using l'(2) assms by (auto simp: waiting_def)
  have "x \<noteq> lead ?A" if "x \<in> A" for x using l'(1) assms that by auto
  then show "waiting A - {Suc (lead A)..<lead ?A} = waiting ?A"
    using kk by (auto simp: waiting_def) (metis linorder_neqE_nat)
qed

text \<open>A chunk that is not the expected one waits in the buffer.\<close>

lemma arrived_wait:
  assumes "arrived now base m z s A (Some u)" "finite A" "A \<subseteq> {..<n}" "j \<notin> A" "j < n" "n < 65536" "chunk_at base m j"
    "card (waiting (insert j A)) < z" "j \<noteq> lead A"
  shows "arrived now base m z s (insert j A) (map_option snd (the (chunkLoop now (m j) True u)))"
proof -
  let ?k = "lead A" and ?A = "insert j A"
  obtain t buf where t: "inOrder now (map m [0..<?k]) s = Some t" and b: "holds base m buf (waiting A)"
    and u: "u = t\<lparr>rb := \<lparr>rb_buf = buf, rb_seq = base + of_nat ?k, rb_size = z\<rparr>\<rparr>"
    using arrived_some [OF assms(1)] by blast
  note l = lead_props [OF assms(2)]
  have k: "?k < 65536" using lead_le [OF assms(2,3)] assms(6) by simp
  then have j: "?k < j" using l(2) assms(4,9) by (meson lessThan_iff linorder_neqE_nat subsetD)
  have la: "lead ?A = ?k" using l assms(9) by (intro lead_eqI) auto
  then have w: "waiting ?A = insert j (waiting A)" using j by (auto simp: waiting_def)
  let ?r = "rb_push (base + of_nat j) (m j) (rb u)"
  have h: "holds base m (rb_buf ?r) (waiting ?A)"
    unfolding w using holds_update [OF b, of j] assms(5,6) u by (simp add: rb_push_def)
  have r: "rb_seq ?r = base + of_nat ?k" "rb_size ?r = z" using u by (simp_all add: rb_push_def)
  have "?k \<notin> waiting ?A" using la by (simp add: waiting_def)
  then have "map_of (rb_buf ?r) (rb_seq ?r) = None" using h k r by (simp add: holds_def)
  moreover have "length (rb_buf ?r) < rb_size ?r" using holds_length [OF h] assms(8) r by simp
  ultimately have p: "rb_pop ?r = Some (None, ?r)" by (rule rb_pop_wait)
  have "handleChunk now (m j) True u = Some (MsgMediaReorder, u\<lparr>rb := ?r\<rparr>)"
    using handleChunk_at [OF assms(7), of u ?k now] u assms(9) k assms(5,6) by simp
  then have "chunkLoop now (m j) True u = Some (Some (MsgMediaReorder, u\<lparr>rb := ?r\<rparr>))"
    using p by (subst chunkLoop.simps) simp
  moreover have "u\<lparr>rb := ?r\<rparr> = t\<lparr>rb := \<lparr>rb_buf = rb_buf ?r, rb_seq = base + of_nat ?k, rb_size = z\<rparr>\<rparr>"
    using u r by simp
  ultimately show ?thesis using h t la by (auto simp: arrived_def)
qed

text \<open>The expected chunk is handled, with the run of waiting chunks behind it.\<close>

lemma arrived_lead:
  assumes "arrived now base m z s A (Some u)" "finite A" "A \<subseteq> {..<n}" "j \<notin> A" "j < n" "n < 65536" "chunk_at base m j"
    "card (waiting (insert j A)) < z" "j = lead A"
  shows "arrived now base m z s (insert j A) (map_option snd (the (chunkLoop now (m j) True u)))"
proof -
  let ?k = "lead A" and ?A = "insert j A"
  obtain t buf where t: "inOrder now (map m [0..<?k]) s = Some t" and b: "holds base m buf (waiting A)"
    and u: "u = t\<lparr>rb := \<lparr>rb_buf = buf, rb_seq = base + of_nat ?k, rb_size = z\<rparr>\<rparr>"
    using arrived_some [OF assms(1)] by blast
  note l = lead_props [OF assms(2)]
  have k: "?k < 65536" using lead_le [OF assms(2,3)] assms(6) by simp
  let ?k' = "lead ?A" and ?P = "waiting A"
  note l' = lead_props [of ?A]
  have n: "?k < ?k'" "?P - {Suc ?k..<?k'} = waiting ?A" "{Suc ?k..<?k'} \<subseteq> ?P"
    unfolding assms(9) by (rule lead_insert_lead [OF assms(2)])+
  have "?k' \<le> n" using lead_le [of ?A n] assms(2,3,5) by simp
  then have k': "?k' < 65536" using assms(6) by simp
  let ?r = "\<lparr>rb_buf = buf, rb_seq = base + of_nat (Suc ?k), rb_size = z\<rparr>"
  have "[0..<?k'] = [0..<?k] @ ?k # [Suc ?k..<?k']"
    using n(1) upt_add_eq_append [of 0 ?k "?k' - ?k"] by (simp add: upt_conv_Cons)
  then have io: "inOrder now (map m [0..<?k']) s =
      (case handleChunk now (m ?k) False t of None \<Rightarrow> None | Some (_, t2) \<Rightarrow> inOrder now (map m [Suc ?k..<?k']) t2)"
    by (simp add: inOrder_append t)
  have e: "u\<lparr>rb := rb_next (rb u)\<rparr> = t\<lparr>rb := ?r\<rparr>" by (simp add: u rb_next_def add.commute add.left_commute)
  have "rb_seq (rb u) = base + of_nat ?k" "j < 65536" using u assms(5,6) by simp_all
  from handleChunk_at [OF assms(7) this k, of now]
  have h: "handleChunk now (m j) True u = handleChunk now (m ?k) False (t\<lparr>rb := ?r\<rparr>)"
    unfolding e assms(9) [symmetric] by simp
  show ?thesis
  proof (cases "handleChunk now (m ?k) False t")
    case None
    then have "chunkLoop now (m j) True u = Some None"
      by (subst chunkLoop.simps) (simp add: h handleChunk_rb)
    with None show ?thesis by (simp add: arrived_def io)
  next
    case (Some x)
    then obtain msg2 t2 where t2: "handleChunk now (m ?k) False t = Some (msg2, t2)" by (cases x) auto
    then have h2: "handleChunk now (m j) True u = Some (msg2, t2\<lparr>rb := ?r\<rparr>)" by (simp add: h handleChunk_rb)
    have "?k' \<notin> ?P" using l'(1) assms(2) by (simp add: waiting_def)
    with pop_run [OF h2 _ b, of "Suc ?k" z ?k'] n k' assms(8) show ?thesis
      by (cases "inOrder now (map m [Suc ?k..<?k']) t2") (auto simp: arrived_def io t2 inOrder_rb)
  qed
qed

lemma arrived_step:
  assumes "arrived now base m z s A (Some u)" "finite A" "A \<subseteq> {..<n}" "j \<notin> A" "j < n" "n < 65536" "chunk_at base m j"
    "card (waiting (insert j A)) < z"
  shows "arrived now base m z s (insert j A) (map_option snd (the (chunkLoop now (m j) True u)))"
  by (cases "j = lead A") (rule arrived_lead [OF assms] arrived_wait [OF assms], assumption)+

lemma lead_initial [simp]: "lead {..<n} = n" "waiting {..<n} = {}" "lead {} = 0" "waiting {} = {}"
proof -
  show l: "lead {..<n} = n" "lead {} = 0" by (intro lead_eqI; auto)+
  show "waiting {..<n} = {}" "waiting {} = {}" by (auto simp: waiting_def l)
qed

lemma feedChunks_arrived:
  assumes "n < 65536" "\<forall>j < n. chunk_at base m j" "rb s = \<lparr>rb_buf = [], rb_seq = base, rb_size = z\<rparr>"
  shows "distinct as \<Longrightarrow> set as \<subseteq> {..<n} \<Longrightarrow> \<forall>k \<le> length as. card (waiting (set (take k as))) < z \<Longrightarrow>
    arrived now base m z s (set as) (feedChunks now (map m as) s)"
proof (induction as rule: rev_induct)
  case Nil
  have "s\<lparr>rb := \<lparr>rb_buf = [], rb_seq = base, rb_size = z\<rparr>\<rparr> = s" using assms(3) [symmetric] by simp
  then show ?case by (auto simp: arrived_def holds_def intro!: exI [of _ "[]"])
next
  case (snoc j as)
  have "card (waiting (set (take k as))) < z" if "k \<le> length as" for k
    using snoc.prems(3) that by (auto dest: spec [of _ k])
  with snoc have IH: "arrived now base m z s (set as) (feedChunks now (map m as) s)" by simp
  have j: "j \<notin> set as" "j < n" "set as \<subseteq> {..<n}" using snoc.prems(1,2) by auto
  have c: "card (waiting (insert j (set as))) < z" using spec [OF snoc.prems(3), of "Suc (length as)"] by simp
  show ?case
  proof (cases "feedChunks now (map m as) s")
    case None
    have "lead (set as) \<le> lead (insert j (set as))"
    proof (rule ccontr)
      assume "\<not> lead (set as) \<le> lead (insert j (set as))"
      then have "lead (insert j (set as)) \<in> set as" using lead_props(2) [of "set as"] by auto
      with lead_props(1) [of "insert j (set as)"] show False by simp
    qed
    then have u: "[0..<lead (insert j (set as))] = [0..<lead (set as)] @ [lead (set as)..<lead (insert j (set as))]"
      using upt_add_eq_append [of 0 "lead (set as)" "lead (insert j (set as)) - lead (set as)"] by simp
    have "inOrder now (map m [0..<lead (set as)]) s = None"
      using IH None by (auto simp: arrived_def split: option.splits)
    then have "inOrder now (map m [0..<lead (insert j (set as))]) s = None" by (simp add: u inOrder_append)
    with None show ?thesis by (simp add: arrived_def feedChunks_append)
  next
    case (Some v)
    have r: "rb_size (rb v) = z" using IH Some by (auto simp: arrived_def split: option.splits)
    have "0 < z" using c by simp
    with r obtain x where x: "chunkLoop now (m j) True v = Some x" using chunkLoop_ends [of v now "m j"] by auto
    from arrived_step [OF IH [unfolded Some] _ j(3,1,2) assms(1) _ c] assms(2) j(2) x
    have "arrived now base m z s (insert j (set as)) (map_option snd x)" by simp
    moreover have "feedChunks now (map m (as @ [j])) s = map_option snd x"
      using Some x by (auto simp: feedChunks_append split: option.split)
    ultimately show ?thesis by simp
  qed
qed

text \<open>
  Claim C26. Chunks out of order do no harm: when the chunks of a session, numbered from the next
  expected one, come in any order in which fewer chunks wait than the reorder buffer has room for,
  then after the last one the session is in the state (frames delivered, acknowledgements sent,
  counters) that it reaches with the same chunks in order and without the buffer; it panics only if
  it would panic then. And no chunk makes the loops of \<open>Pop\<close> and \<open>SessionRead\<close> run for ever.
\<close>

theorem tutk_reorder:
  assumes "n < 65536" "\<forall>j < n. chunk_at base m j" "rb s = \<lparr>rb_buf = [], rb_seq = base, rb_size = z\<rparr>"
    "distinct as" "set as = {..<n}" "\<forall>k \<le> length as. card (waiting (set (take k as))) < z"
  shows "feedChunks now (map m as) s =
      map_option (\<lambda>t. t\<lparr>rb := \<lparr>rb_buf = [], rb_seq = base + of_nat n, rb_size = z\<rparr>\<rparr>) (inOrder now (map m [0..<n]) s) \<and>
    (\<forall>c s'. 0 < rb_size (rb s') \<longrightarrow> chunkLoop now c True s' \<noteq> None)"
proof
  from feedChunks_arrived [OF assms(1-4) _ assms(6), of now] assms(5)
  have "arrived now base m z s {..<n} (feedChunks now (map m as) s)" by simp
  moreover have "buf = []" if "holds base m buf {}" for buf using holds_length [OF that] by simp
  ultimately show "feedChunks now (map m as) s =
      map_option (\<lambda>t. t\<lparr>rb := \<lparr>rb_buf = [], rb_seq = base + of_nat n, rb_size = z\<rparr>\<rparr>) (inOrder now (map m [0..<n]) s)"
    by (auto simp: arrived_def split: option.splits)
next
  show "\<forall>c s'. 0 < rb_size (rb s') \<longrightarrow> chunkLoop now c True s' \<noteq> None"
    using chunkLoop_ends by fastforce
qed

definition demo_chunk :: "nat \<Rightarrow> bytes" where
  "demo_chunk i = [7, of_nat i, 0x0b, 0, 0, 0, 0, 0] @
     [7, 0] @ le16 (of_nat i) @ le16 2 @ le16 (of_nat i) @ replicate 12 0 @ replicate 20 (of_nat i)"

lemma demo_chunk_at: "j < 2 \<Longrightarrow> chunk_at 0 demo_chunk j"
  by (auto simp: chunk_at_def demo_chunk_def chunkHeader_def slice_from_def less_2_cases_iff le16_def be16_def)

theorem tutk_reorder_witness:
  "feedChunks 0 [demo_chunk 1, demo_chunk 0] (NewSession25 []) =
   map_option (\<lambda>t. t\<lparr>rb := \<lparr>rb_buf = [], rb_seq = 2, rb_size = 5\<rparr>\<rparr>)
     (inOrder 0 [demo_chunk 0, demo_chunk 1] (NewSession25 []))"
proof -
  have l: "lead {Suc 0} = 0" "lead {0, Suc 0} = 2" by (intro lead_eqI; auto simp: less_2_cases_iff)+
  have w: "waiting {Suc 0} = {Suc 0}" "waiting {0, Suc 0} = {}" "waiting {Suc 0, 0} = {}"
    by (auto simp: waiting_def l insert_commute)
  have k: "card (waiting (set (take k [1, 0]))) < 5" if "k \<le> length [1, 0 :: nat]" for k
    using that w by (cases k rule: nat.exhaust; cases "k - 1") (auto simp: take_Cons')
  have r: "rb (NewSession25 []) = \<lparr>rb_buf = [], rb_seq = 0, rb_size = 5\<rparr>"
    by (simp add: NewSession25_def NewReorderBuffer_def session16.defs session25.defs)
  have "\<forall>j < 2. chunk_at 0 demo_chunk j" using demo_chunk_at by blast
  moreover have "set [1, 0] = {..<2 :: nat}" by (auto simp: less_2_cases_iff)
  moreover have "[0..<2] = [0, 1 :: nat]" by (simp add: upt_conv_Cons)
  ultimately show ?thesis
    using tutk_reorder [OF _ _ r, of 2 demo_chunk "[1, 0]" 0] k
    by (simp del: feedChunks.simps inOrder.simps)
qed

text \<open>
  A chunk that comes a second time waits for its number to come round again. When the buffer is
  full of such chunks, \<open>Pop\<close> hands out one of them and expects the number behind it.
\<close>

lemma rb_pop_full:
  assumes "0 < rb_size r" "rb_size r \<le> length (rb_buf r)"
  shows "\<exists>q d. map_of (rb_buf r) q = Some d \<and>
    rb_pop r = Some (Some d, r\<lparr>rb_buf := AList.delete q (rb_buf r), rb_seq := q + 1\<rparr>)"
  using assms(1)
proof (cases rule: rb_pop_ends)
  case 1
  with assms(2) show ?thesis by simp
qed blast

end
