(* ===== verification/TutkMedia.thy ===== *)
theory TutkMedia
  imports TutkSession
begin

section \<open>TUTK sessions: frames and commands\<close>

text \<open>
  What \<open>session16.go\<close> promises: a frame is only put together from the chunks of one frame, all of them
  and in order; a frame whose chunks come in order is delivered; a command and a frame that a session
  sends are read back by a session of the other side. The session of newer cameras hands out commands
  that still lie in the worker's buffer.
\<close>

subsection \<open>Frames in chunks\<close>

definition frameSeq :: "bytes \<Rightarrow> u16" where "frameSeq c = get_le16 (drop 4 c)"
definition chunkSeq :: "bytes \<Rightarrow> u16" where "chunkSeq c = get_le16 (drop 12 c)"
definition payloadSize :: "bytes \<Rightarrow> nat" where "payloadSize c = unat (get_le32 (drop 8 c))"
definition frameSize :: "bytes \<Rightarrow> nat" where "frameSize c = unat (get_le16 (drop 14 c)) + payloadSize c"

definition chunk_data :: "bytes list \<Rightarrow> bytes" where
  "chunk_data cs = concat (map (drop 24) cs)"

text \<open>The chunks 0, 1, and so on of a frame.\<close>

definition is_run :: "u16 \<Rightarrow> bytes list \<Rightarrow> bool" where
  "is_run f cs \<longleftrightarrow> (\<forall>i < length cs. chunkSeq (cs ! i) = of_nat i \<and> frameSeq (cs ! i) = f)"

fun runMedia16 :: "bytes list \<Rightarrow> session16 \<Rightarrow> session16 option" where
  "runMedia16 [] s = Some s"
| "runMedia16 (c # cs) s = (case mediaChunk16 c s of None \<Rightarrow> None | Some (_, t) \<Rightarrow> runMedia16 cs t)"

lemma chunk_data_simps [simp]:
  "chunk_data [] = []" "chunk_data (c # cs) = drop 24 c @ chunk_data cs" "chunk_data (cs @ ds) = chunk_data cs @ chunk_data ds"
  by (simp_all add: chunk_data_def)

lemma runMedia16_append:
  "runMedia16 (cs @ ds) s = (case runMedia16 cs s of None \<Rightarrow> None | Some t \<Rightarrow> runMedia16 ds t)"
  by (induction cs arbitrary: s) (auto split: option.split)

lemma is_run_Nil [simp]: "is_run f []"
  by (simp add: is_run_def)

lemma is_run_snoc: "is_run f (cs @ [c]) \<longleftrightarrow> is_run f cs \<and> chunkSeq c = of_nat (length cs) \<and> frameSeq c = f"
  by (auto simp: is_run_def nth_append less_Suc_eq)

text \<open>What a session has of the frame that it is waiting for.\<close>

definition media_inv :: "bytes list \<Rightarrow> session16 \<Rightarrow> bool" where
  "media_inv hist s \<longleftrightarrow> waitCSeq s \<noteq> 0 \<longrightarrow>
     (\<exists>pre run. hist = pre @ run \<and> run \<noteq> [] \<and> is_run (waitFSeq s) run \<and> length run = unat (waitCSeq s) \<and>
        waitData s = chunk_data run \<and> waitSize s = frameSize (hd run))"

text \<open>The three ways in which a chunk is taken.\<close>

lemma mediaChunk16_cases:
  assumes "mediaChunk16 c s = Some (res, t)"
  obtains (lost) "res = MsgMediaLost" "chunkSeq c \<noteq> 0" "t = s\<lparr>waitCSeq := 0\<rparr>"
  | (part) s1 where "res = MsgMediaChunk" "s1 = (if chunkSeq c = 0 then s\<lparr>waitFSeq := frameSeq c, waitCSeq := 0, waitData := [],
        waitSize := frameSize c\<rparr> else s)" "chunkSeq c = waitCSeq s1" "frameSeq c = waitFSeq s1"
      "t = s1\<lparr>waitData := waitData s1 @ drop 24 c, waitCSeq := waitCSeq s1 + 1\<rparr>"
      "length (waitData s1 @ drop 24 c) < waitSize s1"
  | (whole) s1 d where "s1 = (if chunkSeq c = 0 then s\<lparr>waitFSeq := frameSeq c, waitCSeq := 0, waitData := [],
        waitSize := frameSize c\<rparr> else s)" "chunkSeq c = waitCSeq s1" "frameSeq c = waitFSeq s1" "d = waitData s1 @ drop 24 c"
      "waitSize s1 \<le> length d" "payloadSize c \<le> length d"
      "(res, t) = pushPkt (drop (payloadSize c) d, take (payloadSize c) d) (s1\<lparr>waitData := d, waitCSeq := 0\<rparr>)"
proof (cases "chunkSeq c \<noteq> 0 \<and> (frameSeq c \<noteq> waitFSeq s \<or> chunkSeq c \<noteq> waitCSeq s)")
  case True
  with assms lost show ?thesis by (simp add: mediaChunk16_def Let_def chunkSeq_def frameSeq_def split: if_splits)
next
  case False
  define s1 where "s1 = (if chunkSeq c = 0 then s\<lparr>waitFSeq := frameSeq c, waitCSeq := 0, waitData := [],
      waitSize := frameSize c\<rparr> else s)"
  define d where "d = waitData s1 @ drop 24 c"
  have q: "chunkSeq c = waitCSeq s1" "frameSeq c = waitFSeq s1" using False by (auto simp: s1_def)
  have "mediaChunk16 c s = (if length c < 24 then None
     else if length d < waitSize s1 then Some (MsgMediaChunk, s1\<lparr>waitData := d, waitCSeq := waitCSeq s1 + 1\<rparr>)
     else if length d < payloadSize c then None
     else Some (pushPkt (drop (payloadSize c) d, take (payloadSize c) d) (s1\<lparr>waitData := d, waitCSeq := 0\<rparr>)))"
    if "mediaChunk16 c s \<noteq> None"
    using False that unfolding s1_def d_def mediaChunk16_def Let_def chunkSeq_def frameSeq_def payloadSize_def frameSize_def
    by (auto split: if_splits)
  with assms have "(if length d < waitSize s1 then (MsgMediaChunk, s1\<lparr>waitData := d, waitCSeq := waitCSeq s1 + 1\<rparr>)
     else pushPkt (drop (payloadSize c) d, take (payloadSize c) d) (s1\<lparr>waitData := d, waitCSeq := 0\<rparr>)) = (res, t) \<and>
     (length d < waitSize s1 \<or> payloadSize c \<le> length d)"
    by (auto split: if_splits)
  then show ?thesis using part [OF _ s1_def q] whole [OF s1_def q d_def] d_def by (auto split: if_splits)
qed

lemma pushPkt_keeps: "(res, t) = pushPkt p s \<Longrightarrow> waitCSeq t = waitCSeq (s :: session16)"
  by (auto simp: pushPkt_def split: if_splits)

text \<open>The run of a session after a further chunk, and what a chunk that ends a frame delivers.\<close>

lemma continued_run:
  assumes "media_inv hist s" "s1 = (if chunkSeq c = 0 then s\<lparr>waitFSeq := frameSeq c, waitCSeq := 0, waitData := [],
      waitSize := frameSize c\<rparr> else s)" "chunkSeq c = waitCSeq s1" "frameSeq c = waitFSeq s1"
  shows "\<exists>pre run. hist @ [c] = pre @ run \<and> run \<noteq> [] \<and> is_run (frameSeq c) run \<and> length run = unat (waitCSeq s1) + 1 \<and>
    waitData s1 @ drop 24 c = chunk_data run \<and> waitSize s1 = frameSize (hd run)"
proof (cases "chunkSeq c = 0")
  case True
  then show ?thesis using assms(2)
    by (intro exI [of _ hist] exI [of _ "[c]"]) (simp add: is_run_def)
next
  case False
  with assms have s: "s1 = s" "waitCSeq s \<noteq> 0" "chunkSeq c = waitCSeq s" "frameSeq c = waitFSeq s" by auto
  with assms(1) obtain pre run where r: "hist = pre @ run" "run \<noteq> []" "is_run (waitFSeq s) run"
      "length run = unat (waitCSeq s)" "waitData s = chunk_data run" "waitSize s = frameSize (hd run)"
    by (auto simp: media_inv_def)
  show ?thesis
    by (intro exI [of _ pre] exI [of _ "run @ [c]"]) (use r s in \<open>simp add: is_run_snoc\<close>)
qed

lemma media_inv_step:
  assumes "media_inv hist s" "mediaChunk16 c s = Some (res, t)"
  shows "media_inv (hist @ [c]) t"
  using assms(2)
proof (cases rule: mediaChunk16_cases)
  case lost
  then show ?thesis by (simp add: media_inv_def)
next
  case (part s1)
  from continued_run [OF assms(1) part(2-4)] obtain pre run where r: "hist @ [c] = pre @ run" "run \<noteq> []"
      "is_run (frameSeq c) run" "length run = unat (waitCSeq s1) + 1" "waitData s1 @ drop 24 c = chunk_data run"
      "waitSize s1 = frameSize (hd run)" by blast
  have t: "waitCSeq t = waitCSeq s1 + 1" "waitFSeq t = frameSeq c" "waitData t = chunk_data run" "waitSize t = frameSize (hd run)"
    using part(4,5) r(5,6) by simp_all
  have "unat (waitCSeq s1 + 1) = unat (waitCSeq s1) + 1" if "waitCSeq s1 + 1 \<noteq> 0"
    using that by (metis add.commute unatSuc Suc_eq_plus1)
  with r(1-4) t show ?thesis unfolding media_inv_def by metis
next
  case (whole s1 d)
  from pushPkt_keeps [OF whole(7)] show ?thesis by (simp add: media_inv_def)
qed

lemma media_inv_run:
  "media_inv hist s \<Longrightarrow> runMedia16 cs s = Some t \<Longrightarrow> media_inv (hist @ cs) t"
proof (induction cs arbitrary: hist s)
  case (Cons c cs)
  then show ?case using media_inv_step [of hist s c] Cons.IH [of "hist @ [c]"]
    by (auto split: option.splits)
qed simp

text \<open>A run whose last chunk completes the frame is delivered, from any state.\<close>

lemma run_delivered_part:
  assumes "is_run f run" "length run < 65536" "\<forall>c \<in> set run. 24 \<le> length c" "run \<noteq> []"
    "length (chunk_data run) < frameSize (hd run)"
  shows "\<exists>t. runMedia16 run s = Some t \<and> waitCSeq t = of_nat (length run) \<and> waitFSeq t = f \<and>
    waitData t = chunk_data run \<and> waitSize t = frameSize (hd run) \<and> rawPkt t = rawPkt s"
  using assms
proof (induction run rule: rev_induct)
  case (snoc c run)
  have c: "24 \<le> length c" "chunkSeq c = of_nat (length run)" "frameSeq c = f" "is_run f run"
    using snoc.prems(1,3) by (simp_all add: is_run_snoc)
  note m = mediaChunk16_def Let_def chunkSeq_def [symmetric] frameSeq_def [symmetric] payloadSize_def [symmetric] frameSize_def [symmetric]
  show ?case
  proof (cases "run = []")
    case True
    then show ?thesis using c snoc.prems(5)
      by (simp add: mediaChunk16_def Let_def chunkSeq_def frameSeq_def frameSize_def payloadSize_def)
  next
    case False
    then have h: "hd (run @ [c]) = hd run" by simp
    have "length (chunk_data run) < frameSize (hd run)" using snoc.prems(5) h by simp
    with snoc.IH snoc.prems(2,3) False c(4) obtain t where t: "runMedia16 run s = Some t" "waitCSeq t = of_nat (length run)" "waitFSeq t = f"
        "waitData t = chunk_data run" "waitSize t = frameSize (hd run)" "rawPkt t = rawPkt s"
      by auto
    have "(of_nat (length run) :: u16) \<noteq> 0"
      using False snoc.prems(2) by (simp add: word_of_nat_eq_0_iff nat_dvd_not_less)
    then have "mediaChunk16 c t = Some (MsgMediaChunk, t\<lparr>waitData := waitData t @ drop 24 c, waitCSeq := waitCSeq t + 1\<rparr>)"
      using c t snoc.prems(5) h
      by (simp add: mediaChunk16_def Let_def chunkSeq_def [symmetric] frameSeq_def [symmetric])
    then show ?thesis using t h by (simp add: runMedia16_append)
  qed
qed simp

lemma run_delivered:
  assumes "is_run f (run @ [c])" "length run < 65536" "\<forall>x \<in> set (run @ [c]). 24 \<le> length x"
    "run \<noteq> [] \<longrightarrow> length (chunk_data run) < frameSize (hd run)" "frameSize (hd (run @ [c])) \<le> length (chunk_data (run @ [c]))"
    "payloadSize c \<le> length (chunk_data (run @ [c]))" "length (rawPkt s) < 100"
  shows "\<exists>t. runMedia16 (run @ [c]) s = Some t \<and>
    rawPkt t = rawPkt s @ [(drop (payloadSize c) (chunk_data (run @ [c])), take (payloadSize c) (chunk_data (run @ [c])))]"
proof (cases "run = []")
  case True
  then show ?thesis using assms
    by (simp add: is_run_def mediaChunk16_def Let_def chunkSeq_def frameSeq_def frameSize_def payloadSize_def pushPkt_def)
next
  case False
  from assms(1) have c: "is_run f run" "chunkSeq c = of_nat (length run)" "frameSeq c = f" by (simp_all add: is_run_snoc)
  from run_delivered_part [OF c(1) assms(2) _ False, of s] assms(3,4) False obtain t where
    t: "runMedia16 run s = Some t" "waitCSeq t = of_nat (length run)" "waitFSeq t = f"
      "waitData t = chunk_data run" "waitSize t = frameSize (hd run)" "rawPkt t = rawPkt s" by auto
  have n: "(of_nat (length run) :: u16) \<noteq> 0"
    using False assms(2) by (simp add: word_of_nat_eq_0_iff nat_dvd_not_less)
  have "mediaChunk16 c t = Some (pushPkt (drop (payloadSize c) (chunk_data (run @ [c])), take (payloadSize c) (chunk_data (run @ [c])))
      (t\<lparr>waitData := chunk_data (run @ [c]), waitCSeq := 0\<rparr>))"
    using n c t assms(3,5,6) False
    by (simp add: mediaChunk16_def Let_def chunkSeq_def [symmetric] frameSeq_def [symmetric] payloadSize_def [symmetric])
  then show ?thesis using t assms(7) by (simp add: runMedia16_append pushPkt_def)
qed

text \<open>
  Claim C27. Frames in chunks. Whatever chunks have come, a frame that a session delivers is the data
  of a run of chunks that came one after the other, numbered 0, 1, and so on with the number of that
  frame, up to the chunk that completes it; nothing of another frame gets in. And a run of chunks in
  order is delivered from any state of the session, as long as the channel has room: payload and
  header, cut where the last chunk says.
\<close>

theorem tutk_media_frames:
  assumes "waitCSeq s = 0" "runMedia16 cs s = Some t" "mediaChunk16 c t = Some (MsgMediaFrame, u)"
    "is_run f (run @ [l])" "length run < 65536" "\<forall>x \<in> set (run @ [l]). 24 \<le> length x"
    "run \<noteq> [] \<longrightarrow> length (chunk_data run) < frameSize (hd run)" "frameSize (hd (run @ [l])) \<le> length (chunk_data (run @ [l]))"
    "payloadSize l \<le> length (chunk_data (run @ [l]))" "length (rawPkt v) < 100"
  shows "(\<exists>pre r. cs @ [c] = pre @ r \<and> r \<noteq> [] \<and> is_run (frameSeq c) r \<and> frameSize (hd r) \<le> length (chunk_data r) \<and>
      rawPkt u = rawPkt t @ [(drop (payloadSize c) (chunk_data r), take (payloadSize c) (chunk_data r))]) \<and>
    (\<exists>w. runMedia16 (run @ [l]) v = Some w \<and>
      rawPkt w = rawPkt v @ [(drop (payloadSize l) (chunk_data (run @ [l])), take (payloadSize l) (chunk_data (run @ [l])))])"
proof
  have "media_inv [] s" using assms(1) by (simp add: media_inv_def)
  from media_inv_run [OF this assms(2)] have i: "media_inv cs t" by simp
  show "\<exists>pre r. cs @ [c] = pre @ r \<and> r \<noteq> [] \<and> is_run (frameSeq c) r \<and> frameSize (hd r) \<le> length (chunk_data r) \<and>
      rawPkt u = rawPkt t @ [(drop (payloadSize c) (chunk_data r), take (payloadSize c) (chunk_data r))]"
    using assms(3)
  proof (cases rule: mediaChunk16_cases)
    case (whole s1 d)
    from continued_run [OF i whole(1-3)] obtain pre r where
      r: "cs @ [c] = pre @ r" "r \<noteq> []" "is_run (frameSeq c) r" "d = chunk_data r" "waitSize s1 = frameSize (hd r)"
      using whole(4) by blast
    have "rawPkt s1 = rawPkt t" using whole(1) by simp
    then have "rawPkt u = rawPkt t @ [(drop (payloadSize c) d, take (payloadSize c) d)]"
      using whole(7) by (auto simp: pushPkt_def split: if_splits)
    with r whole(5) show ?thesis by metis
  qed simp_all
next
  show "\<exists>w. runMedia16 (run @ [l]) v = Some w \<and>
      rawPkt w = rawPkt v @ [(drop (payloadSize l) (chunk_data (run @ [l])), take (payloadSize l) (chunk_data (run @ [l])))]"
    by (rule run_delivered [OF assms(4-10)])
qed

definition demo_part :: "nat \<Rightarrow> bytes \<Rightarrow> bytes" where
  "demo_part i d = [1, 3, 0x0b, 0] @ le16 9 @ [0, 0] @ le32 3 @ le16 (of_nat i) @ le16 2 @ replicate 8 0 @ d"

lemma demo_part_fields [simp]:
  "chunkSeq (demo_part i d) = of_nat i" "frameSeq (demo_part i d) = 9" "payloadSize (demo_part i d) = 3"
  "frameSize (demo_part i d) = 5" "drop 24 (demo_part i d) = d" "24 \<le> length (demo_part i d)"
  by (simp_all add: demo_part_def chunkSeq_def frameSeq_def payloadSize_def frameSize_def)

theorem tutk_media_frames_witness:
  "\<exists>w. runMedia16 [demo_part 0 [1, 2], demo_part 1 [3, 4, 5]] (NewSession16 []) = Some w \<and>
     rawPkt w = [([4, 5], [1, 2, 3])]"
proof -
  let ?s = "NewSession16 []"
  have s: "waitCSeq ?s = 0" "rawPkt ?s = []" by (simp_all add: NewSession16_def)
  have m: "mediaChunk16 (demo_part 0 [1, 2, 3, 4, 5]) ?s = Some (MsgMediaFrame, ?s\<lparr>rawPkt := [([4, 5], [1, 2, 3])],
      waitFSeq := 9, waitSize := 5, waitData := [1, 2, 3, 4, 5]\<rparr>)"
    using demo_part_fields [of 0 "[1, 2, 3, 4, 5]"]
    by (simp add: mediaChunk16_def Let_def pushPkt_def s chunkSeq_def frameSeq_def payloadSize_def frameSize_def del: demo_part_fields)
  have r: "is_run 9 ([demo_part 0 [1, 2]] @ [demo_part 1 [3, 4, 5]])"
    by (simp add: is_run_def less_Suc_eq)
  show ?thesis
    using tutk_media_frames [OF s(1) _ m r, of "[]" ?s] s by simp
qed

subsection \<open>Commands and frames of the other side\<close>

lemma go_copy_skip: "length a \<le> off \<Longrightarrow> go_copy (a @ b) off src = a @ go_copy b (off - length a) src"
  by (simp add: go_copy_def Let_def add.commute)

lemma go_copy_front: "off + length src \<le> length a \<Longrightarrow> go_copy (a @ b) off src = go_copy a off src @ b"
  by (simp add: go_copy_def Let_def)

lemma go_copy_all: "length src = length a \<Longrightarrow> go_copy (a @ b) 0 src = src @ b"
  by (simp add: go_copy_def Let_def)

lemma length_Msg: "28 \<le> unat sz \<Longrightarrow> length (Msg sid sz) = unat sz"
  by (simp add: Msg_def tutk_magic_def)

text \<open>A message is a header of 28 bytes, and zeros.\<close>

lemma drop_go_copy: "off + length src \<le> n \<Longrightarrow> off \<le> length msg \<Longrightarrow> drop n (go_copy msg off src) = drop n msg"
  by (auto simp: go_copy_def Let_def min_def)

lemma Msg_split:
  assumes "length sid = 16" "28 \<le> unat sz"
  obtains H where "Msg sid sz = H @ replicate (unat sz - 28) 0" "length H = 28"
proof -
  let ?z = "replicate (unat sz) (0 :: u8)"
  have "drop 28 (Msg sid sz) = drop 28 ?z"
    using assms by (simp add: Msg_def tutk_magic_def drop_go_copy drop_update_cancel)
  then have "Msg sid sz = take 28 (Msg sid sz) @ replicate (unat sz - 28) 0"
    by (metis append_take_drop_id drop_replicate)
  with that show ?thesis using length_Msg [OF assms(2), of sid] assms(2) by simp
qed

lemma SendIOCtrl16_bytes:
  assumes "length (sid16 s) = 16" "length data + 56 < 65536"
  obtains H c where "SendIOCtrl16 now t data s = Some (H @ [0x00, 0x70] @ c @ le32 t @ data, s\<lparr>seqSendCmd1 := seqSendCmd1 s + 1\<rparr>)"
    "length H = 28" "length c = 22"
proof -
  let ?n = "of_nat (length data) :: u16"
  have n: "unat (56 + ?n) = length data + 56" using assms(2) by (simp add: unat_word_ariths unat_of_nat)
  then have "28 \<le> unat (56 + ?n)" by linarith
  from Msg_split [OF assms(1) this] obtain H where
    "Msg (sid16 s) (56 + ?n) = H @ replicate (unat (56 + ?n) - 28) 0" and lH: "length H = 28" by blast
  then have H: "Msg (sid16 s) (56 + ?n) = H @ replicate (length data + 28) 0" unfolding n by simp
  have "replicate 28 (0 :: u8) = [0, 0, 0, 0] @ [0, 0] @ replicate 10 0 @ [0, 0] @ [0, 0] @ [0, 0, 0, 0] @ [0, 0, 0, 0]"
    by (simp add: numeral_eq_Suc)
  then have r: "replicate (length data + 28) (0 :: u8) =
      [0, 0, 0, 0] @ [0, 0] @ replicate 10 0 @ [0, 0] @ [0, 0] @ [0, 0, 0, 0] @ [0, 0, 0, 0] @ replicate (length data) 0"
    using replicate_add [of 28 "length data" "0 :: u8"] by (simp only: add.commute [of "length data"] append_assoc)
  define c where "c = [0x0b, 0x00] @ le16 (seqSendCmd1 s + 1) @ replicate 10 0 @ le16 (4 + ?n) @ [0, 0] @ le32 (ucast now :: u32)"
  let ?z10 = "replicate 10 0 :: bytes" and ?zn = "replicate (length data) 0 :: bytes" and ?q = "le16 (seqSendCmd1 s + 1)"
  have 1: "putc 0 [0x00, 0x70, 0x0b, 0x00] (H @ replicate (length data + 28) 0) =
      H @ [0x00, 0x70, 0x0b, 0x00] @ [0, 0] @ ?z10 @ [0, 0] @ [0, 0] @ [0, 0, 0, 0] @ [0, 0, 0, 0] @ ?zn"
    unfolding r by (rule go_copy_fit) (simp_all add: lH)
  have 2: "putc 4 ?q \<dots> = (H @ [0x00, 0x70, 0x0b, 0x00]) @ ?q @ ?z10 @ [0, 0] @ [0, 0] @ [0, 0, 0, 0] @ [0, 0, 0, 0] @ ?zn"
    using go_copy_fit [of "H @ [0x00, 0x70, 0x0b, 0x00]" 32 "[0, 0]" ?q] lH by simp
  have 3: "putc 16 (le16 (4 + ?n)) \<dots> =
      (H @ [0x00, 0x70, 0x0b, 0x00] @ ?q @ ?z10) @ le16 (4 + ?n) @ [0, 0] @ [0, 0, 0, 0] @ [0, 0, 0, 0] @ ?zn"
    using go_copy_fit [of "H @ [0x00, 0x70, 0x0b, 0x00] @ ?q @ ?z10" 44 "[0, 0]" "le16 (4 + ?n)"] lH by simp
  have 4: "putc 20 (le32 (ucast now)) \<dots> =
      (H @ [0x00, 0x70, 0x0b, 0x00] @ ?q @ ?z10 @ le16 (4 + ?n) @ [0, 0]) @ le32 (ucast now) @ [0, 0, 0, 0] @ ?zn"
    using go_copy_fit [of "H @ [0x00, 0x70, 0x0b, 0x00] @ ?q @ ?z10 @ le16 (4 + ?n) @ [0, 0]" 48 "[0, 0, 0, 0]" "le32 (ucast now)"] lH by simp
  have 5: "putc 24 (le32 t) \<dots> = (H @ [0x00, 0x70] @ c) @ le32 t @ ?zn"
    using go_copy_fit [of "H @ [0x00, 0x70] @ c" 52 "[0, 0, 0, 0]" "le32 t" ?zn] lH by (simp add: c_def)
  have 6: "putc 28 data \<dots> = H @ [0x00, 0x70] @ c @ le32 t @ data"
    using go_copy_fit [of "H @ [0x00, 0x70] @ c @ le32 t" 56 ?zn data "[]"] lH by (simp add: c_def)
  have "28 + 24 + (4 + ?n) = 56 + ?n" by simp
  then have "SendIOCtrl16 now t data s = Some (H @ [0x00, 0x70] @ c @ le32 t @ data, s\<lparr>seqSendCmd1 := seqSendCmd1 s + 1\<rparr>)"
    using n unfolding SendIOCtrl16_def Let_def by (simp only: H 1 2 3 4 5 6) simp
  with that lH show ?thesis by (simp add: c_def)
qed

lemma SendFrameData16_bytes:
  assumes "length (sid16 s) = 16" "length data + 92 < 65536" "length info \<le> 32"
  obtains H c e where "SendFrameData16 now info data s =
      Some (H @ c @ data @ [0x4F, 0x44, 0x55, 0x41, 0x20, 0x00, 0x00, 0x00] @ info @ replicate (32 - length info) 0,
        s\<lparr>seqSendAud := seqSendAud s + 1\<rparr>)"
    "length H = 28" "c = [0x01, 0x03, 0x0b, 0x00] @ le16 (seqSendAud s) @ [0, 0] @ le16 (of_nat (length data)) @ [0, 0] @ [0, 0] @
       [0x28, 0] @ e" "length e = 8"
proof -
  let ?n = "of_nat (length data) :: u16" and ?q = "le16 (seqSendAud s)" and ?a = "le16 (of_nat (length data))"
  let ?zn = "replicate (length data) 0 :: bytes" and ?z32 = "replicate 32 0 :: bytes" and ?z8 = "replicate 8 0 :: bytes"
  let ?o = "[0x4F, 0x44, 0x55, 0x41, 0x20, 0x00, 0x00, 0x00] :: bytes" and ?c0 = "[0x01, 0x03, 0x0b, 0x00] :: bytes"
  have u: "unat ?n = length data" "unat (92 + ?n) = length data + 92"
    using assms(2) by (simp_all add: unat_word_ariths unat_of_nat)
  then have "28 \<le> unat (92 + ?n)" by linarith
  from Msg_split [OF assms(1) this] obtain H where
    "Msg (sid16 s) (92 + ?n) = H @ replicate (unat (92 + ?n) - 28) 0" and lH: "length H = 28" by blast
  then have H: "Msg (sid16 s) (92 + ?n) = H @ replicate (length data + 64) 0" unfolding u by simp
  have "replicate 24 (0 :: u8) = [0, 0, 0, 0] @ [0, 0] @ [0, 0] @ [0, 0] @ [0, 0] @ [0, 0] @ [0] @ [0] @ [0, 0] @ [0, 0] @ [0] @ [0, 0, 0]"
    by (simp add: numeral_eq_Suc)
  moreover have "replicate (length data + 64) (0 :: u8) = replicate 24 0 @ ?zn @ ?z8 @ ?z32"
    by (simp only: replicate_add [symmetric]) simp
  ultimately have r: "replicate (length data + 64) (0 :: u8) =
      [0, 0, 0, 0] @ [0, 0] @ [0, 0] @ [0, 0] @ [0, 0] @ [0, 0] @ [0] @ [0] @ [0, 0] @ [0, 0] @ [0] @ [0, 0, 0] @ ?zn @ ?z8 @ ?z32"
    by (simp only: append_assoc)
  let ?d = "le16 (?n + 8 + 32)" and ?t = "le16 (ucast now :: u16)" and ?r = "?zn @ ?z8 @ ?z32"
  let ?c2 = "?c0 @ ?q @ [0, 0] @ ?a @ [0, 0] @ [0, 0]"
  define e where "e = ?d @ ?t @ [1, 0, 0, 0]"
  define c where "c = ?c0 @ ?q @ [0, 0] @ ?a @ [0, 0] @ [0, 0] @ [0x28, 0] @ e"
  have lc: "length c = 24" by (simp add: c_def e_def)
  have z32: "?z32 = replicate (length info) 0 @ replicate (32 - length info) 0"
    using assms(3) by (simp add: replicate_add [symmetric])
  have 1: "putc 0 ?c0 (H @ replicate (length data + 64) 0) =
      H @ ?c0 @ [0, 0] @ [0, 0] @ [0, 0] @ [0, 0] @ [0, 0] @ [0] @ [0] @ [0, 0] @ [0, 0] @ [0] @ [0, 0, 0] @ ?r"
    unfolding r by (rule go_copy_fit) (simp_all add: lH)
  have 2: "putc 4 ?q \<dots> = (H @ ?c0) @ ?q @ [0, 0] @ [0, 0] @ [0, 0] @ [0, 0] @ [0] @ [0] @ [0, 0] @ [0, 0] @ [0] @ [0, 0, 0] @ ?r"
    using go_copy_fit [of "H @ ?c0" 32 "[0, 0]" ?q] lH by simp
  have 3: "putc 8 ?a \<dots> = (H @ ?c0 @ ?q @ [0, 0]) @ ?a @ [0, 0] @ [0, 0] @ [0] @ [0] @ [0, 0] @ [0, 0] @ [0] @ [0, 0, 0] @ ?r"
    using go_copy_fit [of "H @ ?c0 @ ?q @ [0, 0]" 36 "[0, 0]" ?a] lH by simp
  have 4: "putc 14 [0x28] \<dots> = (H @ ?c2) @ [0x28] @ [0] @ [0, 0] @ [0, 0] @ [0] @ [0, 0, 0] @ ?r"
    using go_copy_fit [of "H @ ?c2" 42 "[0]" "[0x28]"] lH by simp
  have 5: "putc 16 ?d \<dots> = (H @ ?c2 @ [0x28, 0]) @ ?d @ [0, 0] @ [0] @ [0, 0, 0] @ ?r"
    using go_copy_fit [of "H @ ?c2 @ [0x28, 0]" 44 "[0, 0]" ?d] lH by simp
  have 6: "putc 18 ?t \<dots> = (H @ ?c2 @ [0x28, 0] @ ?d) @ ?t @ [0] @ [0, 0, 0] @ ?r"
    using go_copy_fit [of "H @ ?c2 @ [0x28, 0] @ ?d" 46 "[0, 0]" ?t] lH by simp
  have 7: "putc 20 [1] \<dots> = (H @ c) @ ?zn @ ?z8 @ ?z32"
    using go_copy_fit [of "H @ ?c2 @ [0x28, 0] @ ?d @ ?t" 48 "[0]" "[1]"] lH by (simp add: c_def e_def)
  have 8: "putc 24 data \<dots> = (H @ c @ data) @ ?z8 @ ?z32"
    using go_copy_fit [of "H @ c" 52 ?zn data "?z8 @ ?z32"] lH lc by simp
  have 9: "putc (24 + unat ?n) ?o \<dots> = (H @ c @ data @ ?o) @ ?z32"
    using go_copy_fit [of "H @ c @ data" "52 + length data" ?z8 ?o ?z32] lH lc u by (simp add: add.assoc)
  have 10: "putc (24 + unat ?n + 8) info \<dots> = H @ c @ data @ ?o @ info @ replicate (32 - length info) 0"
    using go_copy_fit [of "H @ c @ data @ ?o" "60 + length data" "replicate (length info) 0" info "replicate (32 - length info) 0"] lH lc u
    unfolding z32 by (simp add: add.assoc)
  have sz: "28 + 24 + (?n + 8 + 32) = 92 + ?n" by simp
  have room: "(2 ^ 16 \<le> unat ?n + 92) = False" using u assms(2) by simp
  have "SendFrameData16 now info data s = Some (H @ c @ data @ ?o @ info @ replicate (32 - length info) 0,
      s\<lparr>seqSendAud := seqSendAud s + 1\<rparr>)"
    unfolding SendFrameData16_def Let_def by (simp only: room if_False sz H 1 2 3 4 5 6 7 8 9 10)
  then show ?thesis by (rule that [OF _ lH c_def]) (simp add: e_def)
qed

lemma command_read:
  assumes "8 \<le> length c" "length c = 22" "length (rawCmd v) < 10"
  shows "\<exists>w. SessionRead16 0 ([0x00, 0x70] @ c @ b) spare v = Some (MsgCommand, w) \<and> rawCmd w = rawCmd v @ [Copied b]"
proof -
  let ?cmd = "[0x00, 0x70] @ c @ b"
  have "length (Msg (sid16 v) 52) = 52" by (simp add: length_Msg)
  then obtain m where m: "msgAck0070 ?cmd spare v = Some m" "length m = 52"
    using assms(2) by (simp add: msgAck0070_def slice_cap_def)
  have "SessionWrite 0 m v = Some (v\<lparr>seqSendCh0 := seqSendCh0 v + 1, sent := sent v @ [put 6 (le16 (seqSendCh0 v)) m]\<rparr>)"
    using m(2) by (simp add: SessionWrite_def)
  then show ?thesis
    using m assms(2,3) by (simp add: SessionRead16_def write_then_def slice_from_def pushCmd_def)
qed

lemma frame_read:
  assumes "length (sid16 s) = 16" "length pay + 92 < 65536" "length info \<le> 32" "length (rawPkt v) < 100"
  shows "\<exists>msg s' w. SendFrameData16 now info pay s = Some (msg, s') \<and> SessionRead16 0 (drop 28 msg) spare v = Some (MsgMediaFrame, w) \<and>
      rawPkt w = rawPkt v @ [([0x4F, 0x44, 0x55, 0x41, 0x20, 0x00, 0x00, 0x00] @ info @ replicate (32 - length info) 0, pay)]"
proof -
  let ?f = "[0x4F, 0x44, 0x55, 0x41, 0x20, 0x00, 0x00, 0x00] @ info @ replicate (32 - length info) 0"
  from SendFrameData16_bytes [OF assms(1-3), of now] obtain H c e where
    m: "SendFrameData16 now info pay s = Some (H @ c @ pay @ ?f, s\<lparr>seqSendAud := seqSendAud s + 1\<rparr>)" "length H = 28"
      "c = [0x01, 0x03, 0x0b, 0x00] @ le16 (seqSendAud s) @ [0, 0] @ le16 (of_nat (length pay)) @ [0, 0] @ [0, 0] @ [0x28, 0] @ e"
      "length e = 8" by blast
  let ?cmd = "c @ pay @ ?f"
  have u: "unat (of_nat (length pay) :: u16) = length pay" using assms(2) by (simp add: unat_of_nat)
  then have "unat (ucast (of_nat (length pay) :: u16) :: u32) = length pay"
    using assms(2) by (simp add: unsigned_ucast_eq take_bit_nat_eq_self)
  moreover have "\<not> bit a (16 + n)" "\<not> bit a (24 + n)" for a :: u16 and n
    using bit_imp_le_length [of a "16 + n"] bit_imp_le_length [of a "24 + n"] by auto
  then have "le16 a @ [0, 0] = le32 (ucast a)" for a :: u16
    by (auto simp: le16_def be16_def le32_def be32_def bit_simps intro!: bit_word_eqI)
  then have "get_le32 ((le16 a @ [0, 0]) @ r) = ucast a" for a :: u16 and r
    using get_le32_le32 [of "ucast a" r] by simp
  ultimately have z: "unat (get_le32 (le16 (of_nat (length pay)) @ 0 # 0 # r)) = length pay" for r by simp
  have "chunkSeq ?cmd = 0" "payloadSize ?cmd = length pay" "frameSize ?cmd = length pay + 40" "24 \<le> length ?cmd" "drop 24 ?cmd = pay @ ?f"
    using m(4) z by (simp_all add: m(3) chunkSeq_def payloadSize_def frameSize_def)
  moreover have "length ?f = 40" using assms(3) by simp
  ultimately have r: "mediaChunk16 ?cmd v = Some (pushPkt (?f, pay) (v\<lparr>waitFSeq := frameSeq ?cmd, waitSize := length pay + 40,
      waitData := pay @ ?f, waitCSeq := 0\<rparr>))"
    unfolding mediaChunk16_def Let_def chunkSeq_def [symmetric] frameSeq_def [symmetric] payloadSize_def [symmetric] frameSize_def [symmetric]
    by (simp del: append_assoc)
  have "?cmd \<noteq> []" "?cmd ! 0 = 0x01" "?cmd ! 1 = 0x03" "\<not> length ?cmd < 2" by (simp_all add: m(3))
  then have "SessionRead16 0 ?cmd spare v = mediaChunk16 ?cmd v" by (simp add: SessionRead16_def)
  then have "SessionRead16 0 (drop 28 (H @ ?cmd)) spare v = Some (MsgMediaFrame,
      v\<lparr>waitFSeq := frameSeq ?cmd, waitSize := length pay + 40, waitData := pay @ ?f, waitCSeq := 0, rawPkt := rawPkt v @ [(?f, pay)]\<rparr>)"
    unfolding r using m(2) r assms(4) by (simp add: pushPkt_def del: append_assoc)
  with m(1) show ?thesis by simp
qed

lemma command25_read:
  assumes "SessionRead25 now 0 cmd spare x = Some (Some (res, y))" "cmd ! 0 = 0x00" "cmd ! 1 = 0x70" "rawCmd x = []" "32 \<le> length cmd"
    "28 + length cmd \<le> length buf"
  shows "RecvIOCtrl buf y = Some (Some (get_le32 (drop 56 buf), take (length cmd - 32) (drop 60 buf)), y\<lparr>rawCmd := []\<rparr>)"
proof -
  obtain s1 where s1: "writeCounters now x = Some s1" "y = pushCmd (Shared 56 (28 + length cmd)) (s1\<lparr>seqRecvCmd2 := get_le16 (drop 2 cmd)\<rparr>)"
    using assms(1-3,5) by (auto simp: SessionRead25_def Let_def split: option.splits if_splits)
  have "rawCmd s1 = []"
    using s1(1) assms(4) by (auto simp: writeCounters_def msgAckCounters_def SessionWrite_def Let_def split: if_splits)
  then have y: "rawCmd y = [Shared 56 (28 + length cmd)]" by (simp add: s1(2) pushCmd_def)
  let ?b = "take (length cmd - 28) (drop 56 buf)"
  have "get_le32 ?b = get_le32 (drop 56 buf)"
  proof -
    have "4 \<le> length ?b" "4 \<le> length (drop 56 buf)" using assms(5,6) by simp_all
    moreover have "take 4 ?b = take 4 (drop 56 buf)" using assms(5) by (simp add: min_absorb1)
    ultimately show ?thesis using get_le32_take [of ?b] get_le32_take [of "drop 56 buf"] by simp
  qed
  moreover have "drop 4 ?b = take (length cmd - 32) (drop 60 buf)" by (simp add: drop_take)
  ultimately show ?thesis using y assms(5,6) by (simp add: RecvIOCtrl_def cmd_bytes_def Let_def)
qed



end
