(* ===== verification/TutkConn.thy ===== *)
theory TutkConn
  imports TutkReorder TutkMedia
begin

section \<open>TUTK connections\<close>

text \<open>
  Models \<open>pkg/tutk/conn.go\<close> and \<open>session0.go\<close>: the handshake of \<open>Dial\<close>, the worker that reads datagrams and
  hands them to the session, and the loop of \<open>WriteCommand\<close>. The network is the list of datagrams
  that come in, each with its sender. \<open>writeAndWait\<close> repeats its requests from a timer until an
  answer fits: the model lists the requests of an exchange once. When no datagram is left, the
  deadline has passed.
\<close>

subsection \<open>Reading and writing\<close>

type_synonym ip = bytes

record udp_datagram =
  from_ip :: ip
  from_port :: nat
  content :: bytes

record conn_addr =
  c_ip :: ip
  c_port :: nat

text \<open>
  \<open>Read\<close>: the datagrams of other senders and those below 16 bytes are skipped; the port follows the
  sender; the bytes are unscrambled. The result is the message, the address and the rest.
\<close>

fun connRead :: "conn_addr \<Rightarrow> udp_datagram list \<Rightarrow> (bytes \<times> conn_addr \<times> udp_datagram list) option" where
  "connRead a [] = None"
| "connRead a (d # ds) =
     (if from_ip d \<noteq> c_ip a \<or> length (content d) < 16 then connRead a ds
      else Some (ReverseTransCodePartial [] (content d), a\<lparr>c_port := from_port d\<rparr>, ds))"

text \<open>\<open>Write\<close>: what goes out, and to which address.\<close>

definition connWrite :: "conn_addr \<Rightarrow> bytes \<Rightarrow> conn_addr \<times> bytes" where
  "connWrite a b = (a, TransCodePartial [] b)"

lemma length_connRead: "connRead a ds = Some (m, a', ds') \<Longrightarrow> length ds' < length ds \<and> 16 \<le> length m \<and> c_ip a' = c_ip a"
  by (induction ds) (auto simp: ReverseTransCodePartial_def split: if_splits)

text \<open>\<open>writeAndWait\<close>: the first message that fits.\<close>

function waitFor :: "(bytes \<Rightarrow> bool) \<Rightarrow> conn_addr \<Rightarrow> udp_datagram list \<Rightarrow> (bytes \<times> conn_addr \<times> udp_datagram list) option" where
  "waitFor ok a ds =
     (case connRead a ds of
        None \<Rightarrow> None
      | Some (m, a', ds') \<Rightarrow> if ok m then Some (m, a', ds') else waitFor ok a' ds')"
  by pat_completeness auto
termination by (relation "measure (\<lambda>(ok, a, ds). length ds)") (auto dest: length_connRead)

declare waitFor.simps [simp del]

subsection \<open>The handshake\<close>

datatype connect_stage =
  StageBroadcast | StageDirect | StageGetPublicIP | StageGetRemoteIP | StageRemoteReq | StageRemoteAck | StageRemoteOK

definition sdkVersion :: bytes where "sdkVersion = [0x06, 0x00, 0x03, 0x03]"

definition stageBody :: "connect_stage \<Rightarrow> bytes \<Rightarrow> bytes" where
  "stageBody stage sid8 =
     (case stage of
        StageBroadcast \<Rightarrow> put 64 [1] (put 56 sid8 (put 52 sdkVersion (put 8 [0x01, 0x06, 0x21] (replicate 68 0))))
      | StageDirect \<Rightarrow> put 64 [2] (put 56 sid8 (put 52 sdkVersion (put 8 [0x01, 0x06, 0x21] (replicate 68 0))))
      | StageGetPublicIP \<Rightarrow> put 8 [0x07, 0x10, 0x18] (replicate 54 0)
      | StageGetRemoteIP \<Rightarrow> put 108 [2] (put 100 sid8 (put 8 [0x03, 0x02, 0x34] (replicate 112 0)))
      | StageRemoteReq \<Rightarrow> put 48 sdkVersion (put 36 sid8 (put 8 [0x01, 0x04, 0x33] (replicate 52 0)))
      | StageRemoteAck \<Rightarrow> put 36 sid8 (put 8 [0x02, 0x04, 0x33] (replicate 44 0))
      | StageRemoteOK \<Rightarrow> put 48 sdkVersion (put 36 sid8 (put 8 [0x04, 0x04, 0x33] (replicate 52 0))))"

definition ConnectByUID :: "connect_stage \<Rightarrow> bytes \<Rightarrow> bytes \<Rightarrow> bytes" where
  "ConnectByUID stage uid sid8 =
     (let b = stageBody stage sid8; b1 = (put 0 tutk_magic b)[3 := 0x02]
      in put 16 uid (put 4 (le16 (of_nat (length b) - 16)) b1))"

definition answers :: "bytes \<Rightarrow> bytes \<Rightarrow> bool" where
  "answers mark res \<longleftrightarrow> index_of res mark = Some 8"

datatype 'a dial_result = Dialed 'a | DialTimeout | DialPanic

text \<open>The requests that were sent, each with its address; the version; the address; the rest.\<close>

type_synonym exchange = "(conn_addr \<times> bytes) list"

definition connectDirect :: "bytes \<Rightarrow> bytes \<Rightarrow> conn_addr \<Rightarrow> udp_datagram list \<Rightarrow>
    (bytes \<times> conn_addr \<times> udp_datagram list \<times> exchange) dial_result" where
  "connectDirect uid sid a ds =
     (let req = ConnectByUID StageBroadcast uid sid in
      case waitFor (answers [0x02, 0x06, 0x12, 0x00]) a ds of
        None \<Rightarrow> DialTimeout
      | Some (res, a', ds') \<Rightarrow>
          let n = length res in
          Dialed ([res ! 2, res ! (n - 13), res ! (n - 14), res ! (n - 15), res ! (n - 16)], a', ds',
                  [connWrite a req, connWrite a' (ConnectByUID StageDirect uid sid)]))"

definition connectRemote :: "bytes \<Rightarrow> bytes \<Rightarrow> conn_addr \<Rightarrow> udp_datagram list \<Rightarrow>
    (bytes \<times> conn_addr \<times> udp_datagram list \<times> exchange) dial_result" where
  "connectRemote uid sid a ds =
     (case waitFor (answers [0x01, 0x03, 0x43]) a ds of
        None \<Rightarrow> DialTimeout
      | Some (res, _, ds1) \<Rightarrow>
          if length res < 44 then DialPanic
          else
            let a1 = \<lparr>c_ip = take 4 (drop 40 res), c_port = unat (get_be16 (drop 38 res))\<rparr> in
            (case waitFor (answers [0x04, 0x04, 0x33]) a1 ds1 of
               None \<Rightarrow> DialTimeout
             | Some (res2, a2, ds2) \<Rightarrow>
                 Dialed (if length res2 = 52 then [res2 ! 2, res2 ! 51, res2 ! 50, res2 ! 49, res2 ! 48] else [res2 ! 2], a2, ds2,
                   [connWrite a (ConnectByUID StageGetRemoteIP uid sid), connWrite a1 (ConnectByUID StageRemoteAck uid sid),
                    connWrite a2 (ConnectByUID StageRemoteOK uid sid)])))"

definition startAnswer :: "bytes \<Rightarrow> bool" where
  "startAnswer res \<longleftrightarrow> 84 \<le> length res \<and> res ! 28 = 0 \<and> (res ! 29 = 0x14 \<or> res ! 29 = 0x21)"

datatype tutk_session = S16 session16 | S25 session25

record tutk_conn =
  addr :: conn_addr
  ver :: bytes
  session :: tutk_session
  outbox :: exchange
  workbuf :: bytes
  acks :: nat
  ended :: bool

definition newSession :: "bytes \<Rightarrow> bytes \<Rightarrow> tutk_session" where
  "newSession v sid = (if 25 \<le> v ! 0 then S25 (NewSession25 sid) else S16 (NewSession16 sid))"

definition clientStarts :: "u64 \<Rightarrow> bytes \<Rightarrow> bytes \<Rightarrow> tutk_session \<Rightarrow> bytes list" where
  "clientStarts now username password s =
     map (\<lambda>i. case s of S16 x \<Rightarrow> ClientStart now i username password x | S25 x \<Rightarrow> ClientStart now i username password x) [0, 1]"

text \<open>\<open>Dial\<close> behind the resolution of the address; what is left is for the worker.\<close>

definition tutkDial :: "u64 \<Rightarrow> bytes \<Rightarrow> bytes \<Rightarrow> bytes \<Rightarrow> bytes \<Rightarrow> conn_addr \<Rightarrow> udp_datagram list \<Rightarrow>
    (tutk_conn \<times> udp_datagram list) dial_result" where
  "tutkDial now sid uid username password a ds =
     (case (if c_port a \<noteq> 10001 then connectDirect uid sid a ds else connectRemote uid sid a ds) of
        DialTimeout \<Rightarrow> DialTimeout
      | DialPanic \<Rightarrow> DialPanic
      | Dialed (v, a1, ds1, out) \<Rightarrow>
          let s = newSession v sid in
          (case waitFor startAnswer a1 ds1 of
             None \<Rightarrow> DialTimeout
           | Some (_, a2, ds2) \<Rightarrow>
               Dialed (\<lparr>addr = a2, ver = v, session = s,
                        outbox = out @ map (connWrite a1) (clientStarts now username password s),
                        workbuf = replicate 1200 0, acks = 0, ended = False\<rparr>, ds2)))"

subsection \<open>The worker\<close>

text \<open>The datagrams that the session wrote since its outbox was last emptied go out.\<close>

definition flushSent :: "conn_addr \<Rightarrow> tutk_session \<Rightarrow> tutk_session \<times> exchange" where
  "flushSent a s =
     (case s of
        S16 x \<Rightarrow> (S16 (x\<lparr>sent := []\<rparr>), map (connWrite a) (sent x))
      | S25 x \<Rightarrow> (S25 (x\<lparr>sent := []\<rparr>), map (connWrite a) (sent x)))"

definition sessionRead :: "u64 \<Rightarrow> nat \<Rightarrow> bytes \<Rightarrow> bytes \<Rightarrow> tutk_session \<Rightarrow> (tutk_msg \<times> tutk_session) option option" where
  "sessionRead now ch cmd spare s =
     (case s of
        S16 x \<Rightarrow> Some (map_option (\<lambda>(m, t). (m, S16 t)) (SessionRead16 ch cmd spare x))
      | S25 x \<Rightarrow> map_option (map_option (\<lambda>(m, t). (m, S25 t))) (SessionRead25 now ch cmd spare x))"

definition msgAckPing :: "bytes \<Rightarrow> bytes" where
  "msgAckPing msg = msg[8 := 0x27, 10 := 0x21]"

definition msgAckCh5 :: "bytes \<Rightarrow> bytes" where
  "msgAckCh5 msg = msg[8 := 0x07, 10 := 0x21, 32 := 0x41]"

text \<open>
  \<open>handleMsg\<close> on the first \<open>n\<close> bytes of the buffer, at least 16. The acknowledgements are written into
  the buffer. The outer \<open>None\<close> would be a loop without end, the inner one is a panic.
\<close>

definition handleMsg :: "u64 \<Rightarrow> nat \<Rightarrow> tutk_conn \<Rightarrow> (tutk_msg \<times> tutk_conn) option option" where
  "handleMsg now n c =
     (let buf = workbuf c; msg = take n buf in
      if msg ! 8 = 0x08 then
        (if msg ! 14 = 0 \<or> msg ! 14 = 1 then
           (if n < 28 then Some None
            else case sessionRead now (unat (msg ! 14)) (drop 28 msg) (drop n buf) (session c) of
              None \<Rightarrow> None
            | Some None \<Rightarrow> Some None
            | Some (Some (m, s)) \<Rightarrow>
                (case flushSent (addr c) s of (s', out) \<Rightarrow> Some (Some (m, c\<lparr>session := s', outbox := outbox c @ out\<rparr>))))
         else if msg ! 14 = 5 \<and> n = 48 then
           Some (Some (MsgCh5, c\<lparr>workbuf := msgAckCh5 msg @ drop n buf, outbox := outbox c @ [connWrite (addr c) (msgAckCh5 msg)]\<rparr>))
         else if msg ! 14 = 0x1c then Some (Some (MsgUnknownCh1c, c))
         else Some (Some (MsgUnknown, c)))
      else if msg ! 8 = 0x18 then Some (Some (MsgUnknownPing, c))
      else if msg ! 8 = 0x28 \<and> n = 24 then
        Some (Some (MsgPing, c\<lparr>workbuf := msgAckPing msg @ drop n buf, outbox := outbox c @ [connWrite (addr c) (msgAckPing msg)]\<rparr>))
      else Some (Some (MsgUnknown, c)))"

text \<open>One turn of \<open>worker\<close>: a message of at most 1200 bytes is in the buffer, and handled.\<close>

definition workerTurn :: "u64 \<Rightarrow> bytes \<Rightarrow> conn_addr \<Rightarrow> tutk_conn \<Rightarrow> tutk_conn option option" where
  "workerTurn now m a c =
     (let n = min 1200 (length m); c1 = c\<lparr>addr := a, workbuf := take n m @ drop n (workbuf c)\<rparr> in
      case handleMsg now n c1 of
        None \<Rightarrow> None
      | Some None \<Rightarrow> Some None
      | Some (Some (res, c2)) \<Rightarrow>
          Some (Some (if res = MsgError then c2\<lparr>ended := True\<rparr>
                      else if res = MsgCommandAck then c2\<lparr>acks := acks c2 + 1\<rparr> else c2)))"

text \<open>\<open>worker\<close>: it ends, and closes the session, when the reading fails or a frame has no room.\<close>

function tutkWorker :: "u64 \<Rightarrow> udp_datagram list \<Rightarrow> tutk_conn \<Rightarrow> tutk_conn option option" where
  "tutkWorker now ds c =
     (case connRead (addr c) ds of
        None \<Rightarrow> Some (Some (c\<lparr>ended := True\<rparr>))
      | Some (m, a, ds') \<Rightarrow>
          (case workerTurn now m a c of
             None \<Rightarrow> None
           | Some None \<Rightarrow> Some None
           | Some (Some c') \<Rightarrow> if ended c' then Some (Some c') else tutkWorker now ds' c'))"
  by pat_completeness auto
termination by (relation "measure (\<lambda>(now, ds, c). length ds)") (auto dest: length_connRead)

declare tutkWorker.simps [simp del]

subsection \<open>Commands\<close>

text \<open>
  The loop of \<open>WriteCommand\<close>. In a turn the command is written (or that fails), and an answer comes
  before the timer or not; an answer sets the counter to 0 and the timer to fire at once.
\<close>

datatype command_end = CmdSent | CmdWriteError | CmdTimeout

fun commandTurns :: "int \<Rightarrow> (bool \<times> bool) list \<Rightarrow> nat \<times> command_end option" where
  "commandTurns repeat [] = (0, None)"
| "commandTurns repeat ((written, answered) # turns) =
     (if \<not> written then (0, Some CmdWriteError)
      else
        let r = (if answered then 0 else repeat) - 1 in
        if r < 0 then (1, Some CmdSent)
        else if r = 0 then (1, Some CmdTimeout)
        else case commandTurns r turns of (k, e) \<Rightarrow> (Suc k, e))"

definition WriteCommandTurns :: "(bool \<times> bool) list \<Rightarrow> nat \<times> command_end option" where
  "WriteCommandTurns turns = commandTurns 5 turns"

subsection \<open>Strangers\<close>

text \<open>The datagrams that \<open>Read\<close> does not skip.\<close>

definition ours :: "ip \<Rightarrow> udp_datagram list \<Rightarrow> udp_datagram list" where
  "ours host ds = filter (\<lambda>d. from_ip d = host \<and> 16 \<le> length (content d)) ds"

fun map_dial :: "('a \<Rightarrow> 'b) \<Rightarrow> 'a dial_result \<Rightarrow> 'b dial_result" where
  "map_dial f (Dialed x) = Dialed (f x)"
| "map_dial f DialTimeout = DialTimeout"
| "map_dial f DialPanic = DialPanic"

lemma connRead_ours:
  "connRead a (ours (c_ip a) ds) = map_option (\<lambda>(m, a', rest). (m, a', ours (c_ip a) rest)) (connRead a ds)"
  by (induction ds) (auto simp: ours_def not_less)

lemma waitFor_ours:
  "waitFor ok a (ours (c_ip a) ds) = map_option (\<lambda>(m, a', rest). (m, a', ours (c_ip a) rest)) (waitFor ok a ds)"
proof (induction ok a ds rule: waitFor.induct)
  case (1 ok a ds)
  show ?case
  proof (cases "connRead a ds")
    case None
    then show ?thesis by (simp add: waitFor.simps [of ok a] connRead_ours)
  next
    case (Some r)
    obtain m a' rest where r: "r = (m, a', rest)" by (cases r)
    have "c_ip a' = c_ip a" using length_connRead Some r by blast
    moreover have "\<not> ok m \<Longrightarrow> waitFor ok a' (ours (c_ip a') rest) =
        map_option (\<lambda>(m, b, rest). (m, b, ours (c_ip a') rest)) (waitFor ok a' rest)"
      using 1 Some r by blast
    ultimately show ?thesis using Some r by (simp add: waitFor.simps [of ok a] connRead_ours)
  qed
qed

lemma waitFor_ip: "waitFor ok a ds = Some (m, a', rest) \<Longrightarrow> ok m \<and> 16 \<le> length m \<and> c_ip a' = c_ip a"
proof (induction ok a ds rule: waitFor.induct)
  case (1 ok a ds)
  from 1(2) obtain n b r where c: "connRead a ds = Some (n, b, r)"
    by (cases "connRead a ds") (auto simp: waitFor.simps [of ok a ds])
  have step: "waitFor ok a ds = (if ok n then Some (n, b, r) else waitFor ok b r)"
    by (simp add: waitFor.simps [of ok a ds] c)
  show ?case
  proof (cases "ok n")
    case True
    then show ?thesis using 1(2) length_connRead [OF c] unfolding step by simp
  next
    case False
    then have "waitFor ok b r = Some (m, a', rest)" using 1(2) unfolding step by simp
    from 1(1) [OF c refl refl False this] length_connRead [OF c] show ?thesis by simp
  qed
qed

lemma tutkDial_ours:
  assumes "c_port a \<noteq> 10001"
  shows "tutkDial now sid uid username password a (ours (c_ip a) ds) =
    map_dial (\<lambda>(c, rest). (c, ours (c_ip a) rest)) (tutkDial now sid uid username password a ds)"
proof (cases "waitFor (answers [0x02, 0x06, 0x12, 0x00]) a ds")
  case None
  with assms show ?thesis by (simp add: tutkDial_def connectDirect_def waitFor_ours)
next
  case (Some r)
  obtain m a' rest where r: "r = (m, a', rest)" by (cases r)
  have "c_ip a' = c_ip a" using waitFor_ip Some r by blast
  then have "waitFor startAnswer a' (ours (c_ip a) rest) =
      map_option (\<lambda>(m, b, rest). (m, b, ours (c_ip a) rest)) (waitFor startAnswer a' rest)"
    using waitFor_ours [of startAnswer a' rest] by simp
  with assms Some r show ?thesis
    by (auto simp: tutkDial_def connectDirect_def waitFor_ours Let_def split: option.split)
qed

lemma workerTurn_addr: "workerTurn now m a c = Some (Some c') \<Longrightarrow> addr c' = a"
  by (auto simp: workerTurn_def handleMsg_def Let_def split: option.splits if_splits prod.splits)

lemma tutkWorker_ours: "tutkWorker now (ours (c_ip (addr c)) ds) c = tutkWorker now ds c"
proof (induction now ds c rule: tutkWorker.induct)
  case (1 now ds c)
  show ?case
  proof (cases "connRead (addr c) ds")
    case None
    then show ?thesis by (simp add: tutkWorker.simps [of now _ c] connRead_ours)
  next
    case (Some r)
    obtain m a rest where r: "r = (m, a, rest)" by (cases r)
    have a: "c_ip a = c_ip (addr c)" using length_connRead Some r by blast
    have "tutkWorker now (ours (c_ip (addr c)) rest) c' = tutkWorker now rest c'"
      if "workerTurn now m a c = Some (Some c')" "\<not> ended c'" for c'
      using 1 [OF Some [unfolded r] refl refl that(1) refl that(2)] workerTurn_addr [OF that(1)] a by simp
    then show ?thesis using Some r
      by (auto simp: tutkWorker.simps [of now _ c] connRead_ours split: option.split)
  qed
qed

subsection \<open>The worker ends\<close>

lemma rb_pop_size: "rb_pop r = Some (d, r') \<Longrightarrow> 0 < rb_size r \<Longrightarrow> rb_size r' = rb_size r"
  by (erule rb_pop_ends [of r]) auto

lemma handleChunk_size: "handleChunk now c ck s = Some (m, t) \<Longrightarrow> rb_size (rb t) = rb_size (rb s)"
  by (auto simp: handleChunk_def Let_def rb_push_def split: option.splits if_splits dest: acceptChunk_keeps)

definition keeps_size :: "session25 \<Rightarrow> (tutk_msg \<times> session25) option \<Rightarrow> bool" where
  "keeps_size s y \<longleftrightarrow> (\<forall>m t. 0 < rb_size (rb s) \<longrightarrow> y = Some (m, t) \<longrightarrow> rb_size (rb t) = rb_size (rb s))"

lemma chunkLoop_keeps_size:
  assumes "chunkLoop now c ck s = Some y"
  shows "keeps_size s y"
proof (rule chunkLoop.raw_induct [where P = "\<lambda>now c ck s y. keeps_size s y", OF _ assms])
  fix f :: "u64 \<Rightarrow> bytes \<Rightarrow> bool \<Rightarrow> session25 \<Rightarrow> (tutk_msg \<times> session25) option option" and now c ck s y
  assume IH: "\<And>now c ck s y. f now c ck s = Some y \<Longrightarrow> keeps_size s y"
    and body: "(case handleChunk now c ck s of None \<Rightarrow> Some None
      | Some (res, s1) \<Rightarrow> (case rb_pop (rb s1) of None \<Rightarrow> None
          | Some (None, r) \<Rightarrow> Some (Some (res, s1\<lparr>rb := r\<rparr>))
          | Some (Some d, r) \<Rightarrow> f now d False (s1\<lparr>rb := r\<rparr>))) = Some y"
  show "keeps_size s y"
    unfolding keeps_size_def
  proof (intro impI allI)
    fix m t assume pos: "0 < rb_size (rb s)" and y: "y = Some (m, t)"
    from body y obtain res s1 d r where h: "handleChunk now c ck s = Some (res, s1)" "rb_pop (rb s1) = Some (d, r)"
      and rest: "(case d of None \<Rightarrow> Some (Some (res, s1\<lparr>rb := r\<rparr>)) | Some b \<Rightarrow> f now b False (s1\<lparr>rb := r\<rparr>)) = Some (Some (m, t))"
      by (auto split: option.splits)
    have z: "rb_size (rb s1) = rb_size (rb s)" "rb_size r = rb_size (rb s)"
      using handleChunk_size [OF h(1)] rb_pop_size [OF h(2)] pos by simp_all
    show "rb_size (rb t) = rb_size (rb s)"
    proof (cases d)
      case None
      with rest z show ?thesis by auto
    next
      case (Some b)
      with rest have "f now b False (s1\<lparr>rb := r\<rparr>) = Some (Some (m, t))" by simp
      from IH [OF this] z pos show ?thesis by (simp add: keeps_size_def)
    qed
  qed
qed

lemma SessionRead25_size:
  assumes "0 < rb_size (rb s)"
  obtains "SessionRead25 now ch cmd spare s = Some None"
  | m t where "SessionRead25 now ch cmd spare s = Some (Some (m, t))" "0 < rb_size (rb t)"
proof (cases "SessionRead25 now ch cmd spare s")
  case None
  then have "chunkLoop now cmd True s = None" by (auto simp: SessionRead25_def Let_def split: if_splits option.splits)
  with chunkLoop_ends [OF assms, of now cmd] show ?thesis by simp
next
  case (Some x)
  show ?thesis
  proof (cases x)
    case None
    with Some that(1) show ?thesis by simp
  next
    case (Some p)
    obtain m t where p: "p = (m, t)" by (cases p)
    have "rb_size (rb t) = rb_size (rb s)"
      using \<open>SessionRead25 now ch cmd spare s = Some x\<close> assms unfolding Some p
      by (auto simp: SessionRead25_def handleCh1_25_def write_then_def writeCounters_def msgAckCounters_def
          SessionWrite_def pushCmd_def Let_def keeps_size_def dest!: chunkLoop_keeps_size split: if_splits option.splits)
    with \<open>SessionRead25 now ch cmd spare s = Some x\<close> Some p assms that(2) show ?thesis by simp
  qed
qed

definition session_ok :: "tutk_session \<Rightarrow> bool" where
  "session_ok s = (case s of S16 x \<Rightarrow> True | S25 x \<Rightarrow> 0 < rb_size (rb x))"

lemma session_ok_new: "session_ok (newSession v sid)"
  by (simp add: session_ok_def newSession_def NewSession25_def NewReorderBuffer_def session16.extend_def)

lemma session_ok_flush: "session_ok s \<Longrightarrow> session_ok (fst (flushSent a s))"
  by (cases s) (simp_all add: session_ok_def flushSent_def)

lemma sessionRead_ok:
  assumes "session_ok s"
  obtains "sessionRead now ch cmd spare s = Some None"
  | m t where "sessionRead now ch cmd spare s = Some (Some (m, t))" "session_ok t"
proof (cases s)
  case (S16 x)
  then show ?thesis using that by (cases "SessionRead16 ch cmd spare x") (auto simp: sessionRead_def session_ok_def)
next
  case (S25 x)
  with assms have "0 < rb_size (rb x)" by (simp add: session_ok_def)
  then show ?thesis
    by (cases rule: SessionRead25_size [of x now ch cmd spare]) (use S25 that in \<open>auto simp: sessionRead_def session_ok_def\<close>)
qed

lemma workerTurn_ok:
  assumes "session_ok (session c)"
  obtains "workerTurn now m a c = Some None"
  | c' where "workerTurn now m a c = Some (Some c')" "session_ok (session c')"
proof -
  let ?n = "min 1200 (length m)"
  let ?c = "c\<lparr>addr := a, workbuf := take ?n m @ drop ?n (workbuf c)\<rparr>"
  have ok: "session_ok (session ?c)" using assms by simp
  have "handleMsg now ?n ?c = Some None \<or>
    (\<exists>res c'. handleMsg now ?n ?c = Some (Some (res, c')) \<and> session_ok (session c'))"
  proof -
    let ?ch = "unat (take ?n (workbuf ?c) ! 14)" and ?cmd = "drop 28 (take ?n (workbuf ?c))" and ?sp = "drop ?n (workbuf ?c)"
    show ?thesis
    proof (cases rule: sessionRead_ok [OF ok, of now ?ch ?cmd ?sp])
      case 1
      then show ?thesis using ok unfolding handleMsg_def Let_def by auto
    next
      case (2 r t)
      obtain t' out where f: "flushSent a t = (t', out)" by fastforce
      with session_ok_flush [OF 2(2), of a] have "session_ok t'" by simp
      with 2(1) f ok show ?thesis unfolding handleMsg_def Let_def by auto
    qed
  qed
  then show ?thesis
    using that unfolding workerTurn_def Let_def by fastforce
qed

lemma tutkWorker_ends: "session_ok (session c) \<Longrightarrow> \<exists>x. tutkWorker now ds c = Some x"
proof (induction now ds c rule: tutkWorker.induct)
  case (1 now ds c)
  show ?case
  proof (cases "connRead (addr c) ds")
    case None
    then show ?thesis by (simp add: tutkWorker.simps [of now ds c])
  next
    case (Some r)
    obtain m a rest where r: "r = (m, a, rest)" by (cases r)
    show ?thesis
    proof (cases rule: workerTurn_ok [OF 1(2), of now m a])
      case 1
      then show ?thesis using Some r by (simp add: tutkWorker.simps [of now ds c])
    next
      case (2 c')
      then show ?thesis
        using Some r 1(1) [OF Some [unfolded r] refl refl 2(1) refl] by (simp add: tutkWorker.simps [of now ds c])
    qed
  qed
qed

text \<open>\<open>handleMsg\<close> takes the bytes from 28 on of a message that may have only 16.\<close>

lemma workerTurn_short:
  assumes "16 \<le> length m" "length m < 28" "m ! 8 = 8" "m ! 14 \<le> 1"
  shows "workerTurn now m a c = Some None"
proof -
  have "m ! 14 = 0 \<or> m ! 14 = 1" using assms(4) by (metis le_less word_less_1)
  with assms show ?thesis by (auto simp: workerTurn_def handleMsg_def Let_def nth_append min_def)
qed

lemma tutkWorker_short:
  assumes "from_ip d = c_ip (addr c)" "16 \<le> length (content d)" "length (content d) < 28"
    "reverseBytes (content d) ! 8 = 8" "reverseBytes (content d) ! 14 \<le> 1"
  shows "tutkWorker now (d # ds) c = Some None"
proof -
  let ?m = "reverseBytes (content d)"
  have "connRead (addr c) (d # ds) = Some (?m, (addr c)\<lparr>c_port := from_port d\<rparr>, ds)"
    using assms(1-2) by (simp add: ReverseTransCodePartial_def)
  moreover have "workerTurn now ?m b c = Some None" for b
    by (rule workerTurn_short) (use assms in simp_all)
  ultimately show ?thesis by (subst tutkWorker.simps) simp
qed

lemma tutkDial_session:
  assumes "tutkDial now sid uid username password a ds = Dialed (c, rest)" "c_port a \<noteq> 10001"
  shows "c_ip (addr c) = c_ip a \<and> session c = newSession (ver c) sid"
  using assms by (auto simp: tutkDial_def connectDirect_def Let_def split: option.splits dest!: waitFor_ip)

subsection \<open>Commands\<close>

text \<open>With the writes succeeding: one write per turn until the first answer, and no more than five.\<close>

lemma WriteCommand_turns:
  assumes "5 \<le> length turns" "\<forall>t \<in> set turns. fst t"
  shows "WriteCommandTurns turns =
    (let k = length (takeWhile (\<lambda>t. \<not> snd t) turns) in
     if k < 5 then (Suc k, Some CmdSent) else (5, Some CmdTimeout))"
proof -
  obtain t1 t2 t3 t4 t5 ts where "turns = t1 # t2 # t3 # t4 # t5 # ts"
    using assms(1) by (auto simp: Suc_le_length_iff numeral_eq_Suc)
  with assms(2) show ?thesis
    by (cases t1; cases t2; cases t3; cases t4; cases t5) (simp add: WriteCommandTurns_def Let_def)
qed


definition demo_datagram :: "ip \<Rightarrow> bytes \<Rightarrow> udp_datagram" where
  "demo_datagram i m = \<lparr>from_ip = i, from_port = 4000, content = transBytes m\<rparr>"

definition demo_answer :: bytes where
  "demo_answer = [0x04, 0x02, 26, 0x0a, 0, 0, 0, 0, 0x02, 0x06, 0x12, 0x00] @ replicate 4 0 @ replicate 4 7 @ replicate 12 0"

definition demo_start :: bytes where
  "demo_start = replicate 29 0 @ [0x14] @ replicate 54 0"

definition demo_short :: bytes where
  "demo_short = replicate 8 0 @ [8] @ replicate 11 0"

lemma demo_read:
  "i = c_ip a \<Longrightarrow> 16 \<le> length m \<Longrightarrow>
   connRead a (demo_datagram i m # ds) = Some (m, a\<lparr>c_port := 4000\<rparr>, ds)"
  "i \<noteq> c_ip a \<Longrightarrow> connRead a (demo_datagram i m # ds) = connRead a ds"
  by (simp_all add: demo_datagram_def ReverseTransCodePartial_def reverse_trans_bytes)

lemma demo_answers: "answers [0x02, 0x06, 0x12, 0x00] demo_answer" "startAnswer demo_start"
  by (simp_all add: answers_def demo_answer_def startAnswer_def demo_start_def nth_append)


end
