(* ===== verification/Legacy.thy ===== *)
theory Legacy
  imports MissProducer Aac TutkSession
begin

section \<open>The client of old Xiaomi cameras\<close>

text \<open>
  Models \<open>pkg/xiaomi/legacy/client.go\<close> and \<open>producer.go\<close>. The connection is the interface of the MISS
  client; the parameters of the URL are a map. A panic is an error of its own. A payload is a slice
  of a longer buffer: \<open>spare\<close> are the bytes behind it, which a slice with an explicit end may reach.
\<close>

subsection \<open>Models\<close>

definition ModelAqaraG2 :: string where "ModelAqaraG2 = ''lumi.camera.gwagl01''"
definition ModelIMILABA1 :: string where "ModelIMILABA1 = ''chuangmi.camera.ipc019e''"
definition ModelLoockV1 :: string where "ModelLoockV1 = ''loock.cateye.v01''"
definition ModelXiaobai :: string where "ModelXiaobai = ''chuangmi.camera.xiaobai''"
definition ModelXiaofangL :: string where "ModelXiaofangL = ''isa.camera.isc5''"
definition ModelMijia :: string where "ModelMijia = ''chuangmi.camera.v2''"

lemmas legacy_models = ModelAqaraG2_def ModelIMILABA1_def ModelLoockV1_def ModelXiaobai_def ModelXiaofangL_def
  ModelMijia_def ModelDafang_def

definition Supported :: "string \<Rightarrow> bool" where
  "Supported model \<longleftrightarrow> model \<in> {ModelAqaraG2, ModelIMILABA1, ModelLoockV1, ModelXiaobai, ModelXiaofangL}"

definition cmdLVideoStart :: u32 where "cmdLVideoStart = 0x01ff"
definition cmdLVideoStop :: u32 where "cmdLVideoStop = 0x02ff"
definition cmdLAudioStart :: u32 where "cmdLAudioStart = 0x0300"
definition cmdLAudioStop :: u32 where "cmdLAudioStop = 0x0301"
definition cmdStreamCtrlReq :: u32 where "cmdStreamCtrlReq = 0x0320"

lemmas legacy_cmds = cmdLVideoStart_def cmdLVideoStop_def cmdLAudioStart_def cmdLAudioStop_def cmdStreamCtrlReq_def

datatype 'e legacy_error =
    LConn 'e
  | LMiss "'e miss_error"
  | LBadURL
  | UnsupportedModel string
  | UnsupportedEncryption
  | LJoined "'e legacy_error list"
  | LPanic

record legacy_client =
  lkey :: "bytes option"
  lmodel :: string

definition param :: "(string \<rightharpoonup> string) \<Rightarrow> string \<Rightarrow> string" where
  "param q k = (case q k of None \<Rightarrow> [] | Some v \<Rightarrow> v)"

subsection \<open>Login\<close>

text \<open>
  \<open>xiaofangLogin\<close>: the camera's bytes from 24 on are decrypted in place with the password and sent
  back behind seven fixed bytes. \<open>None\<close>: the connection has no answer yet.
\<close>

definition loginReply :: "bytes \<Rightarrow> bytes \<Rightarrow> bytes option" where
  "loginReply password data =
     (case slice_from 24 data of
        None \<Rightarrow> None
      | Some enc \<Rightarrow>
          (case XXTEADecrypt enc enc password of
             None \<Rightarrow> None
           | Some dec \<Rightarrow> ICAM 0x0400c0 (dec @ [0, 0, 0, 0, 1, 1, 1])))"

definition xiaofangLogin :: "('s, 'e) miss_conn \<Rightarrow> 's \<Rightarrow> string \<Rightarrow> ('s \<times> 'e legacy_error option) option" where
  "xiaofangLogin io s password =
     (case ICAM 0x0400be [] of
        None \<Rightarrow> Some (s, Some LPanic)
      | Some ask \<Rightarrow>
          (case ioWriteCommand io s 0x0100 ask of
             (s1, Some e) \<Rightarrow> Some (s1, Some (LConn e))
           | (s1, None) \<Rightarrow>
               (case ioReadCommand io s1 of
                  None \<Rightarrow> None
                | Some (s2, Inl e) \<Rightarrow> Some (s2, Some (LConn e))
                | Some (s2, Inr (_, data)) \<Rightarrow>
                    (case loginReply (bytes_of password) data of
                       None \<Rightarrow> Some (s2, Some LPanic)
                     | Some reply \<Rightarrow>
                         (case ioWriteCommand io s2 0x0100 reply of
                            (s3, Some e) \<Rightarrow> Some (s3, Some (LConn e))
                          | (s3, None) \<Rightarrow>
                              (case ioReadCommand io s3 of
                                 None \<Rightarrow> None
                               | Some (s4, Inl e) \<Rightarrow> Some (s4, Some (LConn e))
                               | Some (s4, Inr _) \<Rightarrow> Some (s4, None)))))))"

definition legacyUser :: "(string \<rightharpoonup> string) \<Rightarrow> string" where
  "legacyUser q = ''{\"public_key\":\"'' @ param q ''client_public'' @ ''\",\"sign\":\"'' @ param q ''sign'' @
     ''\",\"account\":\"admin\"}''"

text \<open>What \<open>NewClient\<close> derives from the parameters: the key, the user and the password.\<close>

definition legacyCredentials ::
  "(bytes \<Rightarrow> bytes \<Rightarrow> bytes) \<Rightarrow> (string \<rightharpoonup> string) \<Rightarrow> 'e legacy_error + bytes option \<times> string \<times> string" where
  "legacyCredentials precompute q =
     (let model = param q ''model'' in
      if ''sign'' \<in> dom q then
        (case CalcSharedKey precompute (param q ''device_public'') (param q ''client_private'') of
           Inl e \<Rightarrow> Inl (LMiss e)
         | Inr key \<Rightarrow> Inr (Some key, legacyUser q, []))
      else if model = ModelMijia \<or> model = ModelXiaobai then Inr (None, ''admin'', param q ''password'')
      else if model = ModelDafang \<or> model = ModelXiaofangL then Inr (None, ''admin'', [])
      else Inl (UnsupportedModel model))"

text \<open>
  \<open>NewClient\<close>; \<open>dial\<close> is \<open>tutk.Dial\<close> on the host of the URL with its uid, user and password. The
  first component is the connection that is left, closed or not.
\<close>

definition legacyNewClient ::
  "('s, 'e) miss_conn \<Rightarrow> (bytes \<Rightarrow> bytes \<Rightarrow> bytes) \<Rightarrow> (string \<Rightarrow> string \<Rightarrow> string \<Rightarrow> string \<Rightarrow> 'e + 's) \<Rightarrow>
   (string \<times> (string \<rightharpoonup> string)) option \<Rightarrow> ('s option \<times> ('e legacy_error + legacy_client)) option" where
  "legacyNewClient io precompute dial url =
     (case url of
        None \<Rightarrow> Some (None, Inl LBadURL)
      | Some (host, q) \<Rightarrow>
          (case legacyCredentials precompute q of
             Inl e \<Rightarrow> Some (None, Inl e)
           | Inr (key, username, password) \<Rightarrow>
               (case dial host (param q ''uid'') username password of
                  Inl e \<Rightarrow> Some (None, Inl (LConn e))
                | Inr s \<Rightarrow>
                    let model = param q ''model''; c = \<lparr>lkey = key, lmodel = model\<rparr> in
                    if model = ModelDafang \<or> model = ModelXiaofangL then
                      (case xiaofangLogin io s (param q ''password'') of
                         None \<Rightarrow> None
                       | Some (s1, Some LPanic) \<Rightarrow> Some (Some s1, Inl LPanic)
                       | Some (s1, Some e) \<Rightarrow> Some (Some (ioClose io s1), Inl e)
                       | Some (s1, None) \<Rightarrow> Some (Some s1, Inr c))
                    else Some (Some s, Inr c))))"

subsection \<open>Packets\<close>

text \<open>The loop of \<open>DecodeVideo\<close>, on the buffer behind the header; \<open>src\<close> is the part from \<open>lo\<close> with \<open>n\<close> bytes.\<close>

function videoLoop :: "cipher \<Rightarrow> bytes \<Rightarrow> bytes \<Rightarrow> nat \<Rightarrow> nat \<Rightarrow> nat \<Rightarrow> bytes \<Rightarrow> 'e miss_error + bytes" where
  "videoLoop nc nonce8 key lo n i b =
     (if i + 16 < n then
        (case decodeNonce nc (take 16 (drop (lo + i) b)) nonce8 key of
           Inl e \<Rightarrow> Inl e
         | Inr dst \<Rightarrow> videoLoop nc nonce8 key lo n (i + 160) (go_copy b (lo + i) dst))
      else Inr b)"
  by pat_completeness auto
termination by (relation "measure (\<lambda>(nc, nonce8, key, lo, n, i, b). n - i)") auto

declare videoLoop.simps [simp del]

definition DecodeVideo :: "cipher \<Rightarrow> bytes \<Rightarrow> bytes \<Rightarrow> bytes \<Rightarrow> 'e legacy_error + bytes" where
  "DecodeVideo nc data spare key =
     (if slice_cap 0 4 data spare = None then Inl LPanic
      else if slice_cap 0 4 data spare = Some [0, 0, 0, 1] then Inr data
      else if length data < 9 then Inl LPanic
      else if data ! 8 = 0 then Inr data
      else if data ! 8 \<noteq> 1 then Inl UnsupportedEncryption
      else if length data < 17 then Inl LPanic
      else
        let i1 = get_le32 (drop 9 data); i2 = get_le32 (drop 13 data);
            lo = unat i1; hi = unat (i1 + i2); body = drop 17 data @ spare
        in if hi < lo \<or> length body < hi then Inl LPanic
           else case videoLoop nc (take 8 data) key lo (hi - lo) 32 body of
             Inl e \<Rightarrow> Inl (LMiss e)
           | Inr b \<Rightarrow> Inr (take (length data - 17) b))"

definition CodecH265t :: u8 where "CodecH265t = 0x50"
definition CodecH264t :: u8 where "CodecH264t = 0x4E"
definition CodecPCMAt :: u8 where "CodecPCMAt = 0x8A"
definition CodecPCMLt :: u8 where "CodecPCMLt = 0x8C"
definition CodecAACLATM :: u8 where "CodecAACLATM = 0x88"
definition codecXiaobaiPCMA :: u8 where "codecXiaobaiPCMA = 1"

lemmas tutk_codecs = CodecH265t_def CodecH264t_def CodecPCMAt_def CodecPCMLt_def CodecAACLATM_def codecXiaobaiPCMA_def

text \<open>\<open>ReadPacket\<close> on what the connection gave.\<close>

definition legacyDecode :: "cipher \<Rightarrow> legacy_client \<Rightarrow> bytes \<Rightarrow> bytes \<Rightarrow> bytes \<Rightarrow> 'e legacy_error + bytes" where
  "legacyDecode nc c hdr pl spare =
     (case lkey c of
        None \<Rightarrow> Inr pl
      | Some key \<Rightarrow>
          if lmodel c = ModelAqaraG2 \<and> hdr = [] then Inl LPanic
          else if lmodel c = ModelAqaraG2 \<and> hdr ! 0 = CodecH265t then DecodeVideo nc pl spare key
          else (case missDecode nc pl key of Inl e \<Rightarrow> Inl (LMiss e) | Inr b \<Rightarrow> Inr b))"

definition legacyReadPacket ::
  "('s, 'e) miss_conn \<Rightarrow> cipher \<Rightarrow> legacy_client \<Rightarrow> bytes \<Rightarrow> 's \<Rightarrow> ('s \<times> ('e legacy_error + bytes \<times> bytes)) option" where
  "legacyReadPacket io nc c spare s =
     (case ioReadPacket io s of
        None \<Rightarrow> None
      | Some (s1, Inl e) \<Rightarrow> Some (s1, Inl (LConn e))
      | Some (s1, Inr (hdr, pl)) \<Rightarrow>
          Some (s1, case legacyDecode nc c hdr pl spare of Inl e \<Rightarrow> Inl e | Inr b \<Rightarrow> Inr (hdr, b)))"

subsection \<open>Starting and stopping\<close>

text \<open>All commands are written, one after the other, whatever their results; the errors are joined.\<close>

fun writeAll :: "('s, 'e) miss_conn \<Rightarrow> 's \<Rightarrow> (u32 \<times> bytes) list \<Rightarrow> 's \<times> 'e legacy_error list" where
  "writeAll io s [] = (s, [])"
| "writeAll io s ((cmd, data) # cs) =
     (case ioWriteCommand io s cmd data of
        (s1, e) \<Rightarrow> (case writeAll io s1 cs of
          (s2, es) \<Rightarrow> (s2, (case e of None \<Rightarrow> [] | Some x \<Rightarrow> [LConn x]) @ es)))"

definition joined :: "'e legacy_error list \<Rightarrow> 'e legacy_error option" where
  "joined es = (if es = [] then None else Some (LJoined es))"

definition videoAqara :: "string \<Rightarrow> string" where
  "videoAqara video =
     (if video = [] \<or> video = ''fhd'' then ''0'' else if video = ''hd'' then ''1'' else if video = ''sd'' then ''2'' else video)"

definition videoMijia :: "string \<Rightarrow> string" where
  "videoMijia video =
     (if video = [] \<or> video = ''hd'' then ''3'' else if video = ''sd'' then ''1'' else if video = ''auto'' then ''0'' else video)"

definition videoXiaobai :: "string \<Rightarrow> u8" where
  "videoXiaobai video =
     (if video = [] \<or> video = ''fhd'' then 1 else if video = ''hd'' then 2 else if video = ''sd'' then 4
      else if video = ''auto'' then 0xff else 0)"

definition startCommands :: "string \<Rightarrow> string \<Rightarrow> (u32 \<times> bytes) list option" where
  "startCommands model video =
     (if model = ModelAqaraG2 then
        Some [(cmdLVideoStart, bytes_of ''{}''), (0x0605, bytes_of (''{\"channel\":'' @ videoAqara video @ ''}'')),
              (0x0704, bytes_of ''{}'')]
      else if model = ModelIMILABA1 \<or> model = ModelMijia then
        Some [(cmdLAudioStart, bytes_of ''{}''), (cmdLVideoStart, bytes_of ''{}''),
              (cmdStreamCtrlReq, bytes_of (''{\"videoquality\":'' @ videoMijia video @ ''}''))]
      else if model = ModelXiaobai then
        Some [(cmdLAudioStart, bytes_of ''{}''), (cmdStreamCtrlReq, [0, 0, 0, 0, videoXiaobai video, 0, 0, 0]),
              (cmdLVideoStart, bytes_of ''{}'')]
      else if model = ModelDafang \<or> model = ModelXiaofangL then Some []
      else None)"

definition legacyStartMedia :: "('s, 'e) miss_conn \<Rightarrow> legacy_client \<Rightarrow> 's \<Rightarrow> string \<Rightarrow> 's \<times> 'e legacy_error option" where
  "legacyStartMedia io c s video =
     (case startCommands (lmodel c) video of
        None \<Rightarrow> (s, Some (UnsupportedModel (lmodel c)))
      | Some cs \<Rightarrow> (case writeAll io s cs of (s1, es) \<Rightarrow> (s1, joined es)))"

definition legacyStopMedia :: "('s, 'e) miss_conn \<Rightarrow> 's \<Rightarrow> 's \<times> 'e legacy_error option" where
  "legacyStopMedia io s =
     (case writeAll io s [(cmdLVideoStop, bytes_of ''{}''), (cmdLVideoStop, replicate 8 0)] of (s1, es) \<Rightarrow> (s1, joined es))"

subsection \<open>The producer\<close>

definition pcmaCodec :: media_codec where
  "pcmaCodec = \<lparr>mcName = ''PCMA'', mcRate = 8000, mcChannels = 0, mcFmtp = []\<rparr>"

definition pcmlCodec :: media_codec where
  "pcmlCodec = \<lparr>mcName = ''PCML'', mcRate = 8000, mcChannels = 0, mcFmtp = []\<rparr>"

definition aacMediaCodec :: "aac_codec \<Rightarrow> media_codec" where
  "aacMediaCodec c = \<lparr>mcName = acName c, mcRate = acRate c, mcChannels = unat (acChannels c), mcFmtp = acFmtp c\<rparr>"

text \<open>
  One packet of \<open>probe\<close>: the codecs known after it; \<open>None\<close> is a panic, for an empty header or an
  access unit without a NAL unit type.
\<close>

definition legacyProbePacket ::
  "(nat \<Rightarrow> nat) \<Rightarrow> (bytes \<Rightarrow> media_codec) \<Rightarrow> (bytes \<Rightarrow> media_codec) \<Rightarrow> bytes \<times> bytes \<Rightarrow>
   media_codec option \<times> media_codec option \<Rightarrow> (media_codec option \<times> media_codec option) option" where
  "legacyProbePacket grow c4 c5 = (\<lambda>(hdr, pl) (v, a).
     if hdr = [] then None
     else
       let codec = hdr ! 0 in
       if codec = CodecH264t \<or> codec = CodecH265t then
         (if v \<noteq> None then Some (v, a)
          else let avcc = EncodeToAVCC pl in
            if codec = CodecH264t then
              map_option (\<lambda>t. (if t = 7 then Some (c4 avcc) else v, a)) (h264NALUType avcc)
            else map_option (\<lambda>t. (if t = 32 then Some (c5 avcc) else v, a)) (h265NALUType avcc))
       else if codec = CodecPCMAt \<or> codec = codecXiaobaiPCMA then Some (v, if a = None then Some pcmaCodec else a)
       else if codec = CodecPCMLt then Some (v, if a = None then Some pcmlCodec else a)
       else if codec = CodecAACLATM then
         Some (v, if a = None then map_option aacMediaCodec (ADTSToCodec grow pl) else a)
       else Some (v, a))"

datatype 'e legacy_probe = LProbed "media list" | LProbeFail "'e legacy_error" | LProbePanic

text \<open>
  The loop of \<open>probe\<close>, for one packet per element of the list, which holds what lies behind that
  packet in its buffer. \<open>None\<close> while \<open>ReadPacket\<close> waits.
\<close>

fun legacyProbe ::
  "('s, 'e) miss_conn \<Rightarrow> cipher \<Rightarrow> legacy_client \<Rightarrow> (nat \<Rightarrow> nat) \<Rightarrow> (bytes \<Rightarrow> media_codec) \<Rightarrow> (bytes \<Rightarrow> media_codec) \<Rightarrow>
   bytes list \<Rightarrow> 's \<Rightarrow> media_codec option \<times> media_codec option \<Rightarrow> ('s \<times> 'e legacy_probe) option" where
  "legacyProbe io nc c grow c4 c5 [] s va = None"
| "legacyProbe io nc c grow c4 c5 (spare # spares) s va =
     (case legacyReadPacket io nc c spare s of
        None \<Rightarrow> None
      | Some (s1, Inl e) \<Rightarrow> Some (s1, if e = LPanic then LProbePanic else LProbeFail e)
      | Some (s1, Inr p) \<Rightarrow>
          (case legacyProbePacket grow c4 c5 p va of
             None \<Rightarrow> Some (s1, LProbePanic)
           | Some (Some v, Some a) \<Rightarrow> Some (s1, LProbed [(KindVideo, Recvonly, v), (KindAudio, Recvonly, a)])
           | Some va1 \<Rightarrow> legacyProbe io nc c grow c4 c5 spares s1 va1))"

record legacy_producer =
  lpVideoSeq :: u16
  lpAudioSeq :: u16
  lpAudioTS :: u32
  lpRecv :: nat

text \<open>
  One turn of the loop of \<open>Start\<close>: the name of the codec and the packet for the first receiver of
  it. \<open>now90000\<close> is the clock.
\<close>

definition audioOut :: "nat \<Rightarrow> bool \<Rightarrow> legacy_producer \<Rightarrow> bytes \<Rightarrow> rtp_packet" where
  "audioOut version marker st pl =
     \<lparr>rtpVersion = version, rtpMarker = marker, rtpSeq = lpAudioSeq st, rtpTS = lpAudioTS st, rtpPayload = pl\<rparr>"

definition legacyStep ::
  "u32 \<Rightarrow> bytes \<times> bytes \<Rightarrow> legacy_producer \<Rightarrow> (legacy_producer \<times> string \<times> rtp_packet option) option" where
  "legacyStep now90000 = (\<lambda>(hdr, pl) st0.
     if hdr = [] then None
     else
       let codec = hdr ! 0; n = length pl; st = st0\<lparr>lpRecv := lpRecv st0 + n\<rparr>;
           st1 = st\<lparr>lpAudioSeq := lpAudioSeq st + 1\<rparr>
       in Some
         (if codec = CodecH264t \<or> codec = CodecH265t then
            (st\<lparr>lpVideoSeq := lpVideoSeq st + 1\<rparr>, if codec = CodecH264t then ''H264'' else ''H265'',
             Some \<lparr>rtpVersion = 0, rtpMarker = False, rtpSeq = lpVideoSeq st, rtpTS = now90000, rtpPayload = EncodeToAVCC pl\<rparr>)
          else if codec = CodecPCMAt \<or> codec = codecXiaobaiPCMA then
            (st1\<lparr>lpAudioTS := lpAudioTS st + of_nat n\<rparr>, ''PCMA'', Some (audioOut 2 True st pl))
          else if codec = CodecPCMLt then
            (st1\<lparr>lpAudioTS := lpAudioTS st + of_nat (n div 2)\<rparr>, ''PCML'', Some (audioOut 2 True st pl))
          else if codec = CodecAACLATM then
            (st1\<lparr>lpAudioTS := lpAudioTS st + 1024\<rparr>, ''MPEG4-GENERIC'', Some (audioOut 0 False st pl))
          else (st, [], None)))"

definition legacyProducer :: legacy_producer where
  "legacyProducer = \<lparr>lpVideoSeq = 0, lpAudioSeq = 0, lpAudioTS = 0, lpRecv = 0\<rparr>"

text \<open>The loop of \<open>Start\<close> on the packets that are read, each with the time: what the receivers get.\<close>

fun legacyStart ::
  "string list \<Rightarrow> (u32 \<times> bytes \<times> bytes) list \<Rightarrow> legacy_producer \<Rightarrow> (legacy_producer \<times> (nat \<times> rtp_packet option) list) option" where
  "legacyStart names [] st = Some (st, [])"
| "legacyStart names ((now, p) # ps) st =
     (case legacyStep now p st of
        None \<Rightarrow> None
      | Some (st1, name, rtp) \<Rightarrow>
          map_option (\<lambda>(st2, outs). (st2, (case receiver_of names name of Some i \<Rightarrow> (i, rtp) # outs | None \<Rightarrow> outs)))
            (legacyStart names ps st1))"

text \<open>
  \<open>Dial\<close>: the client, the start with the subtype of the URL, and the probe. Whatever fails behind
  the client closes it; a panic does not.
\<close>

definition legacyDial ::
  "('s, 'e) miss_conn \<Rightarrow> cipher \<Rightarrow> (nat \<Rightarrow> nat) \<Rightarrow> (bytes \<Rightarrow> media_codec) \<Rightarrow> (bytes \<Rightarrow> media_codec) \<Rightarrow>
   (bytes \<Rightarrow> bytes \<Rightarrow> bytes) \<Rightarrow> (string \<Rightarrow> string \<Rightarrow> string \<Rightarrow> string \<Rightarrow> 'e + 's) \<Rightarrow> bytes list \<Rightarrow>
   (string \<times> (string \<rightharpoonup> string)) option \<Rightarrow> ('s option \<times> ('e legacy_error + legacy_client \<times> media list)) option" where
  "legacyDial io nc grow c4 c5 precompute dial spares url =
     (case legacyNewClient io precompute dial url of
        None \<Rightarrow> None
      | Some (os, Inl e) \<Rightarrow> Some (os, Inl e)
      | Some (None, Inr c) \<Rightarrow> None
      | Some (Some s, Inr c) \<Rightarrow>
          (case legacyStartMedia io c s (case url of None \<Rightarrow> [] | Some (h, q) \<Rightarrow> param q ''subtype'') of
             (s1, Some e) \<Rightarrow> Some (Some (ioClose io s1), Inl e)
           | (s1, None) \<Rightarrow>
               (case legacyProbe io nc c grow c4 c5 spares s1 (None, None) of
                  None \<Rightarrow> None
                | Some (s2, LProbed medias) \<Rightarrow> Some (Some s2, Inr (c, medias))
                | Some (s2, LProbeFail e) \<Rightarrow> Some (Some (ioClose io s2), Inl e)
                | Some (s2, LProbePanic) \<Rightarrow> Some (Some s2, Inl LPanic))))"

subsection \<open>The scrambled blocks of a video packet\<close>

text \<open>What a byte is combined with: 16 bytes from \<open>i\<close> on, then again after every 160 bytes.\<close>

definition block_mask :: "(nat \<Rightarrow> u8) \<Rightarrow> nat \<Rightarrow> nat \<Rightarrow> nat \<Rightarrow> nat \<Rightarrow> u8" where
  "block_mask ks lo n i q =
     (if lo + i \<le> q \<and> (q - lo - i) mod 160 < 16 \<and> q - lo - (q - lo - i) mod 160 + 16 < n
      then ks ((q - lo - i) mod 160) else 0)"

definition masked :: "(nat \<Rightarrow> u8) \<Rightarrow> bytes \<Rightarrow> bytes" where
  "masked f b = map (\<lambda>q. b ! q XOR f q) [0..<length b]"

lemma length_masked [simp]: "length (masked f b) = length b"
  by (simp add: masked_def)

lemma nth_masked [simp]: "q < length b \<Longrightarrow> masked f b ! q = b ! q XOR f q"
  by (simp add: masked_def)

lemma masked_twice: "masked f (masked f b) = b"
  by (rule nth_equalityI) (simp_all add: xor.assoc)

lemma nth_go_copy:
  "off + length src \<le> length b \<Longrightarrow> q < length b \<Longrightarrow>
   go_copy b off src ! q = (if off \<le> q \<and> q < off + length src then src ! (q - off) else b ! q)"
  by (auto simp: go_copy_def Let_def nth_append min_def)

lemma nth_xorKeyStream: "q < length src \<Longrightarrow> xorKeyStream ks src ! q = src ! q XOR ks q"
  by (simp add: xorKeyStream_def)

lemma block_mask_step:
  assumes "i + 16 < n"
  shows "block_mask ks lo n i q =
    (if lo + i \<le> q \<and> q < lo + i + 16 then ks (q - lo - i) else block_mask ks lo n (i + 160) q)"
proof -
  consider (before) "q < lo + i" | (inside) "lo + i \<le> q" "q < lo + i + 160" | (after) "lo + i + 160 \<le> q" by linarith
  then show ?thesis
  proof cases
    case before
    then show ?thesis by (simp add: block_mask_def)
  next
    case inside
    then have "(q - lo - i) mod 160 = q - lo - i" by simp
    then show ?thesis using inside assms by (auto simp: block_mask_def)
  next
    case after
    define d where "d = q - lo - (i + 160)"
    have d: "q - lo - i = d + 160" using after by (simp add: d_def)
    then show ?thesis using after unfolding block_mask_def d d_def [symmetric] by simp
  qed
qed

lemma videoLoop_bytes:
  assumes "nc key (nonce12 nonce8) = Some ks" "lo + n \<le> length b"
  shows "videoLoop nc nonce8 key lo n i b = (Inr (masked (block_mask ks lo n i) b) :: 'e miss_error + bytes)"
  using assms(2)
proof (induction "n - i" arbitrary: i b rule: less_induct)
  case less
  show ?case
  proof (cases "i + 16 < n")
    case False
    have "block_mask ks lo n i q = 0" for q
    proof -
      have "\<not> q - lo - (q - lo - i) mod 160 + 16 < n" if "lo + i \<le> q"
        using False that mod_less_eq_dividend [of "q - lo - i" 160] by linarith
      then show ?thesis by (auto simp: block_mask_def)
    qed
    then have "masked (block_mask ks lo n i) b = b" by (intro nth_equalityI) simp_all
    then show ?thesis using False by (subst videoLoop.simps) simp
  next
    case True
    let ?x = "xorKeyStream ks (take 16 (drop (lo + i) b))"
    let ?b = "go_copy b (lo + i) ?x"
    have x: "length ?x = 16" using True less.prems by simp
    then have l: "length ?b = length b" using True less.prems by simp
    have "n - (i + 160) < n - i" using True by simp
    from less.hyps [OF this, of ?b] less.prems l
    have "videoLoop nc nonce8 key lo n (i + 160) ?b = (Inr (masked (block_mask ks lo n (i + 160)) ?b) :: 'e miss_error + bytes)"
      by simp
    moreover have "masked (block_mask ks lo n (i + 160)) ?b = masked (block_mask ks lo n i) b"
    proof (rule nth_equalityI)
      fix q assume "q < length (masked (block_mask ks lo n (i + 160)) ?b)"
      then have q: "q < length b" using l by simp
      have "?b ! q = (if lo + i \<le> q \<and> q < lo + i + 16 then b ! q XOR ks (q - lo - i) else b ! q)"
        using nth_go_copy [of "lo + i" ?x b q] q x True less.prems
        by (auto simp: nth_xorKeyStream diff_diff_add)
      moreover have "block_mask ks lo n (i + 160) q = 0" if "q < lo + i + 16" using that by (simp add: block_mask_def)
      ultimately show "masked (block_mask ks lo n (i + 160)) ?b ! q = masked (block_mask ks lo n i) b ! q"
        using q l True by (auto simp: block_mask_step)
    qed (use l in simp)
    ultimately show ?thesis using True assms(1) by (subst videoLoop.simps) (simp add: decodeNonce_def)
  qed
qed

text \<open>The two numbers of the header.\<close>

definition video_packet :: "bytes \<Rightarrow> nat \<Rightarrow> nat \<Rightarrow> bytes \<Rightarrow> bytes" where
  "video_packet nonce8 lo n body = nonce8 @ [1] @ le32 (of_nat lo) @ le32 (of_nat n) @ body"

lemma video_packet_view:
  assumes "length nonce8 = 8"
  shows "length (video_packet nonce8 lo n body) = 17 + length body" "video_packet nonce8 lo n body ! 8 = 1"
    "drop 17 (video_packet nonce8 lo n body) = body" "take 8 (video_packet nonce8 lo n body) = nonce8"
    "get_le32 (drop 9 (video_packet nonce8 lo n body)) = of_nat lo"
    "get_le32 (drop 13 (video_packet nonce8 lo n body)) = of_nat n"
    "slice_cap 0 4 (video_packet nonce8 lo n body) spare = Some (take 4 nonce8)"
  using assms by (simp_all add: video_packet_def nth_append slice_cap_def)

lemma DecodeVideo_packet:
  assumes "length nonce8 = 8" "take 4 nonce8 \<noteq> [0, 0, 0, 1]" "lo + n < 2 ^ 32"
  shows "(DecodeVideo nc (video_packet nonce8 lo n body) spare key :: 'e legacy_error + bytes) =
    (if length body + length spare < lo + n then Inl LPanic
     else case videoLoop nc nonce8 key lo n 32 (body @ spare) of
       Inl e \<Rightarrow> Inl (LMiss e) | Inr b \<Rightarrow> Inr (take (length body) b))"
proof -
  have u: "unat (of_nat lo :: u32) = lo" "unat (of_nat lo + of_nat n :: u32) = lo + n"
    using assms(3) by (simp_all add: unsigned_of_nat take_bit_nat_eq_self flip: of_nat_add)
  have "17 + length body - 17 = length body" by simp
  then show ?thesis
    unfolding DecodeVideo_def Let_def video_packet_view [OF assms(1)] using assms(2) u
    by (simp only: u) (simp add: not_less)
qed

text \<open>
  Claim C30. \<open>DecodeVideo\<close> undoes what the camera does to a video packet: in the part that the
  header names, 16 bytes of every 160, from the 32nd on, are combined with the key stream of the
  packet's nonce, and all other bytes stay as they are. But the sizes are not checked: a payload of
  less than 9 bytes without a start code, and a header whose part goes beyond the buffer, is a
  panic.
\<close>

theorem legacy_video:
  assumes "nc key (nonce12 nonce8) = Some ks" "length nonce8 = 8" "take 4 nonce8 \<noteq> [0, 0, 0, 1]" "lo + n < 2 ^ 32"
  shows "(lo + n \<le> length body \<longrightarrow>
      DecodeVideo nc (video_packet nonce8 lo n (masked (block_mask ks lo n 32) body)) spare key =
        (Inr body :: 'e legacy_error + bytes)) \<and>
    (length body + length spare < lo + n \<longrightarrow>
      DecodeVideo nc (video_packet nonce8 lo n body) spare key = (Inl LPanic :: 'e legacy_error + bytes)) \<and>
    (\<forall>data. length data < 9 \<and> slice_cap 0 4 data spare \<noteq> Some [0, 0, 0, 1] \<longrightarrow>
      DecodeVideo nc data spare key = (Inl LPanic :: 'e legacy_error + bytes))"
proof (intro conjI impI allI)
  assume l: "lo + n \<le> length body"
  let ?m = "block_mask ks lo n 32"
  have "videoLoop nc nonce8 key lo n 32 (masked ?m body @ spare) =
      (Inr (masked ?m (masked ?m body @ spare)) :: 'e miss_error + bytes)"
    by (rule videoLoop_bytes) (use assms(1) l in simp_all)
  moreover have "take (length body) (masked ?m (masked ?m body @ spare)) = body"
    by (rule nth_equalityI) (simp_all add: nth_append xor.assoc)
  ultimately show "DecodeVideo nc (video_packet nonce8 lo n (masked ?m body)) spare key =
      (Inr body :: 'e legacy_error + bytes)"
    using l by (simp add: DecodeVideo_packet [OF assms(2-4)])
next
  assume "length body + length spare < lo + n"
  then show "DecodeVideo nc (video_packet nonce8 lo n body) spare key = (Inl LPanic :: 'e legacy_error + bytes)"
    by (simp add: DecodeVideo_packet [OF assms(2-4)])
next
  fix data assume "length data < 9 \<and> slice_cap 0 4 data spare \<noteq> Some [0, 0, 0, 1]"
  then show "DecodeVideo nc data spare key = (Inl LPanic :: 'e legacy_error + bytes)"
    by (simp add: DecodeVideo_def)
qed

theorem legacy_video_witness:
  "DecodeVideo (\<lambda>k n. Some (\<lambda>i. 5)) (video_packet [9, 9, 9, 9, 9, 9, 9, 9] 0 49 (replicate 32 1 @ replicate 16 4 @ [1, 1])) [] [] =
    (Inr (replicate 50 1) :: unit legacy_error + bytes)"
proof -
  have "masked (block_mask (\<lambda>i. 5) 0 49 32) (replicate 50 1) = replicate 32 1 @ replicate 16 4 @ [1, 1]"
    by (rule nth_equalityI) (auto simp: block_mask_def nth_append nth_Cons' less_diff_conv)
  then show ?thesis
    using legacy_video [where 'e = unit, of "\<lambda>k n. Some (\<lambda>i. 5)" "[]" "[9, 9, 9, 9, 9, 9, 9, 9]" "\<lambda>i. 5" 0 49 "replicate 50 1" "[]"]
    by simp
qed

subsection \<open>The login of Xiaofang cameras\<close>

lemma get_le32_front: "4 \<le> length a \<Longrightarrow> get_le32 (a @ r) = get_le32 a"
  by (cases a rule: get_le32.cases) simp_all

lemma words_of_front:
  assumes "length a = 16"
  shows "words_of 4 (a @ r) = words_of 4 a"
proof -
  have "get_le32 (drop (4 * i) (a @ r)) = get_le32 (drop (4 * i) a)" if "i < 4" for i
    using assms that by (simp add: get_le32_front)
  then show ?thesis using assms by (simp add: words_of_def del: upt_rec_numeral)
qed

lemma XXTEADecrypt_front:
  assumes "length a = 16"
  shows "XXTEADecrypt (a @ r) (a @ r) key = map_option (\<lambda>d. d @ r) (XXTEADecrypt a a key)"
  using assms by (auto simp: XXTEADecrypt_def words_of_front Let_def split: option.split)

lemma XXTEADecrypt_short: "length src < 16 \<or> length key < 16 \<Longrightarrow> XXTEADecrypt dst src key = None"
  by (auto simp: XXTEADecrypt_def words_of_def split: option.split)

lemma XXTEADecrypt_encrypted:
  assumes "length v = 4" "16 \<le> length key" "k = map (\<lambda>i. get_le32 (drop (i * 4) key)) [0..<4]"
    "msg = bytes_of_words (xxtea_encrypt 19 0 k v)"
  shows "XXTEADecrypt msg msg key = Some (bytes_of_words v)" "length msg = 16"
proof -
  define w where "w = xxtea_encrypt 19 0 k v"
  have w: "varOuter 19 (of_nat 19 * delta) k w (w ! 0) = v" "length w = 4"
    using varOuter_encrypt [of v 19 0 k] assms(1) by (simp_all only: w_def Let_def add_0)
  have "words_of 4 msg = Some w"
    using words_of_bytes_of_words [of w] w(2) words_of_exact [of 4 msg] by (simp add: assms(4) w_def [symmetric] del: upt_rec_numeral)
  moreover have "words_of 4 key = Some k" using assms(2,3) words_of_exact [of 4 key] by (simp del: upt_rec_numeral)
  moreover show "length msg = 16" using w(2) by (simp add: assms(4) w_def)
  moreover have "decOuter 19 (of_nat 19 * delta) k w = v" using decOuter_var w by simp
  ultimately show "XXTEADecrypt msg msg key = Some (bytes_of_words v)" by (simp add: XXTEADecrypt_def Let_def)
qed

text \<open>
  Claim C31. The answer to the login of a Xiaofang camera is the camera's challenge: when the
  camera sends four words encrypted with the password, the reply carries those words, the rest of
  the message and seven fixed bytes. A password of less than 16 characters, or a request of less
  than 40 bytes, is a panic.
\<close>

theorem legacy_login:
  assumes "length v = 4" "16 \<le> length password" "length hdr = 24"
    "k = map (\<lambda>i. get_le32 (drop (i * 4) password)) [0..<4]"
  shows "loginReply password (hdr @ bytes_of_words (xxtea_encrypt 19 0 k v) @ rest) =
      ICAM 0x0400c0 (bytes_of_words v @ rest @ [0, 0, 0, 0, 1, 1, 1]) \<and>
    (\<forall>pw data. length pw < 16 \<or> length data < 40 \<longrightarrow> loginReply pw data = None)"
proof -
  note x = XXTEADecrypt_encrypted [OF assms(1,2,4) refl]
  have "loginReply password (hdr @ bytes_of_words (xxtea_encrypt 19 0 k v) @ rest) =
      ICAM 0x0400c0 (bytes_of_words v @ rest @ [0, 0, 0, 0, 1, 1, 1])"
    using assms(3) x by (simp add: loginReply_def slice_from_def XXTEADecrypt_front [OF x(2)])
  moreover have "loginReply pw data = None" if "length pw < 16 \<or> length data < 40" for pw data
  proof (cases "length data < 24")
    case False
    then have "length (drop 24 data) < 16 \<or> length pw < 16" using that by auto
    from XXTEADecrypt_short [OF this] show ?thesis by (simp add: loginReply_def slice_from_def)
  qed (simp add: loginReply_def slice_from_def)
  ultimately show ?thesis by blast
qed

theorem legacy_login_witness:
  "loginReply (replicate 16 7) (replicate 24 0 @ bytes_of_words (xxtea_encrypt 19 0 (map (\<lambda>i. get_le32 (drop (i * 4)
     (replicate 16 7))) [0..<4]) [1, 2, 3, 4]) @ []) = ICAM 0x0400c0 (bytes_of_words [1, 2, 3, 4] @ [] @ [0, 0, 0, 0, 1, 1, 1])"
proof -
  have l: "length [1, 2, 3, 4 :: u32] = 4" "16 \<le> length (replicate 16 (7 :: u8))" "length (replicate 24 (0 :: u8)) = 24"
    by simp_all
  show ?thesis using legacy_login [OF l refl, of "[]"] by blast
qed

subsection \<open>Models that cannot be started\<close>

text \<open>
  Of the models that \<open>Supported\<close> names, \<open>StartMedia\<close> knows all but \<open>loock.cateye.v01\<close>: \<open>Dial\<close>
  opens no producer for that model, whatever its URL and the camera say. When the client is made,
  the connection is closed again.
\<close>

lemma legacy_supported:
  "Supported ModelLoockV1 \<and>
   (\<forall>model video. Supported model \<longrightarrow> (startCommands model video = None \<longleftrightarrow> model = ModelLoockV1)) \<and>
   (\<forall>(io :: ('s, 'e) miss_conn) nc grow c4 c5 precompute dial spares host q os r.
      param q ''model'' = ModelLoockV1 \<longrightarrow>
      legacyDial io nc grow c4 c5 precompute dial spares (Some (host, q)) = Some (os, r) \<longrightarrow> (\<exists>e. r = Inl e))"
proof (intro conjI allI impI)
  show "Supported ModelLoockV1" by (simp add: Supported_def)
  fix model video assume "Supported model"
  then show "startCommands model video = None \<longleftrightarrow> model = ModelLoockV1"
    by (auto simp: Supported_def startCommands_def legacy_models)
next
  fix io :: "('s, 'e) miss_conn" and nc grow c4 c5 precompute dial spares host q os r
  assume m: "param q ''model'' = ModelLoockV1"
    and d: "legacyDial io nc grow c4 c5 precompute dial spares (Some (host, q)) = Some (os, r)"
  have "startCommands ModelLoockV1 v = None" for v by (simp add: startCommands_def legacy_models)
  moreover have "lmodel c = ModelLoockV1"
    if "legacyNewClient io precompute dial (Some (host, q)) = Some (os', Inr c)" for os' c
    using that m by (auto simp: legacyNewClient_def Let_def legacy_models split: sum.splits option.splits if_splits prod.splits)
  ultimately show "\<exists>e. r = Inl e"
    using d by (auto simp: legacyDial_def legacyStartMedia_def split: option.splits sum.splits prod.splits)
qed

definition silent_conn :: "(bool, unit) miss_conn" where
  "silent_conn = \<lparr>ioReadCommand = \<lambda>s. None, ioWriteCommand = \<lambda>s c d. (s, None), ioReadPacket = \<lambda>s. None,
     ioWritePacket = \<lambda>s h p. (s, None), ioClose = \<lambda>s. False\<rparr>"

end
