(* ===== verification/TutkFrame.thy ===== *)
theory TutkFrame
  imports Aac TutkSession
begin

section \<open>Frames of Wyze cameras\<close>

text \<open>
  Models \<open>pkg/tutk/frame.go\<close> and \<open>codec.go\<close>: the packets of a camera are put together to video frames and
  audio packets, which wait in a channel for the reader. The handler is a record; the channel is
  the list of its elements, with room for 128. What \<open>verbose\<close> prints is left out, but \<open>dumpHex\<close> is
  there.
\<close>

subsection \<open>Codecs\<close>

definition CodecMPEG4 :: u8 where "CodecMPEG4 = 0x4C"
definition CodecH265u :: u8 where "CodecH265u = 0x50"
definition CodecAACRaw :: u8 where "CodecAACRaw = 0x86"
definition CodecAACADTS :: u8 where "CodecAACADTS = 0x87"
definition CodecAACLATMu :: u8 where "CodecAACLATMu = 0x88"
definition CodecMP3 :: u8 where "CodecMP3 = 0x8E"
definition CodecAACAlt :: u8 where "CodecAACAlt = 0x90"
definition CodecOpus :: u8 where "CodecOpus = 0x92"

lemmas frame_codecs = CodecMPEG4_def CodecH265u_def CodecAACRaw_def CodecAACADTS_def CodecAACLATMu_def CodecMP3_def
  CodecAACAlt_def CodecOpus_def

definition sampleRates :: "u32 list" where
  "sampleRates = [8000, 11025, 12000, 16000, 22050, 24000, 32000, 44100, 48000]"

definition GetSampleRateIndex :: "u32 \<Rightarrow> u8" where
  "GetSampleRateIndex rate = (case find (\<lambda>i. sampleRates ! i = rate) [0..<9] of Some i \<Rightarrow> of_nat i | None \<Rightarrow> 3)"

definition GetSamplesPerFrame :: "u8 \<Rightarrow> u32" where
  "GetSamplesPerFrame codecID =
     (if codecID \<in> {CodecAACRaw, CodecAACADTS, CodecAACLATMu, CodecAACAlt} then 1024
      else if codecID \<in> {0x89, 0x8A, 0x8C, 0x8B, 0x8D, 0x8F} then 160
      else if codecID = CodecMP3 then 1152
      else if codecID = CodecOpus then 960
      else 1024)"

definition IsVideoCodec :: "u8 \<Rightarrow> bool" where
  "IsVideoCodec c \<longleftrightarrow> CodecMPEG4 \<le> c \<and> c \<le> CodecH265u"

definition IsAudioCodec :: "u8 \<Rightarrow> bool" where
  "IsAudioCodec c \<longleftrightarrow> CodecAACRaw \<le> c \<and> c \<le> CodecOpus"

subsection \<open>The information of a frame\<close>

definition frameInfoSize :: nat where "frameInfoSize = 40"

record frame_info =
  fiCodecID :: u8
  fiFlags :: u8
  fiCamIndex :: u8
  fiOnlineNum :: u8
  fiFPS :: u8
  fiResTier :: u8
  fiBitrate :: u8
  fiTimestamp :: u32
  fiSessionID :: u32
  fiPayloadSize :: u32
  fiFrameNo :: u32

definition IsKeyframe :: "frame_info \<Rightarrow> bool" where
  "IsKeyframe fi \<longleftrightarrow> fiFlags fi = 1"

definition fiSampleRate :: "frame_info \<Rightarrow> u32" where
  "fiSampleRate fi = (let i = drop_bit 2 (fiFlags fi) AND 0x0F in if unat i < 9 then sampleRates ! unat i else 16000)"

definition fiChannels :: "frame_info \<Rightarrow> u8" where
  "fiChannels fi = (if fiFlags fi AND 1 = 1 then 2 else 1)"

definition ParseFrameInfo :: "bytes \<Rightarrow> frame_info option" where
  "ParseFrameInfo data =
     (if length data < frameInfoSize then None
      else
        let fi = drop (length data - frameInfoSize) data in
        Some \<lparr>fiCodecID = fi ! 0, fiFlags = fi ! 2, fiCamIndex = fi ! 3, fiOnlineNum = fi ! 4, fiFPS = fi ! 5,
              fiResTier = fi ! 6, fiBitrate = fi ! 7, fiTimestamp = get_le32 (drop 8 fi), fiSessionID = get_le32 (drop 12 fi),
              fiPayloadSize = get_le32 (drop 16 fi), fiFrameNo = get_le32 (drop 20 fi)\<rparr>)"

text \<open>\<open>dumpHex\<close>: the fields that were kept, as hexadecimal bytes with blanks between them.\<close>

definition frameInfoBytes :: "frame_info \<Rightarrow> bytes" where
  "frameInfoBytes fi =
     [fiCodecID fi, 0, fiFlags fi, fiCamIndex fi, fiOnlineNum fi, fiFPS fi, fiResTier fi, fiBitrate fi] @
     le32 (fiTimestamp fi) @ le32 (fiSessionID fi) @ le32 (fiPayloadSize fi) @ le32 (fiFrameNo fi) @ replicate 16 0"

fun spaced :: "string \<Rightarrow> string" where
  "spaced (a # b # c # cs) = a # b # CHR '' '' # spaced (c # cs)"
| "spaced s = s"

definition dumpHex :: "frame_info \<Rightarrow> string" where
  "dumpHex fi = spaced (hex_text (frameInfoBytes fi))"

subsection \<open>The header of a packet\<close>

definition FrameTypeStart :: u8 where "FrameTypeStart = 0x08"
definition FrameTypeStartAlt :: u8 where "FrameTypeStartAlt = 0x09"
definition FrameTypeCont :: u8 where "FrameTypeCont = 0x00"
definition FrameTypeContAlt :: u8 where "FrameTypeContAlt = 0x04"
definition FrameTypeEndSingle :: u8 where "FrameTypeEndSingle = 0x01"
definition FrameTypeEndMulti :: u8 where "FrameTypeEndMulti = 0x05"
definition FrameTypeEndExt :: u8 where "FrameTypeEndExt = 0x0d"

lemmas frame_types = FrameTypeStart_def FrameTypeStartAlt_def FrameTypeCont_def FrameTypeContAlt_def FrameTypeEndSingle_def
  FrameTypeEndMulti_def FrameTypeEndExt_def

definition ChannelIVideo :: u8 where "ChannelIVideo = 0x05"
definition ChannelAudio :: u8 where "ChannelAudio = 0x03"
definition ChannelPVideo :: u8 where "ChannelPVideo = 0x07"

lemmas frame_channels = ChannelIVideo_def ChannelAudio_def ChannelPVideo_def

definition IsStartFrame :: "u8 \<Rightarrow> bool" where
  "IsStartFrame t \<longleftrightarrow> t = FrameTypeStart \<or> t = FrameTypeStartAlt"

definition IsEndFrame :: "u8 \<Rightarrow> bool" where
  "IsEndFrame t \<longleftrightarrow> t = FrameTypeEndSingle \<or> t = FrameTypeEndMulti \<or> t = FrameTypeEndExt"

definition IsContinuationFrame :: "u8 \<Rightarrow> bool" where
  "IsContinuationFrame t \<longleftrightarrow> t = FrameTypeCont \<or> t = FrameTypeContAlt"

record packet_header =
  phChannel :: u8
  phFrameType :: u8
  phHeaderSize :: nat
  phFrameNo :: u32
  phPktIdx :: u16
  phPktTotal :: u16
  phPayloadSize :: u16
  phHasFrameInfo :: bool

text \<open>The fields of a header from the position \<open>off\<close> on; the mark 0x0028 stands for the last index.\<close>

definition headerFields :: "bytes \<Rightarrow> nat \<Rightarrow> nat \<Rightarrow> packet_header" where
  "headerFields data hsz off =
     (let total = get_le16 (drop off data); idx = get_le16 (drop (off + 2) data);
          info = (idx = 0x0028 \<and> (IsEndFrame (data ! 1) \<or> total = 1))
      in \<lparr>phChannel = data ! 0, phFrameType = data ! 1, phHeaderSize = hsz, phFrameNo = get_le32 (drop (off + 12) data),
          phPktIdx = (if info then (if total > 0 then total - 1 else 0) else idx), phPktTotal = total,
          phPayloadSize = get_le16 (drop (off + 4) data), phHasFrameInfo = info\<rparr>)"

definition ParsePacketHeader :: "bytes \<Rightarrow> packet_header option" where
  "ParsePacketHeader data =
     (if length data < 28 then None
      else if IsStartFrame (data ! 1) \<or> data ! 1 = FrameTypeEndExt then
        (if length data < 36 then None else Some (headerFields data 36 20))
      else Some (headerFields data 28 12))"

text \<open>\<open>extractPayload\<close>: \<open>None\<close> is \<open>nil\<close>.\<close>

definition extractPayload :: "bytes \<Rightarrow> u8 \<Rightarrow> (bytes \<times> frame_info option) option" where
  "extractPayload data channel =
     (if length data < 2 then None
      else
        let t = data ! 1;
            headerSize = (if IsStartFrame t \<or> t = FrameTypeEndExt then 36 else 28 :: nat);
            fiSize = (if IsEndFrame t \<or> t = FrameTypeStartAlt \<and> 22 \<le> length data \<and> get_le16 (drop 20 data) = 1
                      then frameInfoSize else 0)
        in if length data < headerSize then None
           else if fiSize = 0 \<or> length data < headerSize + fiSize then Some (drop headerSize data, None)
           else case ParseFrameInfo data of
             None \<Rightarrow> None
           | Some fi \<Rightarrow>
               if (channel = ChannelIVideo \<or> channel = ChannelPVideo) \<and> IsVideoCodec (fiCodecID fi) \<or>
                  channel = ChannelAudio \<and> IsAudioCodec (fiCodecID fi)
               then Some (take (length data - fiSize - headerSize) (drop headerSize data), Some fi)
               else Some (drop headerSize data, None))"

subsection \<open>Time\<close>

definition tsWrapPeriod :: u32 where "tsWrapPeriod = 1000000"

record ts_tracker =
  lastRawTS :: u32
  accumUS :: u64
  firstTS :: bool

definition newTracker :: ts_tracker where
  "newTracker = \<lparr>lastRawTS = 0, accumUS = 0, firstTS = False\<rparr>"

definition tsUpdate :: "u32 \<Rightarrow> ts_tracker \<Rightarrow> u64 \<times> ts_tracker" where
  "tsUpdate rawTS t =
     (if \<not> firstTS t then (0, t\<lparr>lastRawTS := rawTS, firstTS := True\<rparr>)
      else
        let delta = (if rawTS \<ge> lastRawTS t then rawTS - lastRawTS t else (tsWrapPeriod - lastRawTS t) + rawTS);
            t' = t\<lparr>lastRawTS := rawTS, accumUS := accumUS t + ucast delta\<rparr>
        in (accumUS t', t'))"

subsection \<open>The handler\<close>

record frame_packet =
  fpChannel :: u8
  fpCodec :: u8
  fpTimestamp :: u32
  fpPayload :: bytes
  fpIsKeyframe :: bool
  fpFrameNo :: u32
  fpSampleRate :: u32
  fpChannels :: u8

record channel_state =
  csFrameNo :: u32
  csPktTotal :: u16
  csWaitSeq :: u16
  csWaitData :: bytes
  csFrameInfo :: "frame_info option"
  csHasStarted :: bool
  csLastPktIdx :: u16

definition csReset :: channel_state where
  "csReset = \<lparr>csFrameNo = 0, csPktTotal = 0, csWaitSeq = 0, csWaitData = [], csFrameInfo = None, csHasStarted = False,
     csLastPktIdx = 0\<rparr>"

record frame_handler =
  fhChannels :: "u8 \<rightharpoonup> channel_state"
  fhVideoTS :: ts_tracker
  fhAudioTS :: ts_tracker
  fhOutput :: "frame_packet list"
  fhClosed :: bool

definition NewFrameHandler :: frame_handler where
  "NewFrameHandler = \<lparr>fhChannels = \<lambda>c. None, fhVideoTS = newTracker, fhAudioTS = newTracker, fhOutput = [], fhClosed = False\<rparr>"

definition fhClose :: "frame_handler \<Rightarrow> frame_handler" where
  "fhClose h = h\<lparr>fhClosed := True\<rparr>"

text \<open>\<open>queue\<close>: a full channel loses its oldest element.\<close>

definition fhQueue :: "frame_packet \<Rightarrow> frame_handler \<Rightarrow> frame_handler" where
  "fhQueue pkt h =
     (if fhClosed h then h
      else if length (fhOutput h) < 128 then h\<lparr>fhOutput := fhOutput h @ [pkt]\<rparr>
      else h\<lparr>fhOutput := tl (fhOutput h) @ [pkt]\<rparr>)"

text \<open>\<open>handleVideo\<close> up to the complete frame: the state of the channel, and the frame with its information.\<close>

definition assembleVideo ::
  "packet_header \<Rightarrow> bytes \<Rightarrow> frame_info option \<Rightarrow> channel_state \<Rightarrow> channel_state \<times> (frame_info \<times> bytes) option" where
  "assembleVideo hdr pl fi cs0 =
     (let cs = (if phFrameNo hdr \<noteq> csFrameNo cs0 then csReset\<lparr>csFrameNo := phFrameNo hdr, csPktTotal := phPktTotal hdr\<rparr>
                else cs0)
      in if phPktIdx hdr \<noteq> csWaitSeq cs then (csReset, None)
         else
           let data = csWaitData cs @ pl; sq = csWaitSeq cs + 1;
               info = (case fi of None \<Rightarrow> csFrameInfo cs | Some f \<Rightarrow> Some f);
               cs' = cs\<lparr>csHasStarted := csHasStarted cs \<or> csWaitSeq cs = 0, csWaitData := data, csWaitSeq := sq, csFrameInfo := info\<rparr>
           in case info of
                None \<Rightarrow> (cs', None)
              | Some f \<Rightarrow>
                  if sq \<noteq> csPktTotal cs then (cs', None)
                  else (csReset,
                        if fiPayloadSize f > 0 \<and> of_nat (length data) \<noteq> fiPayloadSize f then None
                        else if data = [] then None
                        else Some (f, data)))"

definition channelOf :: "u8 \<Rightarrow> frame_handler \<Rightarrow> channel_state" where
  "channelOf ch h = (case fhChannels h ch of None \<Rightarrow> csReset | Some cs \<Rightarrow> cs)"

definition handleVideo :: "u8 \<Rightarrow> packet_header \<Rightarrow> bytes \<Rightarrow> frame_info option \<Rightarrow> frame_handler \<Rightarrow> frame_handler" where
  "handleVideo ch hdr pl fi h =
     (case assembleVideo hdr pl fi (channelOf ch h) of
        (cs, out) \<Rightarrow>
          let h1 = h\<lparr>fhChannels := (fhChannels h)(ch \<mapsto> cs)\<rparr> in
          (case out of
             None \<Rightarrow> h1
           | Some (f, data) \<Rightarrow>
               (case tsUpdate (fiTimestamp f) (fhVideoTS h1) of
                  (us, t) \<Rightarrow>
                    fhQueue \<lparr>fpChannel = ch, fpCodec = fiCodecID f, fpTimestamp = ucast (us * 90000 div 1000000),
                             fpPayload = data, fpIsKeyframe = IsKeyframe f, fpFrameNo = fiFrameNo f,
                             fpSampleRate = 0, fpChannels = 0\<rparr> (h1\<lparr>fhVideoTS := t\<rparr>))))"

definition parseAudioParams :: "(nat \<Rightarrow> nat) \<Rightarrow> bytes \<Rightarrow> frame_info option \<Rightarrow> u32 \<times> u8" where
  "parseAudioParams grow pl fi =
     (case (if IsADTS pl then ADTSToCodec grow pl else None) of
        Some c \<Rightarrow> (acRate c, acChannels c)
      | None \<Rightarrow> (case fi of Some f \<Rightarrow> (fiSampleRate f, fiChannels f) | None \<Rightarrow> (16000, 1)))"

definition handleAudio :: "(nat \<Rightarrow> nat) \<Rightarrow> bytes \<Rightarrow> frame_info option \<Rightarrow> frame_handler \<Rightarrow> frame_handler" where
  "handleAudio grow pl fi h =
     (case fi of
        None \<Rightarrow> h
      | Some f \<Rightarrow>
          if pl = [] then h
          else
            let (rate, channels) =
                  (if fiCodecID f \<in> {CodecAACRaw, CodecAACADTS, CodecAACLATMu, CodecAACAlt} then parseAudioParams grow pl fi
                   else (fiSampleRate f, fiChannels f));
                (us, t) = tsUpdate (fiTimestamp f) (fhAudioTS h)
            in fhQueue \<lparr>fpChannel = ChannelAudio, fpCodec = fiCodecID f, fpTimestamp = ucast (us * ucast rate div 1000000),
                        fpPayload = pl, fpIsKeyframe = False, fpFrameNo = fiFrameNo f, fpSampleRate = rate,
                        fpChannels = channels\<rparr> (h\<lparr>fhAudioTS := t\<rparr>))"

definition Handle :: "(nat \<Rightarrow> nat) \<Rightarrow> bytes \<Rightarrow> frame_handler \<Rightarrow> frame_handler" where
  "Handle grow data h =
     (case ParsePacketHeader data of
        None \<Rightarrow> h
      | Some hdr \<Rightarrow>
          (case extractPayload data (phChannel hdr) of
             None \<Rightarrow> h
           | Some (pl, fi) \<Rightarrow>
               if phChannel hdr = ChannelAudio then handleAudio grow pl fi h
               else if phChannel hdr = ChannelIVideo \<or> phChannel hdr = ChannelPVideo
               then handleVideo (phChannel hdr) hdr pl fi h
               else h))"

subsection \<open>Frames are runs of packets\<close>

type_synonym video_part = "packet_header \<times> bytes \<times> frame_info option"

text \<open>Consecutive packets with one frame number and the indices 0, 1, and so on.\<close>

definition is_frame_run :: "video_part list \<Rightarrow> bool" where
  "is_frame_run run \<longleftrightarrow> run \<noteq> [] \<and>
     (\<forall>i < length run. phPktIdx (fst (run ! i)) = of_nat i \<and> phFrameNo (fst (run ! i)) = phFrameNo (fst (hd run)))"

definition run_bytes :: "video_part list \<Rightarrow> bytes" where
  "run_bytes run = concat (map (\<lambda>p. fst (snd p)) run)"

definition run_info :: "video_part list \<Rightarrow> frame_info \<Rightarrow> bool" where
  "run_info run f \<longleftrightarrow> (\<exists>p \<in> set run. snd (snd p) = Some f)"

text \<open>A frame number of 0 is not told apart from the state of a channel without a frame.\<close>

definition run_total :: "video_part list \<Rightarrow> u16 \<Rightarrow> bool" where
  "run_total run n \<longleftrightarrow> n = phPktTotal (fst (hd run)) \<or> phFrameNo (fst (hd run)) = 0 \<and> n = 0"

text \<open>A frame that the packets of a channel hold.\<close>

definition frame_of :: "video_part list \<Rightarrow> frame_info \<Rightarrow> bytes \<Rightarrow> bool" where
  "frame_of hist f data \<longleftrightarrow>
     (\<exists>pre run post. hist = pre @ run @ post \<and> is_frame_run run \<and> run_info run f \<and> run_total run (of_nat (length run)) \<and>
        data = run_bytes run \<and> data \<noteq> [] \<and> (fiPayloadSize f > 0 \<longrightarrow> of_nat (length data) = fiPayloadSize f))"

definition assembling :: "video_part list \<Rightarrow> channel_state \<Rightarrow> bool" where
  "assembling hist cs \<longleftrightarrow>
     (\<exists>pre run. hist = pre @ run \<and> (if run = [] then cs = csReset
        else is_frame_run run \<and> csFrameNo cs = phFrameNo (fst (hd run)) \<and> run_total run (csPktTotal cs)) \<and>
        csWaitSeq cs = of_nat (length run) \<and> csWaitData cs = run_bytes run \<and>
        (\<forall>f. csFrameInfo cs = Some f \<longrightarrow> run_info run f))"

lemma is_frame_run_snoc:
  "is_frame_run (run @ [p]) \<longleftrightarrow> phPktIdx (fst p) = of_nat (length run) \<and>
     (run \<noteq> [] \<longrightarrow> is_frame_run run \<and> phFrameNo (fst p) = phFrameNo (fst (hd run)))"
  by (cases "run = []") (auto simp: is_frame_run_def nth_append less_Suc_eq hd_append)

lemma frame_of_mono: "frame_of hist f data \<Longrightarrow> frame_of (hist @ later) f data"
  unfolding frame_of_def by (metis append.assoc)

lemma assembling_reset [simp]: "assembling hist csReset"
  unfolding assembling_def by (rule exI [of _ hist], rule exI [of _ "[]"]) (simp add: csReset_def run_bytes_def)

lemma assembleVideo_step:
  assumes "assembling hist cs0" "assembleVideo hdr pl fi cs0 = (cs', out)"
  shows "assembling (hist @ [(hdr, pl, fi)]) cs' \<and>
    (\<forall>f data. out = Some (f, data) \<longrightarrow> frame_of (hist @ [(hdr, pl, fi)]) f data)"
proof -
  let ?p = "(hdr, pl, fi)"
  let ?cs = "if phFrameNo hdr \<noteq> csFrameNo cs0 then csReset\<lparr>csFrameNo := phFrameNo hdr, csPktTotal := phPktTotal hdr\<rparr> else cs0"
  obtain pre run where r: "hist = pre @ run" "csWaitSeq ?cs = of_nat (length run)" "csWaitData ?cs = run_bytes run"
      "\<forall>f. csFrameInfo ?cs = Some f \<longrightarrow> run_info run f"
    and n: "csFrameNo ?cs = phFrameNo hdr" "run \<noteq> [] \<Longrightarrow> is_frame_run run \<and> phFrameNo hdr = phFrameNo (fst (hd run))"
    and t: "run_total (run @ [?p]) (csPktTotal ?cs)"
  proof (cases "phFrameNo hdr = csFrameNo cs0")
    case True
    from assms(1) obtain pre run where r: "hist = pre @ run" "if run = [] then cs0 = csReset
        else is_frame_run run \<and> csFrameNo cs0 = phFrameNo (fst (hd run)) \<and> run_total run (csPktTotal cs0)"
      "csWaitSeq cs0 = of_nat (length run)" "csWaitData cs0 = run_bytes run" "\<forall>f. csFrameInfo cs0 = Some f \<longrightarrow> run_info run f"
      unfolding assembling_def by blast
    have "run_total (run @ [?p]) (csPktTotal cs0)"
      using r(2) True by (cases "run = []") (simp_all add: run_total_def csReset_def)
    then show ?thesis using that [of pre run] r True by (auto split: if_splits)
  next
    case False
    then show ?thesis using that [of hist "[]"]
      by (simp add: csReset_def run_bytes_def run_total_def)
  qed
  show ?thesis
  proof (cases "phPktIdx hdr = csWaitSeq ?cs")
    case False
    then show ?thesis using assms(2) by (simp add: assembleVideo_def Let_def)
  next
    case True
    let ?run = "run @ [?p]"
    define cs where "cs = ?cs"
    let ?info = "case fi of None \<Rightarrow> csFrameInfo cs | Some f \<Rightarrow> Some f"
    let ?next = "cs\<lparr>csHasStarted := csHasStarted cs \<or> csWaitSeq cs = 0, csWaitData := csWaitData cs @ pl,
      csWaitSeq := csWaitSeq cs + 1, csFrameInfo := ?info\<rparr>"
    note r = r [folded cs_def] and n = n [folded cs_def] and t = t [folded cs_def]
    have fr: "is_frame_run ?run" using True n r(2) by (simp add: is_frame_run_snoc cs_def)
    have dt: "csWaitData cs @ pl = run_bytes ?run" using r(3) by (simp add: run_bytes_def)
    have inf: "run_info ?run f" if "?info = Some f" for f
      using that r(4) by (auto simp: run_info_def split: option.splits)
    have h: "hd ?run = (if run = [] then ?p else hd run)" by simp
    have fn: "csFrameNo cs = phFrameNo (fst (hd ?run))" using n by (cases "run = []") simp_all
    have eq: "assembleVideo hdr pl fi cs0 = (case ?info of None \<Rightarrow> (?next, None)
        | Some f \<Rightarrow> if csWaitSeq cs + 1 \<noteq> csPktTotal cs then (?next, None)
            else (csReset, if fiPayloadSize f > 0 \<and> of_nat (length (run_bytes ?run)) \<noteq> fiPayloadSize f then None
                  else if run_bytes ?run = [] then None else Some (f, run_bytes ?run)))"
      unfolding assembleVideo_def Let_def dt [symmetric] cs_def [symmetric]
      by (rule if_not_P) (simp add: True cs_def)
    have nxt: "assembling (hist @ [?p]) ?next"
      unfolding assembling_def
    proof (intro exI conjI)
      show "hist @ [?p] = pre @ ?run" using r(1) by simp
      show "if ?run = [] then ?next = csReset else is_frame_run ?run \<and>
          csFrameNo ?next = phFrameNo (fst (hd ?run)) \<and> run_total ?run (csPktTotal ?next)"
        using fr fn t by simp
      show "csWaitSeq ?next = of_nat (length ?run)" using r(2) by simp
      show "csWaitData ?next = run_bytes ?run" using dt by simp
      show "\<forall>f. csFrameInfo ?next = Some f \<longrightarrow> run_info ?run f" using inf by simp
    qed
    have fin: "frame_of (hist @ [?p]) f (run_bytes ?run)"
      if "?info = Some f" "csWaitSeq cs + 1 = csPktTotal cs" "run_bytes ?run \<noteq> []"
        "fiPayloadSize f > 0 \<longrightarrow> of_nat (length (run_bytes ?run)) = fiPayloadSize f" for f
    proof -
      have "run_total ?run (of_nat (length ?run))" using t that(2) [symmetric] r(2) by (simp add: add.commute)
      then show ?thesis
        unfolding frame_of_def using r(1) fr inf that by (intro exI [of _ pre] exI [of _ ?run] exI [of _ "[]"]) simp
    qed
    show ?thesis
    proof (cases ?info)
      case None
      then have "cs' = ?next" "out = None" using assms(2) unfolding eq by simp_all
      with nxt show ?thesis by simp
    next
      case (Some f)
      show ?thesis
      proof (cases "csWaitSeq cs + 1 = csPktTotal cs")
        case False
        then have "cs' = ?next" "out = None" using assms(2) unfolding eq Some by simp_all
        with nxt show ?thesis by simp
      next
        case True
        then have "cs' = csReset" "out = (if fiPayloadSize f > 0 \<and> of_nat (length (run_bytes ?run)) \<noteq> fiPayloadSize f then None
            else if run_bytes ?run = [] then None else Some (f, run_bytes ?run))"
          using assms(2) unfolding eq Some by simp_all
        with fin [OF Some True] show ?thesis by (auto split: if_splits)
      qed
    qed
  qed
qed

subsection \<open>The handler's invariant\<close>

text \<open>The packets come one after the other, and the reader takes frames in between.\<close>

datatype frame_event = Incoming bytes | Taken

definition frameStep :: "(nat \<Rightarrow> nat) \<Rightarrow> frame_event \<Rightarrow> frame_handler \<Rightarrow> frame_handler" where
  "frameStep grow e h = (case e of Incoming data \<Rightarrow> Handle grow data h | Taken \<Rightarrow> h\<lparr>fhOutput := tl (fhOutput h)\<rparr>)"

definition frameRun :: "(nat \<Rightarrow> nat) \<Rightarrow> frame_event list \<Rightarrow> frame_handler \<Rightarrow> frame_handler" where
  "frameRun grow es h = fold (frameStep grow) es h"

definition incoming :: "frame_event list \<Rightarrow> bytes list" where
  "incoming es = List.map_filter (\<lambda>e. case e of Incoming d \<Rightarrow> Some d | Taken \<Rightarrow> None) es"

definition part_of :: "u8 \<Rightarrow> bytes \<Rightarrow> video_part option" where
  "part_of ch data =
     (case ParsePacketHeader data of
        None \<Rightarrow> None
      | Some hdr \<Rightarrow>
          if phChannel hdr \<noteq> ch then None
          else (case extractPayload data ch of None \<Rightarrow> None | Some (pl, fi) \<Rightarrow> Some (hdr, pl, fi)))"

definition parts :: "u8 \<Rightarrow> bytes list \<Rightarrow> video_part list" where
  "parts ch datas = List.map_filter (part_of ch) datas"

definition videoChannel :: "u8 \<Rightarrow> bool" where
  "videoChannel ch \<longleftrightarrow> ch = ChannelIVideo \<or> ch = ChannelPVideo"

definition describes :: "frame_info \<Rightarrow> frame_packet \<Rightarrow> bool" where
  "describes f pkt \<longleftrightarrow> fpCodec pkt = fiCodecID f \<and> fpFrameNo pkt = fiFrameNo f"

text \<open>A queued packet is a frame of its channel's packets, or the payload of one sound packet.\<close>

definition from_camera :: "bytes list \<Rightarrow> frame_packet \<Rightarrow> bool" where
  "from_camera datas pkt \<longleftrightarrow>
     (if videoChannel (fpChannel pkt)
      then \<exists>f. frame_of (parts (fpChannel pkt) datas) f (fpPayload pkt) \<and> describes f pkt \<and> fpIsKeyframe pkt = IsKeyframe f
      else \<exists>f. fpChannel pkt = ChannelAudio \<and> describes f pkt \<and> fpPayload pkt \<noteq> [] \<and>
             (\<exists>hdr. (hdr, fpPayload pkt, Some f) \<in> set (parts ChannelAudio datas)))"

definition handler_ok :: "bytes list \<Rightarrow> frame_handler \<Rightarrow> bool" where
  "handler_ok datas h \<longleftrightarrow> (\<forall>ch. videoChannel ch \<longrightarrow> assembling (parts ch datas) (channelOf ch h)) \<and>
     length (fhOutput h) \<le> 128 \<and> (\<forall>pkt \<in> set (fhOutput h). from_camera datas pkt)"

lemma parts_snoc: "parts ch (datas @ [d]) = parts ch datas @ (case part_of ch d of None \<Rightarrow> [] | Some p \<Rightarrow> [p])"
  by (induction datas) (simp_all add: parts_def map_filter_simps split: option.splits)

lemma from_camera_mono:
  assumes "from_camera datas pkt"
  shows "from_camera (datas @ [d]) pkt"
proof (cases "videoChannel (fpChannel pkt)")
  case True
  with assms obtain f where "frame_of (parts (fpChannel pkt) datas) f (fpPayload pkt)" "describes f pkt"
      "fpIsKeyframe pkt = IsKeyframe f" by (auto simp: from_camera_def)
  then show ?thesis using True unfolding from_camera_def parts_snoc by (auto intro!: exI [of _ f] frame_of_mono)
next
  case False
  with assms show ?thesis unfolding from_camera_def parts_snoc by (metis UnI1 set_append)
qed

lemma in_set_tl: "x \<in> set (tl xs) \<Longrightarrow> x \<in> set xs"
  by (cases xs) simp_all

lemma fhQueue_ok:
  assumes "length (fhOutput h) \<le> 128" "\<forall>q \<in> set (fhOutput h). P q" "P pkt"
  shows "length (fhOutput (fhQueue pkt h)) \<le> 128 \<and> (\<forall>q \<in> set (fhOutput (fhQueue pkt h)). P q) \<and>
    fhChannels (fhQueue pkt h) = fhChannels h"
  using assms by (auto simp: fhQueue_def dest: in_set_tl)

lemma handleAudio_cases:
  obtains "handleAudio grow pl fi h = h"
  | f pkt t where "fi = Some f" "pl \<noteq> []" "fpChannel pkt = ChannelAudio" "fpPayload pkt = pl" "describes f pkt"
      "handleAudio grow pl fi h = fhQueue pkt (h\<lparr>fhAudioTS := t\<rparr>)"
proof (cases "\<exists>f. fi = Some f \<and> pl \<noteq> []")
  case False
  then show ?thesis using that(1) by (auto simp: handleAudio_def split: option.split)
next
  case True
  then obtain f where f: "fi = Some f" "pl \<noteq> []" by blast
  let ?rc = "if fiCodecID f \<in> {CodecAACRaw, CodecAACADTS, CodecAACLATMu, CodecAACAlt} then parseAudioParams grow pl (Some f)
    else (fiSampleRate f, fiChannels f)"
  obtain rate cn us t where "?rc = (rate, cn)" "tsUpdate (fiTimestamp f) (fhAudioTS h) = (us, t)" by fastforce
  then show ?thesis
    using that(2) [OF f, of "\<lparr>fpChannel = ChannelAudio, fpCodec = fiCodecID f,
        fpTimestamp = ucast (us * ucast rate div 1000000), fpPayload = pl, fpIsKeyframe = False, fpFrameNo = fiFrameNo f,
        fpSampleRate = rate, fpChannels = cn\<rparr>" t] f
    by (simp add: handleAudio_def describes_def)
qed

lemma handleVideo_cases:
  assumes "assembleVideo hdr pl fi (channelOf ch h) = (cs, o1)"
  obtains "o1 = None" "handleVideo ch hdr pl fi h = h\<lparr>fhChannels := (fhChannels h)(ch \<mapsto> cs)\<rparr>"
  | f data pkt t where "o1 = Some (f, data)" "fpChannel pkt = ch" "fpPayload pkt = data" "describes f pkt"
      "fpIsKeyframe pkt = IsKeyframe f"
      "handleVideo ch hdr pl fi h = fhQueue pkt (h\<lparr>fhChannels := (fhChannels h)(ch \<mapsto> cs), fhVideoTS := t\<rparr>)"
proof (cases o1)
  case None
  then show ?thesis using that(1) assms by (simp add: handleVideo_def)
next
  case (Some fd)
  obtain f data where fd: "fd = (f, data)" by (cases fd)
  obtain us t where "tsUpdate (fiTimestamp f) (fhVideoTS h) = (us, t)" by fastforce
  then show ?thesis
    using that(2) [of f data "\<lparr>fpChannel = ch, fpCodec = fiCodecID f, fpTimestamp = ucast (us * 90000 div 1000000),
        fpPayload = data, fpIsKeyframe = IsKeyframe f, fpFrameNo = fiFrameNo f, fpSampleRate = 0, fpChannels = 0\<rparr>" t]
      assms Some fd
    by (simp add: handleVideo_def Let_def describes_def)
qed

lemma channelOf_cong: "fhChannels h' = fhChannels h \<Longrightarrow> channelOf c h' = channelOf c h"
  by (simp add: channelOf_def)

lemma audio_not_video [simp]: "\<not> videoChannel ChannelAudio"
  by (simp add: videoChannel_def frame_channels)

lemma Handle_ok:
  assumes "handler_ok datas h"
  shows "handler_ok (datas @ [d]) (Handle grow d h)"
proof -
  let ?d = "datas @ [d]"
  from assms have out: "length (fhOutput h) \<le> 128" "\<forall>q \<in> set (fhOutput h). from_camera ?d q"
    by (auto simp: handler_ok_def intro: from_camera_mono)
  have ch: "videoChannel ch \<Longrightarrow> assembling (parts ch datas) (channelOf ch h)" for ch
    using assms by (simp add: handler_ok_def)
  show ?thesis
  proof (cases "\<exists>hdr pl fi. ParsePacketHeader d = Some hdr \<and> extractPayload d (phChannel hdr) = Some (pl, fi)")
    case False
    then have "part_of c d = None" for c by (auto simp: part_of_def split: option.splits)
    moreover have "Handle grow d h = h" using False by (auto simp: Handle_def split: option.splits)
    ultimately show ?thesis using out ch by (simp add: handler_ok_def parts_snoc)
  next
    case True
    then obtain hdr pl fi where p: "ParsePacketHeader d = Some hdr" "extractPayload d (phChannel hdr) = Some (pl, fi)" by blast
    have po: "part_of c d = (if phChannel hdr = c then Some (hdr, pl, fi) else None)" for c
      using p by (auto simp: part_of_def)
    consider (audio) "phChannel hdr = ChannelAudio" | (video) "videoChannel (phChannel hdr)" "phChannel hdr \<noteq> ChannelAudio"
      | (other) "\<not> videoChannel (phChannel hdr)" "phChannel hdr \<noteq> ChannelAudio" by blast
    then show ?thesis
    proof cases
      case other
      then have "Handle grow d h = h" using p by (simp add: Handle_def videoChannel_def)
      moreover have "videoChannel c \<Longrightarrow> part_of c d = None" for c using other po by auto
      ultimately show ?thesis using out ch by (simp add: handler_ok_def parts_snoc)
    next
      case audio
      have c: "videoChannel c \<Longrightarrow> part_of c d = None" for c using audio po by auto
      have H: "Handle grow d h = handleAudio grow pl fi h" using p audio by (simp add: Handle_def)
      show ?thesis
      proof (cases rule: handleAudio_cases [of grow pl fi h])
        case 1
        then show ?thesis using out ch c H by (simp add: handler_ok_def parts_snoc)
      next
        case (2 f pkt t)
        have "from_camera ?d pkt"
          using 2(1-5) po audio by (auto simp: from_camera_def parts_snoc)
        from fhQueue_ok [of "h\<lparr>fhAudioTS := t\<rparr>" "from_camera ?d", OF _ _ this] out
        have q: "length (fhOutput (Handle grow d h)) \<le> 128" "\<forall>q \<in> set (fhOutput (Handle grow d h)). from_camera ?d q"
          "fhChannels (Handle grow d h) = fhChannels h" unfolding H 2(6) by simp_all
        then show ?thesis using ch c channelOf_cong [OF q(3)] by (simp add: handler_ok_def parts_snoc)
      qed
    next
      case video
      let ?ch = "phChannel hdr"
      obtain cs o1 where a: "assembleVideo hdr pl fi (channelOf ?ch h) = (cs, o1)" by fastforce
      have st: "assembling (parts ?ch ?d) cs" "\<And>f data. o1 = Some (f, data) \<Longrightarrow> frame_of (parts ?ch ?d) f data"
        using assembleVideo_step [OF ch [OF video(1)] a] po by (simp_all add: parts_snoc)
      have H: "Handle grow d h = handleVideo ?ch hdr pl fi h" using p video by (simp add: Handle_def videoChannel_def)
      have fin: "handler_ok ?d (Handle grow d h)"
        if "fhChannels (Handle grow d h) = (fhChannels h)(?ch \<mapsto> cs)" "length (fhOutput (Handle grow d h)) \<le> 128"
          "\<forall>q \<in> set (fhOutput (Handle grow d h)). from_camera ?d q"
        using that ch st(1) po by (auto simp: handler_ok_def parts_snoc channelOf_def)
      show ?thesis
      proof (cases rule: handleVideo_cases [OF a])
        case 1
        then show ?thesis using fin out H by simp
      next
        case (2 f data pkt t)
        have "from_camera ?d pkt" using st(2) [OF 2(1)] 2(2-5) video(1) by (auto simp: from_camera_def)
        from fhQueue_ok [of "h\<lparr>fhChannels := (fhChannels h)(?ch \<mapsto> cs), fhVideoTS := t\<rparr>" "from_camera ?d", OF _ _ this] out
        show ?thesis using fin unfolding H 2(6) by simp
      qed
    qed
  qed
qed

lemma frameRun_ok: "handler_ok (incoming es) (frameRun grow es NewFrameHandler)"
proof (induction es rule: rev_induct)
  case Nil
  show ?case by (simp add: handler_ok_def frameRun_def incoming_def map_filter_simps NewFrameHandler_def channelOf_def)
next
  case (snoc e es)
  have i: "incoming (es @ [e]) = incoming es @ (case e of Incoming d \<Rightarrow> [d] | Taken \<Rightarrow> [])"
    by (induction es) (simp_all add: incoming_def map_filter_simps split: option.split frame_event.split)
  show ?case
  proof (cases e)
    case (Incoming d)
    then show ?thesis using Handle_ok [OF snoc] unfolding i by (simp add: frameRun_def frameStep_def)
  next
    case Taken
    then show ?thesis using snoc unfolding i
      by (auto simp: handler_ok_def frameRun_def frameStep_def channelOf_def dest: in_set_tl)
  qed
qed

subsection \<open>Complete frames\<close>

text \<open>The state of a channel after \<open>k\<close> packets of a run, that starts when another number is expected.\<close>

definition after_parts :: "video_part list \<Rightarrow> nat \<Rightarrow> channel_state \<Rightarrow> bool" where
  "after_parts run k cs \<longleftrightarrow>
     (if k = 0 then csFrameNo cs \<noteq> phFrameNo (fst (hd run))
      else csFrameNo cs = phFrameNo (fst (hd run)) \<and> csPktTotal cs = phPktTotal (fst (hd run)) \<and>
        csWaitSeq cs = of_nat k \<and> csWaitData cs = run_bytes (take k run))"

lemma run_bytes_take: "k < length run \<Longrightarrow> run_bytes (take (Suc k) run) = run_bytes (take k run) @ fst (snd (run ! k))"
  by (simp add: run_bytes_def take_Suc_conv_app_nth)

lemma after_parts_step:
  assumes "is_frame_run run" "run ! k = (hdr, pl, fi)" "k < length run" "length run < 65536"
    "phPktTotal (fst (hd run)) = of_nat (length run)" "after_parts run k cs"
  shows "if Suc k < length run then \<exists>cs'. assembleVideo hdr pl fi cs = (cs', None) \<and> after_parts run (Suc k) cs'
    else \<forall>f. fi = Some f \<longrightarrow> assembleVideo hdr pl fi cs =
      (csReset, if fiPayloadSize f > 0 \<and> of_nat (length (run_bytes run)) \<noteq> fiPayloadSize f then None
                else if run_bytes run = [] then None else Some (f, run_bytes run))"
proof -
  let ?no = "phFrameNo (fst (hd run))" and ?tot = "phPktTotal (fst (hd run))"
  have h: "phPktIdx hdr = of_nat k" "phFrameNo hdr = ?no"
    using assms(1-3) by (auto simp: is_frame_run_def)
  have tot: "k = 0 \<Longrightarrow> phPktTotal hdr = ?tot"
    using assms(1-3) by (cases run) (auto simp: is_frame_run_def)
  define c where "c = (if phFrameNo hdr \<noteq> csFrameNo cs
    then csReset\<lparr>csFrameNo := phFrameNo hdr, csPktTotal := phPktTotal hdr\<rparr> else cs)"
  have c: "csFrameNo c = ?no" "csPktTotal c = ?tot" "csWaitSeq c = of_nat k" "csWaitData c = run_bytes (take k run)"
    using assms(6) h tot by (auto simp: c_def after_parts_def csReset_def run_bytes_def split: if_splits)
  have dt: "csWaitData c @ pl = run_bytes (take (Suc k) run)"
    using c(4) assms(2,3) by (simp add: run_bytes_take)
  let ?info = "case fi of None \<Rightarrow> csFrameInfo c | Some f \<Rightarrow> Some f"
  let ?next = "c\<lparr>csHasStarted := csHasStarted c \<or> csWaitSeq c = 0, csWaitData := csWaitData c @ pl,
    csWaitSeq := csWaitSeq c + 1, csFrameInfo := ?info\<rparr>"
  have eq: "assembleVideo hdr pl fi cs = (case ?info of None \<Rightarrow> (?next, None)
      | Some f \<Rightarrow> if csWaitSeq c + 1 \<noteq> csPktTotal c then (?next, None)
          else (csReset, if fiPayloadSize f > 0 \<and> of_nat (length (csWaitData c @ pl)) \<noteq> fiPayloadSize f then None
                else if csWaitData c @ pl = [] then None else Some (f, csWaitData c @ pl)))"
    unfolding assembleVideo_def Let_def c_def [symmetric] by (rule if_not_P) (simp add: c(3) h(1))
  have sq: "csWaitSeq c + 1 = csPktTotal c \<longleftrightarrow> Suc k = length run"
  proof -
    have "csWaitSeq c + 1 = (of_nat (Suc k) :: u16)" using c(3) by (simp add: add.commute)
    moreover have "(of_nat (Suc k) :: u16) = of_nat (length run) \<longleftrightarrow> Suc k = length run"
      using assms(3,4) by (simp only: word_of_nat_eq_iff) (simp add: take_bit_nat_eq_self)
    ultimately show ?thesis using c(2) assms(5) by (simp only:)
  qed
  show ?thesis
  proof (cases "Suc k < length run")
    case True
    then have "csWaitSeq c + 1 \<noteq> csPktTotal c" using sq by simp
    then have "assembleVideo hdr pl fi cs = (?next, None)" unfolding eq by (auto split: option.split)
    moreover have "after_parts run (Suc k) ?next" using c dt by (simp add: after_parts_def add.commute)
    ultimately show ?thesis using True by (simp only: if_True simp_thms) blast
  next
    case False
    then have e: "Suc k = length run" using assms(3) by simp
    with sq eq dt show ?thesis by auto
  qed
qed

definition frame_packet_of :: "u8 \<Rightarrow> frame_info \<Rightarrow> bytes \<Rightarrow> u64 \<Rightarrow> frame_packet" where
  "frame_packet_of ch f data us =
     \<lparr>fpChannel = ch, fpCodec = fiCodecID f, fpTimestamp = ucast (us * 90000 div 1000000), fpPayload = data,
      fpIsKeyframe = IsKeyframe f, fpFrameNo = fiFrameNo f, fpSampleRate = 0, fpChannels = 0\<rparr>"

lemma Handle_video:
  assumes "part_of ch d = Some (hdr, pl, fi)" "videoChannel ch"
  shows "Handle grow d h = handleVideo ch hdr pl fi h"
proof -
  have "ChannelAudio \<noteq> ch" using assms(2) by auto
  with assms show ?thesis by (auto simp: part_of_def Handle_def videoChannel_def split: option.splits if_splits)
qed

lemma frame_run_waits:
  assumes "is_frame_run run" "length run < 65536" "phPktTotal (fst (hd run)) = of_nat (length run)" "videoChannel ch"
    "\<forall>i < length run. part_of ch (datas ! i) = Some (run ! i)" "length datas = length run"
    "csFrameNo (channelOf ch h) \<noteq> phFrameNo (fst (hd run))"
  shows "k < length run \<Longrightarrow>
    (let h' = fold (Handle grow) (take k datas) h in
     after_parts run k (channelOf ch h') \<and> fhOutput h' = fhOutput h \<and> fhVideoTS h' = fhVideoTS h \<and> fhClosed h' = fhClosed h)"
proof (induction k)
  case 0
  then show ?case using assms(7) by (simp add: after_parts_def)
next
  case (Suc k)
  define h' where "h' = fold (Handle grow) (take k datas) h"
  obtain hdr pl fi where p: "run ! k = (hdr, pl, fi)" by (cases "run ! k") auto
  have IH: "after_parts run k (channelOf ch h')" "fhOutput h' = fhOutput h" "fhVideoTS h' = fhVideoTS h" "fhClosed h' = fhClosed h"
    using Suc by (simp_all add: h'_def Let_def)
  obtain cs' where a: "assembleVideo hdr pl fi (channelOf ch h') = (cs', None)" "after_parts run (Suc k) cs'"
    using after_parts_step [OF assms(1) p _ assms(2,3) IH(1)] Suc.prems by auto
  have "fold (Handle grow) (take (Suc k) datas) h = handleVideo ch hdr pl fi h'"
    using Handle_video [of ch "datas ! k" hdr pl fi] assms(4-6) p Suc.prems
    by (simp add: take_Suc_conv_app_nth h'_def)
  then show ?case using a IH by (simp add: handleVideo_def Let_def channelOf_def)
qed

lemma frame_run_complete:
  assumes "is_frame_run run" "length run < 65536" "phPktTotal (fst (hd run)) = of_nat (length run)" "videoChannel ch"
    "\<forall>i < length run. part_of ch (datas ! i) = Some (run ! i)" "length datas = length run"
    "csFrameNo (channelOf ch h) \<noteq> phFrameNo (fst (hd run))"
    "snd (snd (last run)) = Some f" "run_bytes run \<noteq> []" "fiPayloadSize f = of_nat (length (run_bytes run))"
  shows "fhOutput (fold (Handle grow) datas h) =
    fhOutput (fhQueue (frame_packet_of ch f (run_bytes run) (fst (tsUpdate (fiTimestamp f) (fhVideoTS h)))) h)"
proof -
  obtain k where k: "length run = Suc k" using assms(1) by (cases "length run") (auto simp: is_frame_run_def)
  define h' where "h' = fold (Handle grow) (take k datas) h"
  have w: "after_parts run k (channelOf ch h')" "fhOutput h' = fhOutput h" "fhVideoTS h' = fhVideoTS h" "fhClosed h' = fhClosed h"
    using frame_run_waits [OF assms(1-7), of k grow] k by (simp_all add: h'_def Let_def)
  obtain hdr pl where p: "run ! k = (hdr, pl, Some f)"
  proof -
    have "run \<noteq> []" using k by auto
    then have "last run = run ! k" using last_conv_nth [of run] k by simp
    then show ?thesis using that assms(8) by (cases "run ! k") auto
  qed
  have a: "assembleVideo hdr pl (Some f) (channelOf ch h') = (csReset, Some (f, run_bytes run))"
    using after_parts_step [OF assms(1) p _ assms(2,3) w(1)] k assms(9,10) by simp
  have "datas = take k datas @ [datas ! k]"
    using assms(6) k take_Suc_conv_app_nth [of k datas] by simp
  then have "fold (Handle grow) datas h = Handle grow (datas ! k) h'"
    unfolding h'_def by (metis fold_append fold.simps comp_apply id_apply)
  also have "\<dots> = handleVideo ch hdr pl (Some f) h'"
    using Handle_video [of ch "datas ! k"] assms(4,5) p k by simp
  finally show ?thesis
    using a w by (cases "tsUpdate (fiTimestamp f) (fhVideoTS h)") (simp add: handleVideo_def Let_def fhQueue_def frame_packet_of_def)
qed

text \<open>The number 0 is that of a channel without a frame: its total stays 0.\<close>

definition zero_state :: "nat \<Rightarrow> channel_state \<Rightarrow> bool" where
  "zero_state k cs \<longleftrightarrow> csFrameNo cs = 0 \<and> csPktTotal cs = 0 \<and> csWaitSeq cs = of_nat k"

lemma zero_state_step:
  assumes "zero_state k cs" "phFrameNo hdr = 0" "phPktIdx hdr = of_nat k" "(of_nat k + 1 :: u16) \<noteq> 0"
  shows "snd (assembleVideo hdr pl fi cs) = None \<and> zero_state (Suc k) (fst (assembleVideo hdr pl fi cs))"
proof -
  have z: "csFrameNo cs = 0" "csPktTotal cs = 0" "csWaitSeq cs = of_nat k" using assms(1) by (simp_all add: zero_state_def)
  show ?thesis
    unfolding assembleVideo_def Let_def z assms(2,3)
    using z assms(4) by (auto simp: zero_state_def add.commute split: option.split)
qed

lemma frame_zero_lost:
  assumes "channelOf ch h = csReset" "length datas < 65536" "videoChannel ch"
    "\<forall>i < length datas. \<exists>hdr pl fi. part_of ch (datas ! i) = Some (hdr, pl, fi) \<and> phFrameNo hdr = 0 \<and> phPktIdx hdr = of_nat i"
  shows "k \<le> length datas \<Longrightarrow>
    (let h' = fold (Handle grow) (take k datas) h in zero_state k (channelOf ch h') \<and> fhOutput h' = fhOutput h)"
proof (induction k)
  case 0
  then show ?case using assms(1) by (simp add: zero_state_def csReset_def)
next
  case (Suc k)
  define h' where "h' = fold (Handle grow) (take k datas) h"
  obtain hdr pl fi where p: "part_of ch (datas ! k) = Some (hdr, pl, fi)" "phFrameNo hdr = 0" "phPktIdx hdr = of_nat k"
    using assms(4) Suc.prems by (meson Suc_le_lessD)
  have IH: "zero_state k (channelOf ch h')" "fhOutput h' = fhOutput h"
    using Suc by (simp_all add: h'_def Let_def)
  have nz: "(of_nat k + 1 :: u16) \<noteq> 0"
  proof -
    have "(of_nat (Suc k) :: u16) \<noteq> of_nat 0"
      using Suc.prems assms(2) by (simp only: word_of_nat_eq_iff) (simp add: take_bit_nat_eq_self)
    then show ?thesis by (simp add: add.commute)
  qed
  obtain cs' where a: "assembleVideo hdr pl fi (channelOf ch h') = (cs', None)" "zero_state (Suc k) cs'"
    using zero_state_step [OF IH(1) p(2,3) nz, of pl fi] by (cases "assembleVideo hdr pl fi (channelOf ch h')") auto
  have "fold (Handle grow) (take (Suc k) datas) h = handleVideo ch hdr pl fi h'"
    using Handle_video [OF p(1) assms(3)] Suc.prems by (simp add: take_Suc_conv_app_nth h'_def)
  then show ?case using a IH by (simp add: handleVideo_def Let_def channelOf_def)
qed

subsection \<open>The clock\<close>

fun tsRun :: "u32 list \<Rightarrow> ts_tracker \<Rightarrow> u64 list" where
  "tsRun [] t = []"
| "tsRun (r # rs) t = (case tsUpdate r t of (us, t') \<Rightarrow> us # tsRun rs t')"

definition raw_time :: "nat \<Rightarrow> u32" where
  "raw_time t = of_nat (t mod 1000000)"

fun steady :: "nat \<Rightarrow> nat list \<Rightarrow> bool" where
  "steady a [] \<longleftrightarrow> True"
| "steady a (b # bs) \<longleftrightarrow> a \<le> b \<and> b < a + 1000000 \<and> steady b bs"

lemma raw_le: "raw_time a \<le> raw_time b \<longleftrightarrow> a mod 1000000 \<le> b mod 1000000"
proof -
  have "unat (raw_time t) = t mod 1000000" for t
    using mod_less_divisor [of 1000000 t] by (simp add: raw_time_def unsigned_of_nat take_bit_nat_eq_self)
  then show ?thesis by (simp add: word_le_nat_alt)
qed

lemma tsUpdate_gap:
  assumes "firstTS t" "lastRawTS t = raw_time a" "a \<le> b" "b < a + 1000000"
  shows "tsUpdate (raw_time b) t =
    (accumUS t + of_nat (b - a), t\<lparr>lastRawTS := raw_time b, accumUS := accumUS t + of_nat (b - a)\<rparr>)"
proof -
  let ?d = "if raw_time a \<le> raw_time b then raw_time b - raw_time a else (1000000 - raw_time a) + raw_time b"
  have m: "a = 1000000 * (a div 1000000) + a mod 1000000" "b = 1000000 * (b div 1000000) + b mod 1000000"
    "a mod 1000000 < 1000000" "b mod 1000000 < 1000000" by simp_all
  have "?d = of_nat (b - a)"
  proof (cases "a mod 1000000 \<le> b mod 1000000")
    case True
    have "a div 1000000 = b div 1000000" using True assms(3,4) m by linarith
    then have "b - a = b mod 1000000 - a mod 1000000" using m by linarith
    then show ?thesis using True by (simp only: raw_le if_True) (simp add: raw_time_def of_nat_diff)
  next
    case False
    have "b div 1000000 = a div 1000000 + 1" using False assms(3,4) m by linarith
    then have "b - a = (1000000 - a mod 1000000) + b mod 1000000" using m False by linarith
    then show ?thesis using False m(3) by (simp only: raw_le if_False) (simp add: raw_time_def of_nat_diff)
  qed
  moreover have "ucast (of_nat n :: u32) = (of_nat n :: u64)" if "n < 2 ^ 32" for n
    using that by (simp add: unsigned_of_nat take_bit_nat_eq_self)
  from this [of "b - a"] have "ucast (of_nat (b - a) :: u32) = (of_nat (b - a) :: u64)" using assms(4) by simp
  ultimately show ?thesis using assms(1)
    unfolding tsUpdate_def Let_def tsWrapPeriod_def assms(2) by (simp split del: if_split del: of_nat_diff)
qed

lemma tsRun_steady:
  "firstTS t \<Longrightarrow> lastRawTS t = raw_time a \<Longrightarrow> accumUS t = of_nat (a - t0) \<Longrightarrow> t0 \<le> a \<Longrightarrow> steady a ts \<Longrightarrow>
   tsRun (map raw_time ts) t = map (\<lambda>b. of_nat (b - t0)) ts"
proof (induction ts arbitrary: a t)
  case (Cons b ts)
  have b: "a \<le> b" "b < a + 1000000" "steady b ts" using Cons.prems(5) by simp_all
  have e: "of_nat (a - t0) + of_nat (b - a) = (of_nat (b - t0) :: u64)"
    using Cons.prems(4) b(1) by (simp flip: of_nat_add)
  note u = tsUpdate_gap [OF Cons.prems(1,2) b(1,2)]
  let ?t = "t\<lparr>lastRawTS := raw_time b, accumUS := accumUS t + of_nat (b - a)\<rparr>"
  have "tsRun (map raw_time ts) ?t = map (\<lambda>b. of_nat (b - t0)) ts"
    by (rule Cons.IH [of ?t b]) (use Cons.prems b e in simp_all)
  then show ?case using u e Cons.prems(3) by simp
qed simp

lemma tsRun_clock: "steady t0 ts \<Longrightarrow> tsRun (map raw_time (t0 # ts)) newTracker = map (\<lambda>b. of_nat (b - t0)) (t0 # ts)"
  using tsRun_steady [of "newTracker\<lparr>lastRawTS := raw_time t0, firstTS := True\<rparr>" t0 t0 ts]
  by (simp add: tsUpdate_def newTracker_def)

subsection \<open>Results\<close>

text \<open>
  Claim C32. Whatever the camera sends and whenever the reader takes frames: the channel never holds
  more than 128 packets, each video packet in it is the concatenation of consecutive packets of
  one channel with one frame number and the indices 0, 1, and so on, of the announced total and the
  announced size, and never empty; each sound packet is the payload of one packet.
\<close>

theorem tutk_frames_whole:
  "length (fhOutput (frameRun grow es NewFrameHandler)) \<le> 128 \<and>
   list_all (from_camera (incoming es)) (fhOutput (frameRun grow es NewFrameHandler))"
  using frameRun_ok [of es grow] by (simp add: handler_ok_def list_all_iff)


definition demo_info :: bytes where
  "demo_info = [0x4E, 0, 1] @ [0, 0, 0, 0, 0, 0, 0, 0, 0, 0, 0, 0, 0] @ le32 5 @ le32 9 @ [0, 0, 0, 0, 0, 0, 0, 0, 0, 0, 0, 0, 0, 0, 0, 0]"

definition demo_first :: bytes where
  "demo_first = [5, 8] @ [0, 0, 0, 0, 0, 0, 0, 0, 0, 0, 0, 0, 0, 0, 0, 0, 0, 0] @ le16 2 @ le16 0 @ [0, 0, 0, 0, 0, 0, 0, 0] @ le32 7 @ [1, 2, 3]"

definition demo_last :: bytes where
  "demo_last = [5, 5] @ [0, 0, 0, 0, 0, 0, 0, 0, 0, 0] @ le16 2 @ le16 0x28 @ [0, 0, 0, 0, 0, 0, 0, 0] @ le32 7 @ [4, 5] @ demo_info"

definition demo_frame_info :: frame_info where
  "demo_frame_info = \<lparr>fiCodecID = 0x4E, fiFlags = 1, fiCamIndex = 0, fiOnlineNum = 0, fiFPS = 0, fiResTier = 0,
     fiBitrate = 0, fiTimestamp = 0, fiSessionID = 0, fiPayloadSize = 5, fiFrameNo = 9\<rparr>"

definition demo_parts :: "video_part list" where
  "demo_parts = [(\<lparr>phChannel = 5, phFrameType = 8, phHeaderSize = 36, phFrameNo = 7, phPktIdx = 0, phPktTotal = 2,
      phPayloadSize = 0, phHasFrameInfo = False\<rparr>, [1, 2, 3], None),
    (\<lparr>phChannel = 5, phFrameType = 5, phHeaderSize = 28, phFrameNo = 7, phPktIdx = 1, phPktTotal = 2,
      phPayloadSize = 0, phHasFrameInfo = True\<rparr>, [4, 5], Some demo_frame_info)]"

lemma demo_first_part: "part_of 5 demo_first = Some (demo_parts ! 0)"
  by (simp add: part_of_def ParsePacketHeader_def extractPayload_def headerFields_def demo_first_def demo_parts_def
      IsStartFrame_def IsEndFrame_def frame_types Let_def le16_def le32_def be16_def be32_def)

lemma demo_last_part: "part_of 5 demo_last = Some (demo_parts ! 1)"
  by (simp add: part_of_def ParsePacketHeader_def extractPayload_def headerFields_def demo_last_def demo_parts_def
      IsStartFrame_def IsEndFrame_def frame_types Let_def le16_def le32_def be16_def be32_def ParseFrameInfo_def
      frameInfoSize_def demo_info_def demo_frame_info_def frame_channels IsVideoCodec_def frame_codecs)


end
