(* ===== verification/Spec2Isabelle.thy ===== *)
theory Spec2Isabelle
  imports Prelude GoText Cs2Channel Cs2Reorder Cs2Conn AnnexB Opus TutkCodec MissClient MissProducer
    PtzLease GoWeb Ptz OnvifConfig OnvifXml Onvif OnvifMove OnvifCompat H265Rtp H264Rtp VideoCodec Cloud CloudLogin XiaomiSrv
    Bits Aac TutkSession TutkReorder TutkMedia TutkConn Legacy TutkFrame
begin

text \<open>
  A verification development for xiaomi-onvif, a Go program in the tree of go2rtc that gives Xiaomi
  cameras to ONVIF clients.

  The program. \<open>cmd/xiaomi-onvif\<close> is an HTTP server per camera: it reads SOAP requests, answers
  them with built XML, and turns movements and presets into requests to the go2rtc process beside
  it. In that process \<open>internal/xiaomi\<close> serves these requests: it keeps the accounts of the Xiaomi
  cloud, makes the addresses of cameras, and moves cameras over connections that several requests
  share. The connections are those of \<open>pkg/xiaomi/miss\<close> (over the transport CS2 in \<open>miss/cs2\<close>, or over
  TUTK in \<open>pkg/tutk\<close>) or of \<open>pkg/xiaomi/legacy\<close> (old cameras, over TUTK). Producers read media packets
  from them, find out the codecs, and hand RTP packets to the receivers of the streams; for that
  they use \<open>pkg/h264/annexb\<close>, \<open>pkg/h264\<close>, \<open>pkg/h265\<close>, \<open>pkg/opus\<close>, \<open>pkg/aac\<close> and \<open>pkg/bits\<close>.

  The theories, from the bottom up:

  \<^item> Prelude, GoText, GoWeb: Go's machine types, \<open>encoding/binary\<close>, \<open>copy\<close>, and what the sources use of
    \<open>strings\<close>, \<open>strconv\<close>, \<open>encoding/hex\<close>, \<open>encoding/base64\<close> and \<open>net/url\<close>, with the lemmas that the
    components share. Of the repository they model only \<open>core.Between\<close>.
  \<^item> Cs2Channel (\<open>dataChannel\<close> of \<open>miss/cs2/conn.go\<close>: framing, accounting, hand-over), Cs2Reorder
    (\<open>PushSeq\<close>), Cs2Conn (handshake, worker, commands and packets). The locale \<open>stream_sink\<close> of
    Cs2Reorder states what reordering needs of the channel behind it; it is interpreted on \<open>Push\<close>.
    Shown: what a UDP channel completes is a prefix of the stream whatever is reordered, repeated or
    lost; buffered bytes are accounted exactly and bounded in every interleaving with the reader; the
    worker never panics; a command reaches the other side.
  \<^item> TutkCodec (\<open>tutk/crypto.go\<close>, \<open>helpers.go\<close>), TutkSession (\<open>session16.go\<close>, \<open>session25.go\<close>),
    TutkReorder (the reorder buffer of \<open>Session25\<close> against chunks in order), TutkMedia (frames of
    \<open>Session16\<close>, and both ends of a command), TutkConn (\<open>conn.go\<close>, \<open>session0.go\<close>), TutkFrame (\<open>frame.go\<close>,
    \<open>codec.go\<close>). Shown: scrambling is reversible; out-of-order chunks give the result of chunks in
    order; delivered frames are whole runs of chunks; datagrams of strangers have no effect; the
    worker ends.
  \<^item> AnnexB (\<open>h264/annexb\<close> and the walks of \<open>h264\<close> and \<open>h265\<close> over units), Opus, Bits, Aac: the formats.
    Shown: round trips, agreement with a specification as lists of units or bits, and where the code
    leaves its own format.
  \<^item> H265Rtp (\<open>h265/payloader.go\<close>, \<open>h265/rtp.go\<close>), H264Rtp (\<open>h264/payloader.go\<close>, \<open>h264/rtp.go\<close>), VideoCodec
    (\<open>avcc.go\<close>, \<open>h264.go\<close>, \<open>helper.go\<close>): how pictures go to the clients of the streams and are read from
    packets. Shown: readers of RFC 7798 and RFC 6184 read the units of a picture from the payloads,
    whose size is bounded; a picture goes through \<open>RTPPay\<close> and \<open>RTPDepay\<close> unchanged; the line of the
    session description carries the parameter sets; and where reading fails or panics.
  \<^item> MissClient (\<open>miss/client.go\<close>, \<open>crypto/crypto.go\<close>), MissProducer (\<open>producer.go\<close>, \<open>backchannel.go\<close>),
    Legacy (\<open>legacy/client.go\<close>, \<open>producer.go\<close>). The record \<open>miss_conn\<close> is the interface of a connection;
    the locale \<open>media_link\<close> of MissClient states what a command needs of it and is interpreted on CS2.
    Shown: what is on the wire is one encrypted frame of the request, sound is read back by a peer,
    RTP timestamps and sequence numbers are regular, an old camera's video is unscrambled.
  \<^item> Cloud (signed requests), CloudLogin (login with captcha and verification), XiaomiSrv
    (\<open>internal/xiaomi/xiaomi.go\<close>). Shown: a server with the secret reads a request and the client its
    reply, each login call ends in one of the steps that the code continues from, a cached session
    belongs to the stored token.
  \<^item> PtzLease (\<open>ptz_connection.go\<close>: requests, goroutines and timers as threads that interleave, an
    inductive step relation with reachability), Ptz (\<open>ptz.go\<close>, \<open>presets.go\<close>). Shown: no lease is used after
    it was closed or closed twice, a stop wins over a movement that is not under way, no lease stays
    open without a user, a movement ends with a stop, the cloud is only asked for a listed preset.
  \<^item> OnvifConfig (\<open>profile.go\<close> and the mappings of \<open>main.go\<close>), OnvifXml (the answers), Onvif (requests,
    dispatch, segments), OnvifMove (movements and their status, again as interleaved threads),
    OnvifCompat (the proxy in front of another ONVIF camera). Shown: profiles are valid, nothing
    in an answer changes its markup, a request causes at most one action, the status is MOVING
    exactly while the last movement is unfinished, and what the proxy changes in requests and
    answers.
  \<^item> This theory joins the bridge to the handler of go2rtc: a movement of the bridge is one that the
    handler accepts.

  How the code is translated. A struct is a record, a set of constants a datatype or numbers, a
  function a definition that returns the changed state, with \<open>option\<close>, a sum or an error datatype for
  errors; panics are values (\<open>None\<close> or an error of their own), as are indices and slices out of
  range. Integers are words of their width where they wrap. Goroutines, timers, the network and the
  clock are lists of events or threads that interleave in every order. A loop is a recursive
  function that is proved to end; a loop that may not end is a partial function into \<open>option\<close>, where
  \<open>None\<close> is a loop without end (\<open>rb_pop\<close>, \<open>chunkLoop\<close>, \<open>adtsUnits\<close>, \<open>adtsHeaders\<close>), and it is shown when they
  end. Where a definition takes a list of clock readings or of reads, one per turn of a loop, its
  end means that nothing more arrives; no result depends on a bound of that kind.

  Parameters. ChaCha20, curve25519, SHA-1, SHA-256 and MD5, JSON, \<open>url.Parse\<close>,
  the XML decoder, \<open>strconv.ParseFloat\<close> and the product of floats, \<open>AVCCToCodec\<close> in the producers (they
  do not look into a codec; VideoCodec has the function), \<open>codecs.H264Packet\<close> of another repository,
  \<open>pcm.Transcode\<close>, the growth of a slice, the clock, random bytes, the sockets and the HTTP client.

  Not modelled. The rest of go2rtc (streams, the servers and clients of its other protocols, their
  containers, the fields of parameter sets), which this program shares with its upstream. Of the
  modelled files: decoding order numbers and \<open>SafariPay\<close> of H.265, \<open>main\<close> and its flags, the assembly of \<open>core.Connection\<close>, logging, deadlines, the HTTP
  frame of the handlers of \<open>internal/xiaomi\<close>, \<open>connectPTZ\<close> (a consumer of the stream library),
  \<open>RTPToADTS\<close>, \<open>GenerateKey\<close>, closing the channels of a TUTK session, and \<open>pkg/tutk/dtls\<close>.
\<close>

section \<open>The ONVIF bridge on the PTZ handler\<close>

lemma atoi_dec_int_cases: "0 \<le> n \<Longrightarrow> atoi (dec_int n) = None \<or> atoi (dec_int n) = Some n"
proof -
  assume n: "0 \<le> n"
  obtain c cs where c: "dec_nat (nat n) = c # cs" using dec_nat_not_Nil by (cases "dec_nat (nat n)") blast+
  have "c \<noteq> CHR ''-''" "c \<noteq> CHR ''+''"
    using dec_nat_head [of "nat n"] c digit_char_not_sign by auto
  moreover have "digits_val 0 (c # cs) = Some (nat n)" using digits_val_dec_nat [of "nat n"] c by simp
  ultimately show ?thesis using n c by (simp add: atoi_def dec_int_def del: digits_val.simps)
qed

lemma parse_sent_duration:
  assumes "op \<noteq> 0" "millisecond \<le> ns"
  shows "parsePTZDuration (query_get (sendQuery base name dir ns) ''duration'') op =
    (if ns div millisecond \<le> 2000 then Some (ns div millisecond) else None)"
proof -
  define n where "n = ns div millisecond"
  have n: "1 \<le> n" using assms(2) by (simp add: n_def millisecond_def)
  have q: "query_get (sendQuery base name dir ns) ''duration'' = dec_int n"
    using assms(2) by (simp add: sendQuery_get n_def millisecond_def)
  have "dec_int n \<noteq> []" by (simp add: dec_int_def)
  moreover have "n \<le> 2000 \<Longrightarrow> atoi (dec_int n) = Some n"
    using atoi_dec_nat [of "nat n"] n by (simp add: dec_int_def)
  ultimately show ?thesis
    using atoi_dec_int_cases [of n] n assms(1) unfolding q n_def [symmetric]
    by (auto simp: parsePTZDuration_def ptzMaxDuration_def)
qed

lemma segment_operation: "(dir, ns) \<in> set (relativeSegments sp x y) \<Longrightarrow> \<exists>op. ptzOperations dir = Some op \<and> op \<noteq> 0"
  by (auto simp: relativeSegments_def axisSegment_def ptzOperations_def Let_def split: if_splits)

text \<open>
  Claim C7. What the bridge sends for a relative movement, the PTZ handler of go2rtc accepts: for
  coordinates within -1 and 1, when a full field of view takes at most two seconds, each segment is
  a known direction with a duration that the handler parses to exactly its milliseconds. And a
  segment that is longer, which a coordinate beyond 1 can give as nothing limits it, is refused:
  the handler answers 400 and touches no camera.
\<close>

theorem bridge_segments:
  assumes "\<And>c d. 0 \<le> c \<Longrightarrow> c \<le> 1 \<Longrightarrow> 0 \<le> d \<Longrightarrow> scaled sp (Fin c) d \<le> d"
    "0 \<le> panDurationPerFOV sp" "panDurationPerFOV sp \<le> 2000 * millisecond"
    "0 \<le> tiltDurationPerFOV sp" "tiltDurationPerFOV sp \<le> 2000 * millisecond"
    "\<bar>a\<bar> \<le> 1" "\<bar>b\<bar> \<le> 1" "name \<noteq> []"
  shows "(\<forall>(dir, ns) \<in> set (relativeSegments sp (Fin a) (Fin b)). \<exists>op. ptzOperations dir = Some op \<and> op \<noteq> 0 \<and>
      parsePTZDuration (query_get (sendQuery base name dir ns) ''duration'') op = Some (ns div millisecond)) \<and>
    (\<forall>x y. \<forall>(dir, ns) \<in> set (relativeSegments sp x y). 2001 * millisecond \<le> ns \<longrightarrow>
      apiPTZ lib w ''POST'' (sendQuery base name dir ns) =
        Some (HttpError 400 ''duration must be between 1 and 2000 milliseconds'', []))"
proof (rule conjI)
  have ns: "millisecond \<le> ns \<and> ns \<le> 2000 * millisecond"
    if "(dir, ns) \<in> set (relativeSegments sp (Fin a) (Fin b))" for dir ns
  proof -
    have "scaled sp (flt_abs (Fin a)) (panDurationPerFOV sp) \<le> 2000 * millisecond"
      "scaled sp (flt_abs (Fin b)) (tiltDurationPerFOV sp) \<le> 2000 * millisecond"
      using assms(1) [of "\<bar>a\<bar>" "panDurationPerFOV sp"] assms(1) [of "\<bar>b\<bar>" "tiltDurationPerFOV sp"] assms(2-7) by simp_all
    with that axisSegment_bounds [of dir ns sp "panDurationPerFOV sp" _ _ "Fin a" "2000 * millisecond"]
      axisSegment_bounds [of dir ns sp "tiltDurationPerFOV sp" _ _ "Fin b" "2000 * millisecond"]
    show ?thesis unfolding relativeSegments_def by (fastforce simp: millisecond_def)
  qed
  have two: "n \<le> 2000 * millisecond \<Longrightarrow> n div millisecond \<le> 2000" for n
    by (simp add: millisecond_def)
  show "\<forall>(dir, ns) \<in> set (relativeSegments sp (Fin a) (Fin b)). \<exists>op. ptzOperations dir = Some op \<and> op \<noteq> 0 \<and>
      parsePTZDuration (query_get (sendQuery base name dir ns) ''duration'') op = Some (ns div millisecond)"
  proof (intro ballI, clarify)
    fix dir ns' assume m: "(dir, ns') \<in> set (relativeSegments sp (Fin a) (Fin b))"
    from segment_operation [OF m] obtain op where op: "ptzOperations dir = Some op" "op \<noteq> 0" by blast
    have "millisecond \<le> ns'" "ns' div millisecond \<le> 2000" using ns [OF m] two by simp_all
    with parse_sent_duration [OF op(2), of ns' base name dir] op
    show "\<exists>op. ptzOperations dir = Some op \<and> op \<noteq> 0 \<and>
        parsePTZDuration (query_get (sendQuery base name dir ns') ''duration'') op = Some (ns' div millisecond)"
      by simp
  qed
  have "apiPTZ lib w ''POST'' (sendQuery base name dir ns) =
      Some (HttpError 400 ''duration must be between 1 and 2000 milliseconds'', [])"
    if s: "(dir, ns) \<in> set (relativeSegments sp x y)" and l: "2001 * millisecond \<le> ns" for dir ns x y
  proof -
    from segment_operation [OF s] obtain op where op: "ptzOperations dir = Some op" "op \<noteq> 0" by blast
    have "\<not> ns div millisecond \<le> 2000" using l by (simp add: millisecond_def)
    moreover have "millisecond \<le> ns" using l by (simp add: millisecond_def)
    ultimately have "parsePTZDuration (query_get (sendQuery base name dir ns) ''duration'') op = None"
      using parse_sent_duration [OF op(2)] by simp
    with op assms(8) show ?thesis by (simp add: apiPTZ_def sendQuery_get Let_def)
  qed
  then show "\<forall>x y. \<forall>(dir, ns) \<in> set (relativeSegments sp x y). 2001 * millisecond \<le> ns \<longrightarrow>
      apiPTZ lib w ''POST'' (sendQuery base name dir ns) =
        Some (HttpError 400 ''duration must be between 1 and 2000 milliseconds'', [])" by blast
qed

definition demo_speed :: onvif_speed where
  "demo_speed = \<lparr>panDurationPerFOV = 900 * millisecond, tiltDurationPerFOV = 700 * millisecond,
     scaled = (\<lambda>v d. case v of Fin c \<Rightarrow> \<lfloor>c * of_int d\<rfloor> | _ \<Rightarrow> 0)\<rparr>"

theorem bridge_segments_witness:
  "relativeSegments demo_speed (Fin (1 / 2)) (Fin 0) = [(''right'', 450000000)] \<and>
   parsePTZDuration (query_get (sendQuery [] ''cam'' ''right'' 450000000) ''duration'') 2 = Some 450"
proof -
  have s: "scaled demo_speed (Fin c) d \<le> d" if "0 \<le> c" "c \<le> 1" "0 \<le> d" for c d
  proof -
    have "c * of_int d \<le> of_int d" using mult_right_mono [OF that(2), of "of_int d"] that(3) by simp
    then show ?thesis using floor_mono [of "c * of_int d" "of_int d :: rat"] by (simp add: demo_speed_def)
  qed
  have r: "relativeSegments demo_speed (Fin (1 / 2)) (Fin 0) = [(''right'', 450000000)]"
    by (simp add: relativeSegments_def axisSegment_def demo_speed_def relativeDeadband_def flt_le_def millisecond_def)
  have "\<exists>op. ptzOperations ''right'' = Some op \<and> op \<noteq> 0 \<and>
      parsePTZDuration (query_get (sendQuery [] ''cam'' ''right'' 450000000) ''duration'') op = Some (450000000 div millisecond)"
    using bridge_segments [OF s, of "1 / 2" 0 "''cam''" "[]" undefined undefined] r
    by (simp add: demo_speed_def millisecond_def)
  with r show ?thesis by (auto simp: ptzOperations_def millisecond_def)
qed

end
